(* ===== verification/Prelude.thy ===== *)
theory Prelude
  imports Main "HOL-Library.Multiset" "HOL-Library.Word" "HOL-Library.Sublist"
begin

text \<open>
  Shared vocabulary of the development: the collections of simplification facts the
  component theories extend, the types that name Go's basic values, and generic lemmas on
  lists and association lists (Go maps and slices) that several components use.
\<close>

section \<open>Collections\<close>

named_theorems go_defs "definitions of small Go helpers, unfolded together"
named_theorems inv_intros "introduction rules for component invariants"

section \<open>Go's basic values\<close>

text \<open>
  A Go string or byte slice is a sequence of bytes; an Isabelle character is exactly one
  byte, so both are lists of characters. A rune is an \<open>int32\<close> that holds a code point: no
  arithmetic of the program leaves the range, so it is an \<open>int\<close>. Instants and durations are
  counted in nanoseconds, as \<open>time.Duration\<close> is.
\<close>

type_synonym gostring = string
type_synonym bytes = string
type_synonym rune = int
type_synonym instant = int
type_synonym duration = int

definition millisecond :: duration where [simp]: "millisecond = 1000000"
definition second :: duration where [simp]: "second = 1000000000"
definition minute :: duration where [simp]: "minute = 60000000000"

text \<open>A Go map that is ranged over: an association list with distinct keys, newest first.\<close>

type_synonym ('k, 'v) gomap = "('k \<times> 'v) list"

definition map_put :: "'k \<Rightarrow> 'v \<Rightarrow> ('k, 'v) gomap \<Rightarrow> ('k, 'v) gomap" where
  "map_put k v m = (k, v) # filter (\<lambda>p. fst p \<noteq> k) m"

definition map_del :: "'k \<Rightarrow> ('k, 'v) gomap \<Rightarrow> ('k, 'v) gomap" where
  "map_del k m = filter (\<lambda>p. fst p \<noteq> k) m"

definition keys_distinct :: "('k, 'v) gomap \<Rightarrow> bool" where
  "keys_distinct m \<longleftrightarrow> distinct (map fst m)"

lemma map_of_filter_key: "map_of (filter (\<lambda>p. P (fst p)) m) k = (if P k then map_of m k else None)"
  by (induction m) auto

lemma map_of_map_put [simp]: "map_of (map_put k v m) = (map_of m)(k \<mapsto> v)"
  by (rule ext) (simp add: map_put_def map_of_filter_key [where P = "\<lambda>x. x \<noteq> k"])

lemma map_of_map_del [simp]: "map_of (map_del k m) = (map_of m)(k := None)"
  by (rule ext) (simp add: map_del_def map_of_filter_key [where P = "\<lambda>x. x \<noteq> k"])

lemma distinct_map_filter_fst: "distinct (map fst m) \<Longrightarrow> distinct (map fst (filter P m))"
  by (induction m) auto

lemma keys_distinct_Nil [simp]: "keys_distinct []"
  by (simp add: keys_distinct_def)

lemma keys_distinct_filter [simp]: "keys_distinct m \<Longrightarrow> keys_distinct (filter P m)"
  by (simp add: keys_distinct_def distinct_map_filter_fst)

lemma keys_distinct_map_del [simp]: "keys_distinct m \<Longrightarrow> keys_distinct (map_del k m)"
  by (simp add: map_del_def)

lemma keys_distinct_map_put [simp]: "keys_distinct m \<Longrightarrow> keys_distinct (map_put k v m)"
  by (auto simp: keys_distinct_def map_put_def distinct_map_filter_fst)

lemma filter_absent_key: "map_of m k = None \<Longrightarrow> filter (\<lambda>p. fst p \<noteq> k) m = m"
  by (induction m) (auto split: if_splits)

lemma length_map_put_absent: "map_of m k = None \<Longrightarrow> length (map_put k v m) = Suc (length m)"
  by (simp add: map_put_def filter_absent_key)

lemma length_filter_present:
  "keys_distinct m \<Longrightarrow> map_of m k = Some v \<Longrightarrow>
   Suc (length (filter (\<lambda>p. fst p \<noteq> k) m)) = length m"
proof (induction m)
  case Nil
  then show ?case by simp
next
  case (Cons p m)
  show ?case
  proof (cases "fst p = k")
    case True
    with Cons.prems have "map_of m k = None"
      by (auto simp: keys_distinct_def map_of_eq_None_iff)
    with True show ?thesis by (simp add: filter_absent_key)
  next
    case False
    with Cons show ?thesis by (auto simp: keys_distinct_def)
  qed
qed

lemma length_map_put_present:
  "keys_distinct m \<Longrightarrow> map_of m k = Some v \<Longrightarrow> length (map_put k w m) = length m"
  by (simp add: map_put_def length_filter_present)

lemma map_of_filter_SomeD:
  "keys_distinct m \<Longrightarrow> map_of (filter P m) k = Some v \<Longrightarrow> map_of m k = Some v"
  by (metis keys_distinct_def filter_is_subset map_of_SomeD map_of_eq_Some_iff subsetD)

text \<open>
  The iteration order of a Go map is unspecified: an order is a function that permutes the
  entries of the map, chosen anew for each range statement.
\<close>

definition iteration_order :: "('a list \<Rightarrow> 'a list) \<Rightarrow> bool" where
  "iteration_order f \<longleftrightarrow> (\<forall>xs. mset (f xs) = mset xs)"

lemma iteration_order_id [simp]: "iteration_order (\<lambda>xs. xs)"
  by (simp add: iteration_order_def)

lemma iteration_order_rev [simp]: "iteration_order rev"
  by (simp add: iteration_order_def)

lemma iteration_order_set: "iteration_order f \<Longrightarrow> set (f xs) = set xs"
  by (metis iteration_order_def set_mset_mset)

lemma iteration_order_distinct_map:
  "iteration_order f \<Longrightarrow> distinct (map g xs) \<Longrightarrow> distinct (map g (f xs))"
  by (metis iteration_order_def mset_eq_imp_distinct_iff mset_map)

section \<open>Lists\<close>

lemma butlast_snoc_conv: "xs \<noteq> [] \<Longrightarrow> ys = butlast xs \<longleftrightarrow> xs = ys @ [last xs]"
  by (metis append_butlast_last_id butlast_snoc)

lemma take_Suc_snoc: "i < length xs \<Longrightarrow> take (Suc i) xs = take i xs @ [xs ! i]"
  by (rule take_Suc_conv_app_nth)

end
