(* ===== verification/GoStrings.thy ===== *)
theory GoStrings
  imports Prelude
begin

unbundle bit_operations_syntax

text \<open>
  The parts of Go's standard library the program's text handling rests on: UTF-8 decoding and
  encoding (\<open>[]rune(s)\<close>, \<open>string(r)\<close>, \<open>strings.Builder.WriteRune\<close>, \<open>utf8.RuneCountInString\<close>),
  \<open>strings.HasPrefix\<close>, \<open>strings.TrimSpace\<close>, \<open>html.EscapeString\<close>, the FNV-1a hashes and
  \<open>strconv.FormatUint\<close> in base 36. A string is a list of bytes, which need not be valid UTF-8.
\<close>

section \<open>UTF-8\<close>

definition byte :: "char \<Rightarrow> int" where
  "byte c = of_char c"

definition chr_of :: "int \<Rightarrow> char" where
  "chr_of n = char_of n"

lemma byte_range [simp]: "0 \<le> byte c" "byte c < 256"
proof -
  have e: "byte c = of_char c mod 256" by (simp add: byte_def of_char_mod_256)
  show "0 \<le> byte c" "byte c < 256" unfolding e by (rule pos_mod_sign pos_mod_bound; simp)+
qed

lemma byte_chr_of: "byte (chr_of n) = n mod 256"
  by (simp add: byte_def chr_of_def)

lemma chr_of_byte [simp]: "chr_of (byte c) = c"
  by (simp add: byte_def chr_of_def)

definition RuneError :: rune where
  "RuneError = 0xFFFD"

definition valid_rune :: "rune \<Rightarrow> bool" where
  "valid_rune r \<longleftrightarrow> 0 \<le> r \<and> r < 0xD800 \<or> 0xDFFF < r \<and> r \<le> 0x10FFFF"

text \<open>A continuation byte, with the narrower range some first bytes ask of the second.\<close>

definition in_range :: "int \<Rightarrow> int \<Rightarrow> char \<Rightarrow> bool" where
  "in_range lo hi c \<longleftrightarrow> lo \<le> byte c \<and> byte c \<le> hi"

abbreviation cont :: "char \<Rightarrow> bool" where
  "cont \<equiv> in_range 0x80 0xBF"

text \<open>
  \<open>utf8.DecodeRuneInString\<close>: the first code point and its width; an invalid byte gives
  \<open>RuneError\<close> and width 1.
\<close>

definition second_range :: "int \<Rightarrow> int \<times> int" where
  "second_range b0 =
     (if b0 = 0xE0 then (0xA0, 0xBF) else if b0 = 0xED then (0x80, 0x9F)
      else if b0 = 0xF0 then (0x90, 0xBF) else if b0 = 0xF4 then (0x80, 0x8F)
      else (0x80, 0xBF))"

definition rune2 :: "int \<Rightarrow> int \<Rightarrow> rune" where
  "rune2 b0 b1 = (b0 - 0xC0) * 64 + (b1 - 0x80)"

definition rune3 :: "int \<Rightarrow> int \<Rightarrow> int \<Rightarrow> rune" where
  "rune3 b0 b1 b2 = (b0 - 0xE0) * 4096 + (b1 - 0x80) * 64 + (b2 - 0x80)"

definition rune4 :: "int \<Rightarrow> int \<Rightarrow> int \<Rightarrow> int \<Rightarrow> rune" where
  "rune4 b0 b1 b2 b3 =
     (b0 - 0xF0) * 262144 + (b1 - 0x80) * 4096 + (b2 - 0x80) * 64 + (b3 - 0x80)"

fun decode_rune :: "char \<Rightarrow> string \<Rightarrow> rune \<times> nat" where
  "decode_rune c0 cs =
     (let b0 = byte c0 in
      if b0 < 0x80 then (b0, 1)
      else if b0 < 0xC2 \<or> 0xF4 < b0 then (RuneError, 1)
      else case cs of
        [] \<Rightarrow> (RuneError, 1)
      | c1 # cs1 \<Rightarrow>
          if \<not> in_range (fst (second_range b0)) (snd (second_range b0)) c1 then (RuneError, 1)
          else if b0 < 0xE0 then (rune2 b0 (byte c1), 2)
          else case cs1 of
            [] \<Rightarrow> (RuneError, 1)
          | c2 # cs2 \<Rightarrow>
              if \<not> cont c2 then (RuneError, 1)
              else if b0 < 0xF0 then (rune3 b0 (byte c1) (byte c2), 3)
              else case cs2 of
                [] \<Rightarrow> (RuneError, 1)
              | c3 # _ \<Rightarrow>
                  if \<not> cont c3 then (RuneError, 1)
                  else (rune4 b0 (byte c1) (byte c2) (byte c3), 4))"

declare decode_rune.simps [simp del]

text \<open>\<open>[]rune(s)\<close>, and \<open>for _, r := range s\<close>.\<close>

fun runes_of :: "gostring \<Rightarrow> rune list" where
  "runes_of [] = []"
| "runes_of (c # cs) =
     (let (r, n) = decode_rune c cs in r # runes_of (drop (n - 1) cs))"

text \<open>\<open>string(r)\<close> and \<open>WriteRune\<close>: a value that is no code point is written as \<open>RuneError\<close>.\<close>

definition encode_rune :: "rune \<Rightarrow> string" where
  "encode_rune r0 =
     (let r = (if valid_rune r0 then r0 else RuneError) in
      if r < 0x80 then [chr_of r]
      else if r < 0x800 then [chr_of (0xC0 + r div 64), chr_of (0x80 + r mod 64)]
      else if r < 0x10000 then
        [chr_of (0xE0 + r div 4096), chr_of (0x80 + r div 64 mod 64), chr_of (0x80 + r mod 64)]
      else
        [chr_of (0xF0 + r div 262144), chr_of (0x80 + r div 4096 mod 64),
         chr_of (0x80 + r div 64 mod 64), chr_of (0x80 + r mod 64)])"

definition string_of :: "rune list \<Rightarrow> gostring" where
  "string_of rs = concat (map encode_rune rs)"

definition RuneCountInString :: "gostring \<Rightarrow> int" where
  "RuneCountInString s = int (length (runes_of s))"

lemma string_of_Nil [simp]: "string_of [] = []"
  by (simp add: string_of_def)

lemma string_of_Cons [simp]: "string_of (r # rs) = encode_rune r @ string_of rs"
  by (simp add: string_of_def)

lemma string_of_append [simp]: "string_of (xs @ ys) = string_of xs @ string_of ys"
  by (simp add: string_of_def)

lemma encode_rune_nonempty [simp]: "encode_rune r \<noteq> []"
  by (simp add: encode_rune_def Let_def)

lemma runes_of_eq_Nil [simp]: "runes_of s = [] \<longleftrightarrow> s = []"
  by (cases s) (auto split: prod.splits)

lemma decode_width: "decode_rune c cs = (r, n) \<Longrightarrow> 1 \<le> n \<and> n \<le> Suc (length cs)"
  by (auto simp: decode_rune.simps Let_def split: if_splits list.splits)

lemma byte_chr_of_small [simp]: "0 \<le> n \<Longrightarrow> n < 256 \<Longrightarrow> byte (chr_of n) = n"
  by (simp add: byte_chr_of)

text \<open>Decoding undoes encoding, whatever follows in the string.\<close>

lemma decode_encode_1:
  "0 \<le> r \<Longrightarrow> r < 0x80 \<Longrightarrow> decode_rune (chr_of r) s = (r, 1)"
  by (simp add: decode_rune.simps)

lemma decode_bytes_2:
  assumes "2 \<le> a" "a < 32" "0 \<le> b" "b < 64"
  shows "decode_rune (chr_of (0xC0 + a)) (chr_of (0x80 + b) # s) = (a * 64 + b, 2)"
  using assms by (simp add: decode_rune.simps Let_def second_range_def in_range_def rune2_def)

lemma decode_bytes_3:
  assumes "0 \<le> a" "a < 16" "0 \<le> b" "b < 64" "0 \<le> c" "c < 64"
    and "a = 0 \<longrightarrow> 32 \<le> b" and "a = 13 \<longrightarrow> b \<le> 31"
  shows "decode_rune (chr_of (0xE0 + a)) (chr_of (0x80 + b) # chr_of (0x80 + c) # s)
         = (a * 4096 + b * 64 + c, 3)"
  using assms by (simp add: decode_rune.simps Let_def second_range_def in_range_def rune3_def)

lemma decode_bytes_4:
  assumes "0 \<le> a" "a < 5" "0 \<le> b" "b < 64" "0 \<le> c" "c < 64" "0 \<le> d" "d < 64"
    and "a = 0 \<longrightarrow> 16 \<le> b" and "a = 4 \<longrightarrow> b \<le> 15"
  shows "decode_rune (chr_of (0xF0 + a))
           (chr_of (0x80 + b) # chr_of (0x80 + c) # chr_of (0x80 + d) # s)
         = (a * 262144 + b * 4096 + c * 64 + d, 4)"
  using assms by (simp add: decode_rune.simps Let_def second_range_def in_range_def rune4_def)

lemma decode_encode_2:
  assumes "0x80 \<le> r" "r < 0x800"
  shows "decode_rune (chr_of (0xC0 + r div 64)) (chr_of (0x80 + r mod 64) # s) = (r, 2)"
  using decode_bytes_2 [of "r div 64" "r mod 64" s] assms by auto

lemma split64:
  obtains q m :: int where "r = q * 64 + m" "0 \<le> m" "m < 64" "r div 64 = q" "r mod 64 = m"
proof
  show "r = r div 64 * 64 + r mod 64" by (rule div_mult_mod_eq [symmetric])
qed (rule pos_mod_sign pos_mod_bound refl; simp)+

lemma decode_encode_3:
  assumes "0x800 \<le> r" "r < 0x10000" "valid_rune r"
  shows "decode_rune (chr_of (0xE0 + r div 4096))
           (chr_of (0x80 + r div 64 mod 64) # chr_of (0x80 + r mod 64) # s) = (r, 3)"
proof -
  obtain q c where r: "r = q * 64 + c" "0 \<le> c" "c < 64" "r div 64 = q" "r mod 64 = c"
    by (rule split64)
  obtain a b where q: "q = a * 64 + b" "0 \<le> b" "b < 64" "q div 64 = a" "q mod 64 = b"
    by (rule split64)
  have d: "r div 4096 = a" using zdiv_zmult2_eq [of 64 r 64] r q by simp
  have "r = a * 4096 + b * 64 + c" using r(1) q(1) by simp
  moreover have "a = 0 \<longrightarrow> 32 \<le> b" "a = 13 \<longrightarrow> b \<le> 31" "0 \<le> a" "a < 16"
    using assms r(1-3) q(1-3) unfolding valid_rune_def by linarith+
  ultimately show ?thesis
    unfolding d r(4,5) q(5) using decode_bytes_3 [of a b c s] r(2,3) q(2,3) by simp
qed

lemma decode_encode_4:
  assumes "0x10000 \<le> r" "r \<le> 0x10FFFF"
  shows "decode_rune (chr_of (0xF0 + r div 262144))
           (chr_of (0x80 + r div 4096 mod 64) # chr_of (0x80 + r div 64 mod 64)
            # chr_of (0x80 + r mod 64) # s) = (r, 4)"
proof -
  obtain q d where r: "r = q * 64 + d" "0 \<le> d" "d < 64" "r div 64 = q" "r mod 64 = d"
    by (rule split64)
  obtain p c where q: "q = p * 64 + c" "0 \<le> c" "c < 64" "q div 64 = p" "q mod 64 = c"
    by (rule split64)
  obtain a b where p: "p = a * 64 + b" "0 \<le> b" "b < 64" "p div 64 = a" "p mod 64 = b"
    by (rule split64)
  have e: "r div 4096 = p" using zdiv_zmult2_eq [of 64 r 64] r q by simp
  have e2: "r div 262144 = a" using zdiv_zmult2_eq [of 64 r 4096] e p by simp
  have "r = a * 262144 + b * 4096 + c * 64 + d" using r(1) q(1) p(1) by simp
  moreover have "a = 0 \<longrightarrow> 16 \<le> b" "a = 4 \<longrightarrow> b \<le> 15" "0 \<le> a" "a < 5"
    using assms r(1-3) q(1-3) p(1-3) by linarith+
  ultimately show ?thesis
    unfolding e e2 r(4,5) q(5) p(5)
    using decode_bytes_4 [of a b c d s] r(2,3) q(2,3) p(2,3) by simp
qed

lemma runes_of_encode:
  assumes "valid_rune r"
  shows "runes_of (encode_rune r @ s) = r # runes_of s"
proof -
  consider "r < 0x80" | "0x80 \<le> r" "r < 0x800" | "0x800 \<le> r" "r < 0x10000" | "0x10000 \<le> r"
    by linarith
  then show ?thesis
    using assms decode_encode_1 [of r s] decode_encode_2 [of r s] decode_encode_3 [of r s]
      decode_encode_4 [of r s]
    by cases (simp_all add: encode_rune_def Let_def valid_rune_def)
qed

lemma runes_of_string_of [simp]:
  "\<forall>r \<in> set rs. valid_rune r \<Longrightarrow> runes_of (string_of rs) = rs"
  by (induction rs) (simp_all add: runes_of_encode)

lemma valid_RuneError [simp]: "valid_rune RuneError"
  by (simp add: valid_rune_def RuneError_def)

lemma second_byte_bounds:
  assumes "in_range (fst (second_range b)) (snd (second_range b)) c"
  shows "0x80 \<le> byte c" "byte c \<le> 0xBF"
    "b = 0xE0 \<longrightarrow> 0xA0 \<le> byte c" "b = 0xED \<longrightarrow> byte c \<le> 0x9F"
    "b = 0xF0 \<longrightarrow> 0x90 \<le> byte c" "b = 0xF4 \<longrightarrow> byte c \<le> 0x8F"
  using assms by (simp_all add: second_range_def in_range_def split: if_splits)

lemma decode_valid_2:
  "0xC2 \<le> b \<Longrightarrow> b < 0xE0 \<Longrightarrow> 0x80 \<le> c \<Longrightarrow> c \<le> 0xBF \<Longrightarrow> valid_rune (rune2 b c)"
  by (simp add: valid_rune_def rune2_def)

lemma decode_valid_3:
  assumes "0xE0 \<le> b" "b < 0xF0" "in_range (fst (second_range b)) (snd (second_range b)) c"
    and "0x80 \<le> d" "d \<le> 0xBF"
  shows "valid_rune (rune3 b (byte c) d)"
proof (cases "b \<le> 0xED")
  case True
  then show ?thesis
    using assms second_byte_bounds [OF assms(3)] by (cases "b = 0xED") (simp_all add: valid_rune_def rune3_def)
next
  case False
  then show ?thesis
    using assms second_byte_bounds(1,2) [OF assms(3)] by (simp add: valid_rune_def rune3_def)
qed

lemma decode_valid_4:
  assumes "0xF0 \<le> b" "b \<le> 0xF4" "in_range (fst (second_range b)) (snd (second_range b)) c"
    and "0x80 \<le> d" "d \<le> 0xBF" "0x80 \<le> e" "e \<le> 0xBF"
  shows "valid_rune (rune4 b (byte c) d e)"
proof -
  have "b = 0xF0 \<or> b = 0xF4 \<or> 0xF1 \<le> b \<and> b \<le> 0xF3" using assms(1,2) by linarith
  then show ?thesis
    using assms second_byte_bounds(1,2,5,6) [OF assms(3)]
    by (elim disjE) (simp_all add: valid_rune_def rune4_def)
qed

lemma decode_valid: "valid_rune (fst (decode_rune c cs))"
  by (auto simp: decode_rune.simps Let_def in_range_def [of 128 191] valid_rune_def [of "byte c"]
      intro!: decode_valid_2 decode_valid_3 decode_valid_4
      dest: second_byte_bounds(1,2) split: list.split)

lemma runes_of_valid: "r \<in> set (runes_of s) \<Longrightarrow> valid_rune r"
proof (induction s rule: runes_of.induct)
  case 1
  then show ?case by simp
next
  case (2 c cs)
  obtain x n where "decode_rune c cs = (x, n)" by fastforce
  then show ?case using 2 decode_valid [of c cs] by auto
qed

section \<open>Package strings\<close>

definition HasPrefix :: "gostring \<Rightarrow> gostring \<Rightarrow> bool" where
  "HasPrefix s p \<longleftrightarrow> take (length p) s = p"

lemma HasPrefix_append [simp]: "HasPrefix (p @ s) p"
  by (simp add: HasPrefix_def)

lemma HasPrefix_iff: "HasPrefix s p \<longleftrightarrow> (\<exists>t. s = p @ t)"
  by (metis HasPrefix_def append_eq_conv_conj append_take_drop_id)

text \<open>
  \<open>unicode.IsSpace\<close> (the White_Space property), and \<open>strings.TrimSpace\<close>: the string is cut
  into the byte groups of its code points, and the white ones are dropped at both ends. The
  bytes that stay are kept as they are, also where they are not valid UTF-8.
\<close>

definition IsSpace :: "rune \<Rightarrow> bool" where
  "IsSpace r \<longleftrightarrow> 9 \<le> r \<and> r \<le> 13 \<or> r = 32 \<or> r = 0x85 \<or> r = 0xA0 \<or> r = 0x1680
     \<or> 0x2000 \<le> r \<and> r \<le> 0x200A \<or> r = 0x2028 \<or> r = 0x2029 \<or> r = 0x202F \<or> r = 0x205F \<or> r = 0x3000"

fun pieces :: "gostring \<Rightarrow> (rune \<times> bytes) list" where
  "pieces [] = []"
| "pieces (c # cs) =
     (let (r, n) = decode_rune c cs in (r, c # take (n - 1) cs) # pieces (drop (n - 1) cs))"

definition trim_by :: "('a \<Rightarrow> bool) \<Rightarrow> 'a list \<Rightarrow> 'a list" where
  "trim_by P xs = rev (dropWhile P (rev (dropWhile P xs)))"

definition TrimSpace :: "gostring \<Rightarrow> gostring" where
  "TrimSpace s = concat (map snd (trim_by (\<lambda>p. IsSpace (fst p)) (pieces s)))"

lemma concat_pieces: "concat (map snd (pieces s)) = s"
  by (induction s rule: pieces.induct) (auto split: prod.splits)

lemma pieces_runes: "map fst (pieces s) = runes_of s"
  by (induction s rule: pieces.induct) (auto split: prod.splits)

lemma pieces_nonempty: "p \<in> set (pieces s) \<Longrightarrow> snd p \<noteq> []"
  by (induction s rule: pieces.induct) (auto split: prod.splits)

section \<open>Package html\<close>

definition escape_char :: "char \<Rightarrow> string" where
  "escape_char c =
     (if c = CHR ''&'' then ''&amp;''
      else if c = CHR 0x27 then ''&#39;''
      else if c = CHR ''<'' then ''&lt;''
      else if c = CHR ''>'' then ''&gt;''
      else if c = CHR 0x22 then ''&#34;''
      else [c])"

definition EscapeString :: "gostring \<Rightarrow> gostring" where
  "EscapeString s = concat (map escape_char s)"

definition markup_free :: "string \<Rightarrow> bool" where
  "markup_free s \<longleftrightarrow> (\<forall>c \<in> set s. c \<noteq> CHR ''<'' \<and> c \<noteq> CHR ''>'' \<and> c \<noteq> CHR 0x22 \<and> c \<noteq> CHR 0x27)"

lemma markup_free_append [simp]: "markup_free (s @ t) \<longleftrightarrow> markup_free s \<and> markup_free t"
  by (auto simp: markup_free_def)

lemma markup_free_Nil [simp]: "markup_free []"
  by (simp add: markup_free_def)

lemma markup_free_escape_char: "markup_free (escape_char c)"
  by (simp add: escape_char_def markup_free_def)

lemma markup_free_EscapeString [simp]: "markup_free (EscapeString s)"
  by (induction s) (simp_all add: EscapeString_def markup_free_escape_char)

section \<open>Packages hash/fnv and strconv\<close>

definition fnv32a :: "bytes \<Rightarrow> 32 word" where
  "fnv32a s = foldl (\<lambda>h c. (h XOR of_char c) * 16777619) 2166136261 s"

definition fnv64a :: "bytes \<Rightarrow> 64 word" where
  "fnv64a s = foldl (\<lambda>h c. (h XOR of_char c) * 1099511628211) 14695981039346656037 s"

text \<open>The digit table \<open>0123456789abcdefghijklmnopqrstuvwxyz\<close>, by byte value.\<close>

definition digit36 :: "nat \<Rightarrow> char" where
  "digit36 n = char_of (if n < 10 then 48 + n else 87 + n)"

fun format36 :: "nat \<Rightarrow> string" where
  "format36 n =
     (if n < 36 then [digit36 n] else format36 (n div 36) @ [digit36 (n mod 36)])"

declare format36.simps [simp del]

text \<open>\<open>strconv.FormatUint(x, 36)\<close>.\<close>

definition FormatUint36 :: "64 word \<Rightarrow> gostring" where
  "FormatUint36 w = format36 (unat w)"

definition digit_value :: "char \<Rightarrow> nat" where
  "digit_value c = (if of_char c < (97::nat) then of_char c - 48 else of_char c - 87)"

lemma digit_value_digit: "n < 36 \<Longrightarrow> digit_value (digit36 n) = n"
  by (simp add: digit_value_def digit36_def)

lemma digit_no_colon: "n < 36 \<Longrightarrow> digit36 n \<noteq> CHR '':''"
proof
  assume "n < 36" "digit36 n = CHR '':''"
  then have "of_char (digit36 n) = (58::nat)" by simp
  with \<open>n < 36\<close> show False by (auto simp: digit36_def split: if_splits)
qed

lemma format36_value: "foldl (\<lambda>v c. v * 36 + digit_value c) 0 (format36 n) = n"
proof (induction n rule: format36.induct)
  case (1 n)
  then show ?case by (subst format36.simps) (simp add: digit_value_digit)
qed

lemma format36_inj: "format36 m = format36 n \<Longrightarrow> m = n"
  by (metis format36_value)

lemma format36_no_colon: "CHR '':'' \<notin> set (format36 n)"
proof (induction n rule: format36.induct)
  case (1 n)
  then show ?case
    using digit_no_colon [of n, THEN not_sym] digit_no_colon [of "n mod 36", THEN not_sym]
    by (subst format36.simps) auto
qed

lemma FormatUint36_inj: "FormatUint36 v = FormatUint36 w \<longleftrightarrow> v = w"
  by (auto simp: FormatUint36_def word_unat_eq_iff dest: format36_inj)

lemma FormatUint36_no_colon: "CHR '':'' \<notin> set (FormatUint36 v)"
  by (simp add: FormatUint36_def format36_no_colon)

text \<open>Decimal notation, as \<open>%d\<close> and \<open>strconv.Itoa\<close> print it.\<close>

fun format10 :: "nat \<Rightarrow> string" where
  "format10 n = (if n < 10 then [digit36 n] else format10 (n div 10) @ [digit36 (n mod 10)])"

declare format10.simps [simp del]

definition Itoa :: "int \<Rightarrow> gostring" where
  "Itoa i = (if i < 0 then CHR ''-'' # format10 (nat (- i)) else format10 (nat i))"

end
