(* ===== verification/Errors.thy ===== *)
theory Errors
  imports GoStrings
begin

text \<open>
  Errors as values: \<open>pkg/errors/errors.go\<close> (the business errors and their codes) and the other
  kinds of error value the program tells apart. A Go pair \<open>(T, error)\<close> is a sum, \<open>Inl\<close> the error;
  a Go \<open>error\<close> alone is an option, \<open>None\<close> for \<open>nil\<close>.
\<close>

record BizError =
  be_Code :: int
  be_Message :: gostring
  be_HTTPStatus :: int

text \<open>
  \<open>gorm.ErrRecordNotFound\<close> and \<open>redis.Nil\<close> are sentinels of the libraries that the program
  compares with; \<open>PlainError\<close> is an \<open>errors.New\<close> or \<open>fmt.Errorf\<close> value, \<open>ContextError\<close> a
  cancelled or expired context, \<open>ExternalError\<close> any other failure of a library call.
\<close>

datatype error =
    BizErr BizError
  | PlainError gostring
  | RecordNotFound
  | RedisNil
  | ContextError
  | ExternalError gostring

type_synonym 'a result = "error + 'a"

definition newBizError :: "int \<Rightarrow> gostring \<Rightarrow> int \<Rightarrow> BizError" where
  "newBizError code message httpStatus =
     \<lparr>be_Code = code, be_Message = message, be_HTTPStatus = httpStatus\<rparr>"

definition BizError_Error :: "BizError \<Rightarrow> gostring" where
  "BizError_Error e = ''['' @ Itoa (be_Code e) @ ''] '' @ be_Message e"

definition ErrWordAlreadyExists :: BizError where
  "ErrWordAlreadyExists = newBizError 10001 ''word already exists'' 409"

definition ErrWordNotFound :: BizError where
  "ErrWordNotFound = newBizError 10002 ''word not found'' 404"

definition ErrInvalidCategory :: BizError where
  "ErrInvalidCategory = newBizError 10003 ''invalid category'' 400"

definition ErrInvalidRiskLevel :: BizError where
  "ErrInvalidRiskLevel = newBizError 10004 ''invalid risk level'' 400"

definition ErrTextTooLong :: BizError where
  "ErrTextTooLong = newBizError 10005 ''text too long'' 400"

definition ErrImportFailed :: BizError where
  "ErrImportFailed = newBizError 10006 ''import failed'' 500"

definition ErrRateLimitExceeded :: BizError where
  "ErrRateLimitExceeded = newBizError 10007 ''rate limit exceeded'' 429"

definition ErrUnauthorized :: BizError where
  "ErrUnauthorized = newBizError 10008 ''unauthorized'' 401"

definition ErrInvalidRequest :: BizError where
  "ErrInvalidRequest = newBizError 10009 ''invalid request'' 400"

definition ErrInternal :: BizError where
  "ErrInternal = newBizError 10010 ''internal server error'' 500"

definition IsBizError :: "error \<Rightarrow> BizError option" where
  "IsBizError err = (case err of BizErr e \<Rightarrow> Some e | _ \<Rightarrow> None)"

definition Wrap :: "BizError \<Rightarrow> gostring \<Rightarrow> BizError" where
  "Wrap err detail =
     \<lparr>be_Code = be_Code err, be_Message = be_Message err @ '': '' @ detail,
      be_HTTPStatus = be_HTTPStatus err\<rparr>"

text \<open>\<open>err.Error()\<close>, for the values whose text the program passes on.\<close>

definition error_text :: "error \<Rightarrow> gostring" where
  "error_text err = (case err of
       BizErr e \<Rightarrow> BizError_Error e
     | PlainError m \<Rightarrow> m
     | RecordNotFound \<Rightarrow> ''record not found''
     | RedisNil \<Rightarrow> ''redis: nil''
     | ContextError \<Rightarrow> ''context canceled''
     | ExternalError m \<Rightarrow> m)"

lemmas biz_error_defs [go_defs] =
  newBizError_def ErrWordAlreadyExists_def ErrWordNotFound_def ErrInvalidCategory_def
  ErrInvalidRiskLevel_def ErrTextTooLong_def ErrImportFailed_def ErrRateLimitExceeded_def
  ErrUnauthorized_def ErrInvalidRequest_def ErrInternal_def

lemma Wrap_simps [simp]:
  "be_Code (Wrap e d) = be_Code e" "be_HTTPStatus (Wrap e d) = be_HTTPStatus e"
  "be_Message (Wrap e d) = be_Message e @ '': '' @ d"
  by (simp_all add: Wrap_def)

end
