(* ===== verification/Domain.thy ===== *)
theory Domain
  imports Errors
begin

text \<open>
  The domain layer: the value objects of \<open>internal/domain/valueobject\<close> (category, risk level,
  word status, filter strategy, match and filter result), the entity \<open>SensitiveWord\<close> of
  \<open>internal/domain/entity\<close> with its validation, the events of \<open>internal/domain/event\<close>, and the
  repository's query and fingerprint types. \<open>time.Now()\<close> is an argument.
\<close>

section \<open>Category\<close>

type_synonym Category = gostring

definition CategoryPolitics :: Category where "CategoryPolitics = ''politics''"
definition CategoryPorn :: Category where "CategoryPorn = ''porn''"
definition CategoryAd :: Category where "CategoryAd = ''ad''"
definition CategoryViolence :: Category where "CategoryViolence = ''violence''"
definition CategoryAbuse :: Category where "CategoryAbuse = ''abuse''"
definition CategoryCustom :: Category where "CategoryCustom = ''custom''"

lemmas category_defs [go_defs] =
  CategoryPolitics_def CategoryPorn_def CategoryAd_def CategoryViolence_def CategoryAbuse_def
  CategoryCustom_def

definition validCategories :: "(Category, bool) gomap" where
  "validCategories =
     [(CategoryPolitics, True), (CategoryPorn, True), (CategoryAd, True),
      (CategoryViolence, True), (CategoryAbuse, True), (CategoryCustom, True)]"

text \<open>Reading an absent key of a \<open>map[Category]bool\<close> gives \<open>false\<close>.\<close>

definition Category_IsValid :: "Category \<Rightarrow> bool" where
  "Category_IsValid c = (case map_of validCategories c of Some b \<Rightarrow> b | None \<Rightarrow> False)"

definition Category_String :: "Category \<Rightarrow> gostring" where
  "Category_String c = c"

definition ParseCategory :: "gostring \<Rightarrow> Category result" where
  "ParseCategory s =
     (let c = s in
      if \<not> Category_IsValid c then Inl (PlainError (''invalid category: '' @ s)) else Inr c)"

definition AllCategories :: "Category list" where
  "AllCategories =
     [CategoryPolitics, CategoryPorn, CategoryAd, CategoryViolence, CategoryAbuse, CategoryCustom]"

lemma Category_IsValid_iff: "Category_IsValid c \<longleftrightarrow> c \<in> set AllCategories"
  by (auto simp: Category_IsValid_def validCategories_def AllCategories_def split: option.splits)

section \<open>Risk level, word status, filter strategy\<close>

type_synonym RiskLevel = int

definition RiskLow :: RiskLevel where "RiskLow = 1"
definition RiskMedium :: RiskLevel where "RiskMedium = 2"
definition RiskHigh :: RiskLevel where "RiskHigh = 3"
definition RiskCritical :: RiskLevel where "RiskCritical = 4"

lemmas risk_defs [go_defs] = RiskLow_def RiskMedium_def RiskHigh_def RiskCritical_def

definition RiskLevel_IsValid :: "RiskLevel \<Rightarrow> bool" where
  "RiskLevel_IsValid r \<longleftrightarrow> RiskLow \<le> r \<and> r \<le> RiskCritical"

definition RiskLevel_String :: "RiskLevel \<Rightarrow> gostring" where
  "RiskLevel_String r =
     (if r = RiskLow then ''low'' else if r = RiskMedium then ''medium''
      else if r = RiskHigh then ''high'' else if r = RiskCritical then ''critical''
      else ''unknown'')"

definition ParseRiskLevel :: "int \<Rightarrow> RiskLevel result" where
  "ParseRiskLevel level =
     (let r = level in
      if \<not> RiskLevel_IsValid r
      then Inl (PlainError (''invalid risk level: '' @ Itoa level @ '', must be 1-4'')) else Inr r)"

type_synonym WordStatus = int

definition WordStatusInactive :: WordStatus where "WordStatusInactive = 0"
definition WordStatusActive :: WordStatus where "WordStatusActive = 1"

lemmas status_defs [go_defs] = WordStatusInactive_def WordStatusActive_def

definition WordStatus_IsValid :: "WordStatus \<Rightarrow> bool" where
  "WordStatus_IsValid s \<longleftrightarrow> s = WordStatusInactive \<or> s = WordStatusActive"

definition WordStatus_IsActive :: "WordStatus \<Rightarrow> bool" where
  "WordStatus_IsActive s \<longleftrightarrow> s = WordStatusActive"

definition WordStatus_String :: "WordStatus \<Rightarrow> gostring" where
  "WordStatus_String s = (if s = WordStatusActive then ''active'' else ''inactive'')"

type_synonym FilterStrategyType = gostring

definition StrategyDetect :: FilterStrategyType where "StrategyDetect = ''detect''"
definition StrategyReplace :: FilterStrategyType where "StrategyReplace = ''replace''"
definition StrategyHighlight :: FilterStrategyType where "StrategyHighlight = ''highlight''"

lemmas strategy_defs [go_defs] = StrategyDetect_def StrategyReplace_def StrategyHighlight_def

definition FilterStrategyType_IsValid :: "FilterStrategyType \<Rightarrow> bool" where
  "FilterStrategyType_IsValid s \<longleftrightarrow>
     s = StrategyDetect \<or> s = StrategyReplace \<or> s = StrategyHighlight"

section \<open>Matches and filter results\<close>

record MatchItem =
  mi_Word :: gostring
  mi_Position :: int
  mi_EndPos :: int
  mi_Category :: Category
  mi_Level :: RiskLevel

record FilterResult =
  fr_Original :: gostring
  fr_Filtered :: gostring
  fr_IsHit :: bool
  fr_HitCount :: int
  fr_Matches :: "MatchItem list"
  fr_RiskLevel :: RiskLevel
  fr_ProcessedAt :: instant
  fr_CostMs :: int

text \<open>The loop of \<open>MaxRiskLevel\<close>; \<open>var max RiskLevel\<close> starts at 0.\<close>

fun max_level_loop :: "RiskLevel \<Rightarrow> MatchItem list \<Rightarrow> RiskLevel" where
  "max_level_loop mx [] = mx"
| "max_level_loop mx (m # ms) = max_level_loop (if mi_Level m > mx then mi_Level m else mx) ms"

definition MaxRiskLevel :: "MatchItem list \<Rightarrow> RiskLevel" where
  "MaxRiskLevel matches = max_level_loop 0 matches"

lemma max_level_loop_Max: "max_level_loop mx ms = Max (insert mx (mi_Level ` set ms))"
proof (induction ms arbitrary: mx)
  case Nil
  then show ?case by simp
next
  case (Cons m ms)
  have "max mx (mi_Level m) = (if mi_Level m > mx then mi_Level m else mx)" by auto
  with Cons show ?case
    by (cases "set ms = {}") (auto simp: Max_insert2 max.assoc)
qed

section \<open>The sensitive word\<close>

record SensitiveWord =
  sw_ID :: "64 word"
  sw_Text :: gostring
  sw_Category :: Category
  sw_Level :: RiskLevel
  sw_Status :: WordStatus
  sw_Tag :: gostring
  sw_CreatedAt :: instant
  sw_UpdatedAt :: instant

definition MaxWordLength :: int where "MaxWordLength = 255"
definition MinWordLength :: int where "MinWordLength = 1"

definition Validate :: "SensitiveWord \<Rightarrow> error option" where
  "Validate w =
     (if RuneCountInString (sw_Text w) < MinWordLength
      then Some (PlainError ''word text cannot be empty'')
      else if RuneCountInString (sw_Text w) > MaxWordLength
      then Some (PlainError ''word text exceeds maximum length'')
      else if \<not> Category_IsValid (sw_Category w) then Some (PlainError ''invalid category'')
      else if \<not> RiskLevel_IsValid (sw_Level w) then Some (PlainError ''invalid risk level'')
      else None)"

definition Activate :: "instant \<Rightarrow> SensitiveWord \<Rightarrow> SensitiveWord" where
  "Activate now w = w\<lparr>sw_Status := WordStatusActive, sw_UpdatedAt := now\<rparr>"

definition Deactivate :: "instant \<Rightarrow> SensitiveWord \<Rightarrow> SensitiveWord" where
  "Deactivate now w = w\<lparr>sw_Status := WordStatusInactive, sw_UpdatedAt := now\<rparr>"

definition IsActive :: "SensitiveWord \<Rightarrow> bool" where
  "IsActive w = WordStatus_IsActive (sw_Status w)"

lemma Validate_None_iff:
  "Validate w = None \<longleftrightarrow>
   sw_Text w \<noteq> [] \<and> length (runes_of (sw_Text w)) \<le> 255 \<and>
   sw_Category w \<in> set AllCategories \<and> 1 \<le> sw_Level w \<and> sw_Level w \<le> 4"
  by (auto simp: Validate_def RuneCountInString_def MinWordLength_def MaxWordLength_def
      Category_IsValid_iff RiskLevel_IsValid_def go_defs not_less Suc_le_eq)

lemma Activate_lifecycle [simp]:
  "IsActive (Activate now w)" "\<not> IsActive (Deactivate now w)"
  by (simp_all add: Activate_def Deactivate_def IsActive_def WordStatus_IsActive_def go_defs)

section \<open>Events\<close>

type_synonym EventType = gostring

definition WordCreated :: EventType where "WordCreated = ''word.created''"
definition WordUpdated :: EventType where "WordUpdated = ''word.updated''"
definition WordDeleted :: EventType where "WordDeleted = ''word.deleted''"
definition WordBatchImported :: EventType where "WordBatchImported = ''word.batch_imported''"

record WordChangedEvent =
  ev_Type :: EventType
  ev_WordID :: "64 word"
  ev_Count :: int
  ev_Timestamp :: instant

definition NewWordChangedEvent :: "instant \<Rightarrow> EventType \<Rightarrow> 64 word \<Rightarrow> WordChangedEvent" where
  "NewWordChangedEvent now eventType wordID =
     \<lparr>ev_Type = eventType, ev_WordID = wordID, ev_Count = 0, ev_Timestamp = now\<rparr>"

definition NewBatchImportEvent :: "instant \<Rightarrow> int \<Rightarrow> WordChangedEvent" where
  "NewBatchImportEvent now n =
     \<lparr>ev_Type = WordBatchImported, ev_WordID = 0, ev_Count = n, ev_Timestamp = now\<rparr>"

section \<open>The repository's query and fingerprint\<close>

record WordQuery =
  wq_Category :: "Category option"
  wq_Level :: "RiskLevel option"
  wq_Status :: "WordStatus option"
  wq_Keyword :: gostring
  wq_Page :: int
  wq_PageSize :: int

record WordFingerprint =
  fp_Count :: int
  fp_MaxID :: "64 word"
  fp_MaxUpdatedUnixMicro :: int

definition zero_fingerprint :: WordFingerprint where
  "zero_fingerprint = \<lparr>fp_Count = 0, fp_MaxID = 0, fp_MaxUpdatedUnixMicro = 0\<rparr>"

end
