(* ===== verification/Normalizer.thy ===== *)
theory Normalizer
  imports Domain
begin

text \<open>
  \<open>internal/infrastructure/algorithm/text_normalizer.go\<close>. Two things it uses are data that is
  not in the repository and are parameters, collected in a record: the NFKC normalisation of
  \<open>golang.org/x/text\<close>, and the case table that \<open>unicode.ToLower\<close> consults above ASCII (the ASCII
  part of \<open>unicode.ToLower\<close> is written out).
\<close>

record unicode_data =
  nfkc :: "gostring \<Rightarrow> gostring"
  lower_table :: "rune \<Rightarrow> rune"

text \<open>Text in ASCII: normalisation and the table change nothing there. Used in examples.\<close>

definition ascii_data :: unicode_data where
  "ascii_data = \<lparr>nfkc = (\<lambda>t. t), lower_table = (\<lambda>r. r)\<rparr>"

definition zeroWidthChars :: "rune list" where
  "zeroWidthChars =
     [0x200B, 0x200C, 0x200D, 0xFEFF, 0x00AD, 0x200E, 0x200F, 0x2060, 0x2061, 0x2062, 0x2063, 0x2064]"

definition fullWidthToHalfWidth :: "rune \<Rightarrow> rune" where
  "fullWidthToHalfWidth r =
     (if 0xFF01 \<le> r \<and> r \<le> 0xFF5E then r - 0xFEE0
      else if r = 0x3000 then 0x20
      else r)"

text \<open>\<open>unicode.ToLower\<close>: an ASCII letter directly, anything above \<open>MaxASCII\<close> by the table.\<close>

definition ToLower :: "unicode_data \<Rightarrow> rune \<Rightarrow> rune" where
  "ToLower u r =
     (if r \<le> 0x7F then (if 0x41 \<le> r \<and> r \<le> 0x5A then r + 0x20 else r) else lower_table u r)"

text \<open>The loop body: skip, fold the width, fold the case, write.\<close>

fun normalize_loop :: "unicode_data \<Rightarrow> rune list \<Rightarrow> gostring" where
  "normalize_loop u [] = []"
| "normalize_loop u (r # rs) =
     (if r \<in> set zeroWidthChars then normalize_loop u rs
      else encode_rune (ToLower u (fullWidthToHalfWidth r)) @ normalize_loop u rs)"

definition Normalize :: "unicode_data \<Rightarrow> gostring \<Rightarrow> gostring" where
  "Normalize u text = normalize_loop u (runes_of (nfkc u text))"

definition NormalizeForIndex :: "unicode_data \<Rightarrow> gostring \<Rightarrow> gostring" where
  "NormalizeForIndex u text = Normalize u (TrimSpace text)"

section \<open>What the loop computes\<close>

text \<open>The rune a kept rune becomes, and the runes of a normalised text.\<close>

definition fold_rune :: "unicode_data \<Rightarrow> rune \<Rightarrow> rune" where
  "fold_rune u r = ToLower u (fullWidthToHalfWidth r)"

definition visible :: "rune \<Rightarrow> bool" where
  "visible r \<longleftrightarrow> r \<notin> set zeroWidthChars"

text \<open>
  What the table is relied on for: it maps a code point above ASCII to a code point that is
  neither zero-width, nor full-width, nor an upper-case ASCII letter. Unicode's simple
  lower-case mapping does (\<open>U+212A\<close> to \<open>k\<close> and \<open>U+00C5\<close> to \<open>U+00E5\<close>, say).
\<close>

definition table_ok :: "unicode_data \<Rightarrow> bool" where
  "table_ok u \<longleftrightarrow>
     (\<forall>r > 0x7F. valid_rune r \<longrightarrow>
        valid_rune (lower_table u r) \<and>
        (visible r \<longrightarrow> visible (lower_table u r)) \<and>
        (\<not> (0xFF01 \<le> r \<and> r \<le> 0xFF5E) \<longrightarrow>
           \<not> (0xFF01 \<le> lower_table u r \<and> lower_table u r \<le> 0xFF5E)) \<and>
        \<not> (0x41 \<le> lower_table u r \<and> lower_table u r \<le> 0x5A) \<and>
        (r \<noteq> 0x3000 \<longrightarrow> lower_table u r \<noteq> 0x3000))"

lemma normalize_loop_eq: "normalize_loop u rs = string_of (map (fold_rune u) (filter visible rs))"
  by (induction rs) (simp_all add: fold_rune_def visible_def)

lemma fullWidth_valid: "valid_rune r \<Longrightarrow> valid_rune (fullWidthToHalfWidth r)"
  by (auto simp: fullWidthToHalfWidth_def valid_rune_def)

lemma fold_rune_valid: "table_ok u \<Longrightarrow> valid_rune r \<Longrightarrow> valid_rune (fold_rune u r)"
  using fullWidth_valid [of r]
  by (auto simp: fold_rune_def ToLower_def table_ok_def valid_rune_def [of "_ + 32"]
      valid_rune_def [of r])

lemma runes_of_Normalize:
  assumes "table_ok u"
  shows "runes_of (Normalize u t) = map (fold_rune u) (filter visible (runes_of (nfkc u t)))"
  unfolding Normalize_def normalize_loop_eq
  by (rule runes_of_string_of) (auto intro: fold_rune_valid [OF assms] runes_of_valid)

text \<open>A rune after folding: no zero-width, no full-width form, no upper-case ASCII letter.\<close>

definition canonical_rune :: "rune \<Rightarrow> bool" where
  "canonical_rune r \<longleftrightarrow> visible r \<and> \<not> (0xFF01 \<le> r \<and> r \<le> 0xFF5E) \<and> r \<noteq> 0x3000
     \<and> \<not> (0x41 \<le> r \<and> r \<le> 0x5A)"

lemma visible_ascii: "r \<le> 0x7F \<Longrightarrow> visible r"
  by (auto simp: visible_def zeroWidthChars_def)

lemma fold_rune_canonical:
  assumes "table_ok u" "valid_rune r" "visible r"
  shows "canonical_rune (fold_rune u r)"
proof (cases "fullWidthToHalfWidth r \<le> 0x7F")
  case True
  then show ?thesis
    by (auto simp: canonical_rune_def fold_rune_def ToLower_def intro: visible_ascii)
next
  case False
  then have fw: "fullWidthToHalfWidth r = r" and big: "0x7F < r"
    and nfw: "\<not> (0xFF01 \<le> r \<and> r \<le> 0xFF5E)" "r \<noteq> 0x3000"
    by (auto simp: fullWidthToHalfWidth_def split: if_splits)
  from assms(1) big assms(2) have "visible r \<longrightarrow> visible (lower_table u r)"
    "\<not> (0xFF01 \<le> r \<and> r \<le> 0xFF5E) \<longrightarrow>
       \<not> (0xFF01 \<le> lower_table u r \<and> lower_table u r \<le> 0xFF5E)"
    "\<not> (0x41 \<le> lower_table u r \<and> lower_table u r \<le> 0x5A)"
    "r \<noteq> 0x3000 \<longrightarrow> lower_table u r \<noteq> 0x3000"
    unfolding table_ok_def by blast+
  with assms(3) nfw big show ?thesis
    unfolding canonical_rune_def fold_rune_def ToLower_def fw by auto
qed

text \<open>
  Every rune of a normalised text is canonical: nothing is left that a variant spelling by
  width, case or invisible characters could use.
\<close>

lemma Normalize_canonical:
  "table_ok u \<Longrightarrow> r \<in> set (runes_of (Normalize u t)) \<Longrightarrow> canonical_rune r"
  by (auto simp: runes_of_Normalize intro: fold_rune_canonical runes_of_valid)

end
