(* ===== verification/Middleware.thy ===== *)
theory Middleware
  imports Normalizer Errors
begin

text \<open>
  \<open>internal/interfaces/middleware\<close>: the handlers every HTTP request passes before it reaches one of
  the program, and the rate limiter they keep. Gin is the library below: a handler gets the
  request and the context with what has been written so far, \<open>c.Next()\<close> is the call of the rest
  of the chain, and \<open>c.Abort...\<close> leaves the rest out. \<open>None\<close> is not returning.
\<close>

section \<open>Requests, contexts and handlers\<close>

text \<open>
  What a handler reads of the request: besides the parts of the message, the random bytes and
  the time that \<open>generateID\<close> gets, and the id of the span where tracing made one.
\<close>

record http_request =
  rq_Method :: gostring
  rq_Headers :: "(gostring, gostring) gomap"
  rq_ClientIP :: gostring
  rq_Param :: "(gostring, gostring) gomap"
  rq_Query :: "(gostring, gostring) gomap"
  rq_Body :: "bytes option"
  rq_Rand :: "bytes option"
  rq_Now :: instant
  rq_Span :: "gostring option"

definition get_string :: "(gostring, gostring) gomap \<Rightarrow> gostring \<Rightarrow> gostring" where
  "get_string m k = (case map_of m k of Some v \<Rightarrow> v | None \<Rightarrow> [])"

definition GetHeader :: "http_request \<Rightarrow> gostring \<Rightarrow> gostring" where
  "GetHeader rq k = get_string (rq_Headers rq) k"

text \<open>The body of a response: the common envelope, or anything else.\<close>

datatype 'p reply =
    Reply (re_Code: int) (re_Message: gostring) (re_Data: "'p option") (re_TraceID: gostring)
  | Bare 'p

record 'p gin =
  gn_values :: "(gostring, gostring) gomap"
  gn_headers :: "(gostring, gostring) gomap"
  gn_status :: int
  gn_written :: bool
  gn_body :: "'p reply list"
  gn_aborted :: bool
  gn_limit :: "int option"

definition new_gin :: "'p gin" where
  "new_gin = \<lparr>gn_values = [], gn_headers = [], gn_status = 200, gn_written = False, gn_body = [],
     gn_aborted = False, gn_limit = None\<rparr>"

definition gin_Set :: "gostring \<Rightarrow> gostring \<Rightarrow> 'p gin \<Rightarrow> 'p gin" where
  "gin_Set k v c = c\<lparr>gn_values := map_put k v (gn_values c)\<rparr>"

definition gin_Header :: "gostring \<Rightarrow> gostring \<Rightarrow> 'p gin \<Rightarrow> 'p gin" where
  "gin_Header k v c = c\<lparr>gn_headers := map_put k v (gn_headers c)\<rparr>"

text \<open>The first write fixes the status.\<close>

definition gin_JSON :: "int \<Rightarrow> 'p reply \<Rightarrow> 'p gin \<Rightarrow> 'p gin" where
  "gin_JSON st r c =
     c\<lparr>gn_status := (if gn_written c then gn_status c else st), gn_written := True, gn_body := gn_body c @ [r]\<rparr>"

definition gin_AbortWithStatus :: "int \<Rightarrow> 'p gin \<Rightarrow> 'p gin" where
  "gin_AbortWithStatus st c =
     c\<lparr>gn_status := (if gn_written c then gn_status c else st), gn_written := True, gn_aborted := True\<rparr>"

definition gin_AbortWithStatusJSON :: "int \<Rightarrow> 'p reply \<Rightarrow> 'p gin \<Rightarrow> 'p gin" where
  "gin_AbortWithStatusJSON st r c = (gin_JSON st r c)\<lparr>gn_aborted := True\<rparr>"

text \<open>A body \<open>gin.H{"code": ..., "message": ...}\<close>.\<close>

definition plain_reply :: "int \<Rightarrow> gostring \<Rightarrow> 'p reply" where
  "plain_reply code message = Reply code message None []"

text \<open>A panic with a failed system call on the connection, or with any other value.\<close>

datatype panic = SyscallPanic gostring | OtherPanic

section \<open>The rate limiter\<close>

text \<open>
  A token bucket of \<open>golang.org/x/time/rate\<close> is a parameter: a bucket \<open>'l\<close>, its constructor and
  its \<open>Allow\<close>. Buckets are shared by reference, so they live in a heap; an entry of the
  \<open>sync.Map\<close> holds the address of one.
\<close>

record 'l rate_library =
  rt_new :: "int \<Rightarrow> int \<Rightarrow> 'l"
  rt_allow :: "instant \<Rightarrow> 'l \<Rightarrow> bool \<times> 'l"

record clientEntry =
  ce_limiter :: nat
  ce_lastSeen :: instant

record 'l perClientLimiter =
  pl_limiters :: "(gostring, clientEntry) gomap"
  pl_heap :: "'l list"
  pl_rps :: int
  pl_burst :: int

definition newPerClientLimiter :: "int \<Rightarrow> int \<Rightarrow> 'l perClientLimiter" where
  "newPerClientLimiter rps burst = \<lparr>pl_limiters = [], pl_heap = [], pl_rps = rps, pl_burst = burst\<rparr>"

text \<open>\<open>getLimiter\<close> in its two atomic steps: the \<open>Load\<close>, and the \<open>LoadOrStore\<close> of a new entry.\<close>

definition getLimiter_load ::
  "gostring \<Rightarrow> instant \<Rightarrow> 'l perClientLimiter \<Rightarrow> nat option \<times> 'l perClientLimiter" where
  "getLimiter_load key now l =
     (case map_of (pl_limiters l) key of
        None \<Rightarrow> (None, l)
      | Some e \<Rightarrow>
          (Some (ce_limiter e), l\<lparr>pl_limiters := map_put key (e\<lparr>ce_lastSeen := now\<rparr>) (pl_limiters l)\<rparr>))"

definition getLimiter_store ::
  "'l rate_library \<Rightarrow> gostring \<Rightarrow> instant \<Rightarrow> 'l perClientLimiter \<Rightarrow> nat \<times> 'l perClientLimiter" where
  "getLimiter_store rl key now l =
     (let e = \<lparr>ce_limiter = length (pl_heap l), ce_lastSeen = now\<rparr>;
          l1 = l\<lparr>pl_heap := pl_heap l @ [rt_new rl (pl_rps l) (pl_burst l)]\<rparr>;
          entry = (case map_of (pl_limiters l1) key of Some e' \<Rightarrow> e' | None \<Rightarrow> e)
      in (ce_limiter entry,
          l1\<lparr>pl_limiters := map_put key (entry\<lparr>ce_lastSeen := now\<rparr>) (pl_limiters l1)\<rparr>))"

definition getLimiter ::
  "'l rate_library \<Rightarrow> gostring \<Rightarrow> instant \<Rightarrow> 'l perClientLimiter \<Rightarrow> nat \<times> 'l perClientLimiter" where
  "getLimiter rl key now l =
     (case getLimiter_load key now l of
        (Some a, l') \<Rightarrow> (a, l')
      | (None, l') \<Rightarrow> getLimiter_store rl key now l')"

definition limiter_Allow ::
  "'l rate_library \<Rightarrow> nat \<Rightarrow> instant \<Rightarrow> 'l perClientLimiter \<Rightarrow> bool \<times> 'l perClientLimiter" where
  "limiter_Allow rl a now l =
     (let (ok, b) = rt_allow rl now (pl_heap l ! a) in (ok, l\<lparr>pl_heap := (pl_heap l)[a := b]\<rparr>))"

text \<open>One pass of \<open>cleanup\<close>, ten minutes back.\<close>

definition limiter_cleanup :: "instant \<Rightarrow> 'l perClientLimiter \<Rightarrow> 'l perClientLimiter" where
  "limiter_cleanup now l =
     (let cutoff = now - 10 * minute
      in l\<lparr>pl_limiters := filter (\<lambda>(k, e). \<not> ce_lastSeen e < cutoff) (pl_limiters l)\<rparr>)"

section \<open>The middlewares\<close>

text \<open>The state of the server: the limiter of the chain and what the handlers work on.\<close>

record ('l, 't) server =
  sv_limiter :: "'l perClientLimiter"
  sv_app :: 't

type_synonym ('p, 'l, 't) handler =
  "http_request \<Rightarrow> 'p gin \<Rightarrow> ('l, 't) server \<Rightarrow> (panic option \<times> 'p gin \<times> ('l, 't) server) option"

definition strings_Contains :: "gostring \<Rightarrow> gostring \<Rightarrow> bool" where
  "strings_Contains s sub = list_ex (\<lambda>i. HasPrefix (drop i s) sub) [0 ..< Suc (length s)]"

definition strings_ToLower :: "unicode_data \<Rightarrow> gostring \<Rightarrow> gostring" where
  "strings_ToLower u s = string_of (map (ToLower u) (runes_of s))"

definition brokenPipe :: "unicode_data \<Rightarrow> panic \<Rightarrow> bool" where
  "brokenPipe u p =
     (case p of
        OtherPanic \<Rightarrow> False
      | SyscallPanic m \<Rightarrow> strings_Contains (strings_ToLower u m) ''broken pipe'' \<or>
          strings_Contains (strings_ToLower u m) ''connection reset by peer'')"

definition recoveryMiddleware ::
  "unicode_data \<Rightarrow> ('p, 'l, 't) handler \<Rightarrow> ('p, 'l, 't) handler" where
  "recoveryMiddleware u rest rq c s =
     (case rest rq c s of
        None \<Rightarrow> None
      | Some (None, c', s') \<Rightarrow> Some (None, c', s')
      | Some (Some p, c', s') \<Rightarrow>
          if brokenPipe u p then Some (None, c'\<lparr>gn_aborted := True\<rparr>, s')
          else Some (None, gin_AbortWithStatusJSON 500 (plain_reply 500 ''internal server error'') c', s'))"

definition hex_digit :: "nat \<Rightarrow> char" where
  "hex_digit n = ''0123456789abcdef'' ! n"

text \<open>\<open>hex.EncodeToString\<close>, and \<open>%x\<close> of a number.\<close>

definition hex_EncodeToString :: "bytes \<Rightarrow> gostring" where
  "hex_EncodeToString bs =
     concat (map (\<lambda>b. [hex_digit (of_char b div 16), hex_digit (of_char b mod 16)]) bs)"

fun format16 :: "nat \<Rightarrow> string" where
  "format16 n = (if n < 16 then [hex_digit n] else format16 (n div 16) @ [hex_digit (n mod 16)])"

declare format16.simps [simp del]

definition generateID :: "http_request \<Rightarrow> gostring" where
  "generateID rq =
     (case rq_Rand rq of
        None \<Rightarrow> (if rq_Now rq < 0 then CHR ''-'' # format16 (nat (- rq_Now rq)) else format16 (nat (rq_Now rq)))
      | Some b \<Rightarrow> hex_EncodeToString b)"

definition requestIDMiddleware :: "('p, 'l, 't) handler \<Rightarrow> ('p, 'l, 't) handler" where
  "requestIDMiddleware rest rq c s =
     (let requestID = (if GetHeader rq ''X-Request-ID'' = [] then generateID rq
                       else GetHeader rq ''X-Request-ID'')
      in rest rq (gin_Header ''X-Request-ID'' requestID
           (gin_Set ''trace_id'' requestID (gin_Set ''request_id'' requestID c))) s)"

definition bodyLimitMiddleware :: "int \<Rightarrow> ('p, 'l, 't) handler \<Rightarrow> ('p, 'l, 't) handler" where
  "bodyLimitMiddleware maxBytes rest rq c s =
     rest rq (if rq_Body rq \<noteq> None then c\<lparr>gn_limit := Some maxBytes\<rparr> else c) s"

text \<open>The loop of \<open>corsMiddleware\<close> over the allowed origins: whether all are, and the set.\<close>

fun cors_origins :: "gostring list \<Rightarrow> (gostring, bool) gomap \<Rightarrow> bool \<times> (gostring, bool) gomap" where
  "cors_origins [] m = (False, m)"
| "cors_origins (x # xs) m = (if x = ''*'' then (True, m) else cors_origins xs (map_put x True m))"

definition set_has :: "(gostring, bool) gomap \<Rightarrow> gostring \<Rightarrow> bool" where
  "set_has m k = (case map_of m k of Some b \<Rightarrow> b | None \<Rightarrow> False)"

definition cors_headers :: "'p gin \<Rightarrow> 'p gin" where
  "cors_headers c =
     gin_Header ''Access-Control-Max-Age'' ''86400''
      (gin_Header ''Access-Control-Expose-Headers'' ''X-Request-ID''
       (gin_Header ''Access-Control-Allow-Headers''
          ''Origin, Content-Type, Authorization, X-API-Key, X-Request-ID''
        (gin_Header ''Access-Control-Allow-Methods'' ''GET, POST, PUT, DELETE, OPTIONS'' c)))"

definition corsMiddleware :: "gostring list \<Rightarrow> ('p, 'l, 't) handler \<Rightarrow> ('p, 'l, 't) handler" where
  "corsMiddleware allowedOrigins rest rq c s =
     (let (allowAll, originSet) = cors_origins allowedOrigins [];
          origin = GetHeader rq ''Origin'';
          finish = (\<lambda>c. if rq_Method rq = ''OPTIONS'' then Some (None, gin_AbortWithStatus 204 c, s)
                        else rest rq c s)
      in if allowAll then finish (cors_headers (gin_Header ''Access-Control-Allow-Origin'' ''*'' c))
         else if set_has originSet origin
         then finish (cors_headers (gin_Header ''Vary'' ''Origin''
                (gin_Header ''Access-Control-Allow-Origin'' origin c)))
         else if rq_Method rq = ''OPTIONS'' then Some (None, gin_AbortWithStatus 403 c, s)
         else rest rq c s)"

definition tracingMiddleware :: "bool \<Rightarrow> ('p, 'l, 't) handler \<Rightarrow> ('p, 'l, 't) handler" where
  "tracingMiddleware enabled rest rq c s =
     (if \<not> enabled then rest rq c s
      else case rq_Span rq of
          None \<Rightarrow> rest rq c s
        | Some traceID \<Rightarrow> rest rq (gin_Header ''X-Trace-ID'' traceID (gin_Set ''trace_id'' traceID c)) s)"

definition rateLimitMiddleware :: "'l rate_library \<Rightarrow> ('p, 'l, 't) handler \<Rightarrow> ('p, 'l, 't) handler" where
  "rateLimitMiddleware rl rest rq c s =
     (let key = (if GetHeader rq ''X-API-Key'' = [] then rq_ClientIP rq else GetHeader rq ''X-API-Key'');
          (a, l1) = getLimiter rl key (rq_Now rq) (sv_limiter s);
          (ok, l2) = limiter_Allow rl a (rq_Now rq) l1;
          s' = s\<lparr>sv_limiter := l2\<rparr>
      in if \<not> ok
         then Some (None, gin_AbortWithStatusJSON 429 (plain_reply 10007 ''rate limit exceeded'') c, s')
         else rest rq c s')"

definition key_set :: "gostring list \<Rightarrow> (gostring, bool) gomap" where
  "key_set apiKeys = fold (\<lambda>k m. map_put k True m) apiKeys []"

definition authMiddleware :: "gostring list \<Rightarrow> ('p, 'l, 't) handler \<Rightarrow> ('p, 'l, 't) handler" where
  "authMiddleware apiKeys rest rq c s =
     (let keySet = key_set apiKeys in
      if length keySet = 0 then rest rq c s
      else if \<not> set_has keySet (GetHeader rq ''X-API-Key'')
      then Some (None, gin_AbortWithStatusJSON 401
             (plain_reply 10008 ''unauthorized: invalid or missing X-API-Key header'') c, s)
      else rest rq c s)"

section \<open>One bucket per client\<close>

text \<open>
  The steps that any number of requests take on the limiter, interleaved: a \<open>Load\<close>, a \<open>LoadOrStore\<close>,
  which a request makes after a \<open>Load\<close> that found nothing, and an \<open>Allow\<close> on an address it got.
  The run collects which address was handed out for which key.
\<close>

datatype limiter_step = LoadStep gostring instant | StoreStep gostring instant | AllowStep nat instant

fun limiter_run ::
  "'l rate_library \<Rightarrow> limiter_step list \<Rightarrow> 'l perClientLimiter \<Rightarrow> (gostring \<times> nat) list \<times> 'l perClientLimiter" where
  "limiter_run rl [] l = ([], l)"
| "limiter_run rl (LoadStep k t # xs) l =
     (let (a, l1) = getLimiter_load k t l; (out, l2) = limiter_run rl xs l1
      in (case a of None \<Rightarrow> out | Some a \<Rightarrow> (k, a) # out, l2))"
| "limiter_run rl (StoreStep k t # xs) l =
     (let (a, l1) = getLimiter_store rl k t l; (out, l2) = limiter_run rl xs l1 in ((k, a) # out, l2))"
| "limiter_run rl (AllowStep a t # xs) l = limiter_run rl xs (snd (limiter_Allow rl a t l))"

definition bucket_of :: "'l perClientLimiter \<Rightarrow> gostring \<Rightarrow> nat option" where
  "bucket_of l k = map_option ce_limiter (map_of (pl_limiters l) k)"

definition buckets_ok :: "'l perClientLimiter \<Rightarrow> bool" where
  "buckets_ok l \<longleftrightarrow> (\<forall>k a. bucket_of l k = Some a \<longrightarrow> a < length (pl_heap l)) \<and>
     (\<forall>k k' a. bucket_of l k = Some a \<and> bucket_of l k' = Some a \<longrightarrow> k = k')"

lemma bucket_of_put:
  "bucket_of (l\<lparr>pl_limiters := map_put k e (pl_limiters l)\<rparr>) k' = (if k' = k then Some (ce_limiter e) else bucket_of l k')"
  by (simp add: bucket_of_def)

lemma load_step:
  assumes "getLimiter_load k t l = (a, l')"
  shows "a = bucket_of l k" "bucket_of l' = bucket_of l" "pl_heap l' = pl_heap l"
  using assms
  by (auto simp: getLimiter_load_def bucket_of_put fun_eq_iff split: option.splits)
    (auto simp: bucket_of_def)

lemma store_step:
  assumes "getLimiter_store rl k t l = (a, l')"
  shows "a = (case bucket_of l k of Some b \<Rightarrow> b | None \<Rightarrow> length (pl_heap l))"
    "bucket_of l' = (bucket_of l)(k \<mapsto> a)" "length (pl_heap l') = Suc (length (pl_heap l))"
  using assms
  by (auto simp: getLimiter_store_def Let_def bucket_of_def fun_eq_iff split: option.splits)

lemma store_buckets_ok:
  assumes "getLimiter_store rl k t l = (a, l')" "buckets_ok l"
  shows "buckets_ok l'"
proof -
  note s = store_step [OF assms(1)]
  have less: "a' < length (pl_heap l)" if "bucket_of l k' = Some a'" for k' a'
    using that assms(2) by (auto simp: buckets_ok_def)
  have "bucket_of l k = Some a \<or> a = length (pl_heap l)" using s(1) by (simp split: option.splits)
  then show ?thesis
    using less assms(2) by (fastforce simp: buckets_ok_def s(2,3) split: if_splits)
qed

lemma limiter_run_ok:
  assumes "limiter_run rl xs l = (out, l')" "buckets_ok l"
  shows "buckets_ok l' \<and> (\<forall>k a. bucket_of l k = Some a \<longrightarrow> bucket_of l' k = Some a) \<and>
    (\<forall>(k, a) \<in> set out. bucket_of l' k = Some a)"
  using assms
proof (induction rl xs l arbitrary: out l' rule: limiter_run.induct)
  case (1 rl l)
  then show ?case by simp
next
  case (2 rl k t xs l)
  obtain a l1 where a: "getLimiter_load k t l = (a, l1)" by force
  obtain out1 where r: "limiter_run rl xs l1 = (out1, l')" "out = (case a of None \<Rightarrow> out1 | Some a \<Rightarrow> (k, a) # out1)"
    using 2(2) a by (auto split: prod.splits)
  have ok: "buckets_ok l1" using 2(3) load_step [OF a] by (simp add: buckets_ok_def)
  from 2(1) [OF refl a [symmetric] r(1) ok] load_step [OF a] r(2) show ?case
    by (auto split: option.splits)
next
  case (3 rl k t xs l)
  obtain a l1 where a: "getLimiter_store rl k t l = (a, l1)" by force
  obtain out1 where r: "limiter_run rl xs l1 = (out1, l')" "out = (k, a) # out1"
    using 3(2) a by (auto split: prod.splits)
  note s = store_step [OF a]
  have keep: "bucket_of l k' = Some b \<longrightarrow> bucket_of l1 k' = Some b" for k' b using s(1,2) by auto
  from 3(1) [OF refl a [symmetric] r(1) store_buckets_ok [OF a 3(3)]] s(2) r(2) keep show ?case by auto
next
  case (4 rl a t xs l)
  have same: "bucket_of (snd (limiter_Allow rl a t l)) = bucket_of l"
    "length (pl_heap (snd (limiter_Allow rl a t l))) = length (pl_heap l)"
    by (simp_all add: limiter_Allow_def bucket_of_def fun_eq_iff split: prod.splits)
  then have "buckets_ok (snd (limiter_Allow rl a t l))" using 4(3) by (simp add: buckets_ok_def)
  with 4 same show ?case by simp
qed

text \<open>
  Claim C34. Every client has one bucket: however the steps of concurrent requests interleave between
  two cleanups, two requests get the same bucket exactly if they have the same key, and the bucket
  exists; no two clients ever share one.
\<close>

theorem one_bucket_per_client:
  assumes "limiter_run rl xs (newPerClientLimiter rps burst) = (out, l)"
    and "(k, a) \<in> set out" and "(k', a') \<in> set out"
  shows "(a = a' \<longleftrightarrow> k = k') \<and> a < length (pl_heap l)"
proof -
  have "buckets_ok (newPerClientLimiter rps burst :: 'a perClientLimiter)"
    by (simp add: buckets_ok_def bucket_of_def newPerClientLimiter_def)
  note r = limiter_run_ok [OF assms(1) this]
  have "bucket_of l k = Some a" "bucket_of l k' = Some a'" using r assms(2,3) by auto
  with r show ?thesis unfolding buckets_ok_def by (metis option.inject)
qed

text \<open>A bucket of tokens that are never refilled, for examples.\<close>

definition counting_bucket :: "int rate_library" where
  "counting_bucket = \<lparr>rt_new = (\<lambda>r b. b), rt_allow = (\<lambda>t n. if n \<ge> 1 then (True, n - 1) else (False, n))\<rparr>"

theorem one_bucket_per_client_witness:
  "\<exists>out l. limiter_run counting_bucket
      [LoadStep ''a'' 1, LoadStep ''a'' 2, StoreStep ''a'' 3, StoreStep ''a'' 4, StoreStep ''b'' 5]
      (newPerClientLimiter 10 20) = (out, l) \<and> out = [(''a'', 0), (''a'', 0), (''b'', 2)] \<and> 0 < length (pl_heap l)"
proof -
  let ?r = "limiter_run counting_bucket
      [LoadStep ''a'' 1, LoadStep ''a'' 2, StoreStep ''a'' 3, StoreStep ''a'' 4, StoreStep ''b'' 5]
      (newPerClientLimiter 10 20)"
  have f: "fst ?r = [(''a'', 0), (''a'', 0), (''b'', 2)]" by code_simp
  then have r: "?r = ([(''a'', 0), (''a'', 0), (''b'', 2)], snd ?r)" by (metis prod.collapse)
  have "0 < length (pl_heap (snd ?r))"
    using one_bucket_per_client [OF r, of "''a''" 0 "''a''" 0] by simp
  with r show ?thesis by blast
qed

section \<open>Guessing keys\<close>

fun serve_all ::
  "('p, 'l, 't) handler \<Rightarrow> http_request list \<Rightarrow> ('l, 't) server \<Rightarrow> ('p gin list \<times> ('l, 't) server) option" where
  "serve_all h [] s = Some ([], s)"
| "serve_all h (rq # rqs) s =
     (case h rq new_gin s of
        None \<Rightarrow> None
      | Some (_, c, s') \<Rightarrow> map_option (\<lambda>(cs, s''). (c # cs, s'')) (serve_all h rqs s'))"

lemma set_has_key_set [simp]: "set_has (key_set ks) k \<longleftrightarrow> k \<in> set ks"
proof -
  have "set_has (fold (\<lambda>k m. map_put k True m) ks m) k \<longleftrightarrow> k \<in> set ks \<or> set_has m k" for m
    by (induction ks arbitrary: m) (auto simp: set_has_def)
  then show ?thesis by (simp add: key_set_def set_has_def)
qed

lemma key_set_empty [simp]: "key_set ks = [] \<longleftrightarrow> ks = []"
proof
  assume e: "key_set ks = []"
  have "\<not> set_has (key_set ks) k" for k by (simp add: e set_has_def)
  then show "ks = []" by (cases ks) auto
qed (simp add: key_set_def)

lemma new_key_admitted:
  assumes "GetHeader rq ''X-API-Key'' \<noteq> []" "bucket_of (sv_limiter s) (GetHeader rq ''X-API-Key'') = None"
    and "\<forall>t. fst (rt_allow rl t (rt_new rl (pl_rps (sv_limiter s)) (pl_burst (sv_limiter s))))"
  obtains s' where "rateLimitMiddleware rl rest rq c s = rest rq c s'" "sv_app s' = sv_app s"
    "bucket_of (sv_limiter s') = (bucket_of (sv_limiter s))(GetHeader rq ''X-API-Key'' \<mapsto> length (pl_heap (sv_limiter s)))"
    "pl_rps (sv_limiter s') = pl_rps (sv_limiter s)" "pl_burst (sv_limiter s') = pl_burst (sv_limiter s)"
proof -
  let ?k = "GetHeader rq ''X-API-Key''" and ?l = "sv_limiter s"
  have m: "map_of (pl_limiters ?l) ?k = None" using assms(2) by (simp add: bucket_of_def)
  obtain a l1 where a: "getLimiter rl ?k (rq_Now rq) ?l = (a, l1)" by force
  have st: "getLimiter_store rl ?k (rq_Now rq) ?l = (a, l1)"
    using a m by (simp add: getLimiter_def getLimiter_load_def)
  have al: "a = length (pl_heap ?l)" using store_step(1) [OF st] assms(2) by simp
  have h: "pl_heap l1 = pl_heap ?l @ [rt_new rl (pl_rps ?l) (pl_burst ?l)]" "pl_rps l1 = pl_rps ?l"
    "pl_burst l1 = pl_burst ?l"
    using st by (auto simp: getLimiter_store_def Let_def)
  obtain ok l2 where l2: "limiter_Allow rl a (rq_Now rq) l1 = (ok, l2)" by force
  have "ok"
    using l2 assms(3) [rule_format, of "rq_Now rq"] al h(1)
    by (auto simp: limiter_Allow_def nth_append split: prod.splits)
  moreover have "bucket_of l2 = bucket_of l1" "pl_rps l2 = pl_rps l1" "pl_burst l2 = pl_burst l1"
    using l2 by (auto simp: limiter_Allow_def bucket_of_def fun_eq_iff split: prod.splits)
  ultimately show ?thesis
    using assms(1) a l2 al store_step(2) [OF st] h(2,3)
    by (intro that [of "s\<lparr>sv_limiter := l2\<rparr>"]) (simp_all add: rateLimitMiddleware_def)
qed

text \<open>
  Guessing keys is not limited: since the limit is counted per value of the header and
  checked before the key is, any number of requests with as many different wrong keys are all
  answered by the check of the key, with 401, and none with 429, as long as a new bucket admits
  its first request.
\<close>

theorem guessing_keys_is_not_limited:
  assumes "\<forall>rq \<in> set rqs. GetHeader rq ''X-API-Key'' \<notin> set (apiKeys @ [[]]) \<and>
      bucket_of (sv_limiter s) (GetHeader rq ''X-API-Key'') = None"
    and "distinct (map (\<lambda>rq. GetHeader rq ''X-API-Key'') rqs)" and "apiKeys \<noteq> []"
    and "\<forall>t. fst (rt_allow rl t (rt_new rl (pl_rps (sv_limiter s)) (pl_burst (sv_limiter s))))"
  shows "\<exists>cs s'. serve_all (rateLimitMiddleware rl (authMiddleware apiKeys rest)) rqs s = Some (cs, s') \<and>
    length cs = length rqs \<and> (\<forall>c \<in> set cs. gn_status c = 401 \<and> gn_aborted c) \<and> sv_app s' = sv_app s"
  using assms
proof (induction rqs arbitrary: s)
  case Nil
  then show ?case by simp
next
  case (Cons rq rqs)
  let ?k = "GetHeader rq ''X-API-Key''" and ?h = "rateLimitMiddleware rl (authMiddleware apiKeys rest)"
  have k: "?k \<noteq> []" "bucket_of (sv_limiter s) ?k = None" "?k \<notin> set apiKeys" using Cons.prems(1) by auto
  obtain s1 where s1: "?h rq new_gin s = authMiddleware apiKeys rest rq new_gin s1" "sv_app s1 = sv_app s"
    "bucket_of (sv_limiter s1) = (bucket_of (sv_limiter s))(?k \<mapsto> length (pl_heap (sv_limiter s)))"
    "pl_rps (sv_limiter s1) = pl_rps (sv_limiter s)" "pl_burst (sv_limiter s1) = pl_burst (sv_limiter s)"
    by (rule new_key_admitted [OF k(1,2) Cons.prems(4), where rest = "authMiddleware apiKeys rest" and c = new_gin])
  define c where "c = gin_AbortWithStatusJSON 401
      (plain_reply 10008 ''unauthorized: invalid or missing X-API-Key header'') (new_gin :: 'c gin)"
  have c: "?h rq new_gin s = Some (None, c, s1)"
    unfolding s1(1) using k(3) Cons.prems(3) by (simp add: authMiddleware_def c_def)
  have c': "gn_status c = 401" "gn_aborted c"
    by (simp_all add: c_def gin_AbortWithStatusJSON_def gin_JSON_def new_gin_def)
  have "\<forall>rq' \<in> set rqs. GetHeader rq' ''X-API-Key'' \<notin> set (apiKeys @ [[]]) \<and>
      bucket_of (sv_limiter s1) (GetHeader rq' ''X-API-Key'') = None"
    using Cons.prems(1,2) s1(3) by (auto simp: image_iff)
  from Cons.IH [OF this _ Cons.prems(3)] Cons.prems(2,4) s1(2,4,5) c c' show ?case by fastforce
qed

definition sample_request :: "gostring \<Rightarrow> http_request" where
  "sample_request key =
     \<lparr>rq_Method = ''POST'', rq_Headers = [(''X-API-Key'', key)], rq_ClientIP = ''10.0.0.1'', rq_Param = [],
      rq_Query = [], rq_Body = None, rq_Rand = None, rq_Now = 0, rq_Span = None\<rparr>"

lemma sample_request_key [simp]: "GetHeader (sample_request k) ''X-API-Key'' = k"
  by (simp add: GetHeader_def sample_request_def get_string_def)

theorem guessing_keys_is_not_limited_witness:
  "\<exists>cs s'. serve_all (rateLimitMiddleware counting_bucket (authMiddleware [''secret''] (\<lambda>rq c s. None)))
      [sample_request ''a'', sample_request ''b'', sample_request ''c'']
      (\<lparr>sv_limiter = newPerClientLimiter 1 1, sv_app = 7\<rparr> :: (int, int) server) = Some (cs, s') \<and>
    length cs = 3 \<and> (\<forall>c \<in> set cs. gn_status c = 401)"
  using guessing_keys_is_not_limited [of "[sample_request ''a'', sample_request ''b'', sample_request ''c'']"
      "[''secret'']" "\<lparr>sv_limiter = newPerClientLimiter 1 1, sv_app = 7\<rparr> :: (int, int) server"
      counting_bucket "\<lambda>rq c s. None"]
  by (auto simp: bucket_of_def newPerClientLimiter_def counting_bucket_def)

end
