(* ===== verification/WordRepo.thy ===== *)
theory WordRepo
  imports Domain "HOL-Library.Multiset"
begin

text \<open>
  \<open>internal/infrastructure/persistence/mysql\<close>: the model of a row and the repository. GORM and
  MySQL are a parameter, a record of the calls the repository makes, each a function of the
  database \<open>'d\<close>; \<open>gorm_ok\<close> states what is relied on of them, over the rows of the table.
\<close>

section \<open>The row\<close>

record SensitiveWordModel =
  md_ID :: "64 word"
  md_Text :: gostring
  md_Category :: gostring
  md_Level :: int
  md_Status :: int
  md_Tag :: gostring
  md_CreatedAt :: instant
  md_UpdatedAt :: instant

definition ToEntity :: "SensitiveWordModel \<Rightarrow> SensitiveWord" where
  "ToEntity m =
     \<lparr>sw_ID = md_ID m, sw_Text = md_Text m, sw_Category = md_Category m, sw_Level = md_Level m,
      sw_Status = md_Status m, sw_Tag = md_Tag m, sw_CreatedAt = md_CreatedAt m,
      sw_UpdatedAt = md_UpdatedAt m\<rparr>"

definition FromEntity :: "SensitiveWord \<Rightarrow> SensitiveWordModel" where
  "FromEntity e =
     \<lparr>md_ID = sw_ID e, md_Text = sw_Text e, md_Category = sw_Category e, md_Level = sw_Level e,
      md_Status = sw_Status e, md_Tag = sw_Tag e, md_CreatedAt = sw_CreatedAt e,
      md_UpdatedAt = sw_UpdatedAt e\<rparr>"

lemma entity_roundtrip [simp]: "ToEntity (FromEntity e) = e" "FromEntity (ToEntity m) = m"
  by (simp_all add: ToEntity_def FromEntity_def)

section \<open>The database calls\<close>

text \<open>The conditions of the queries, as given to \<open>Where\<close>.\<close>

datatype cond = CategoryIs gostring | LevelIs int | StatusIs int | TextLike gostring

record 'd gorm =
  g_create :: "SensitiveWordModel \<Rightarrow> 'd \<Rightarrow> SensitiveWordModel result \<times> 'd"
  g_save :: "SensitiveWordModel \<Rightarrow> 'd \<Rightarrow> error option \<times> 'd"
  g_delete :: "64 word \<Rightarrow> 'd \<Rightarrow> error option \<times> 'd"
  g_first_id :: "64 word \<Rightarrow> 'd \<Rightarrow> SensitiveWordModel result"
  g_first_text :: "gostring \<Rightarrow> 'd \<Rightarrow> SensitiveWordModel result"
  g_count :: "cond list \<Rightarrow> 'd \<Rightarrow> int result"
  g_page :: "cond list \<Rightarrow> int \<Rightarrow> int \<Rightarrow> 'd \<Rightarrow> SensitiveWordModel list result"
  g_find :: "cond list \<Rightarrow> 'd \<Rightarrow> SensitiveWordModel list result"
  g_batches :: "cond list \<Rightarrow> int \<Rightarrow> 'd \<Rightarrow> SensitiveWordModel list list \<times> error option"
  g_fingerprint :: "cond list \<Rightarrow> 'd \<Rightarrow> (int \<times> 64 word option \<times> int option) result"
  g_create_batches :: "SensitiveWordModel list \<Rightarrow> int \<Rightarrow> 'd \<Rightarrow> int result \<times> 'd"

section \<open>The repository\<close>

definition Repo_Create :: "'d gorm \<Rightarrow> SensitiveWord \<Rightarrow> 'd \<Rightarrow> SensitiveWord result \<times> 'd" where
  "Repo_Create g wd d =
     (let model = FromEntity wd in
      case g_create g model d of
        (Inl err, d') \<Rightarrow> (Inl err, d')
      | (Inr model', d') \<Rightarrow>
          (Inr (wd\<lparr>sw_ID := md_ID model', sw_CreatedAt := md_CreatedAt model',
                  sw_UpdatedAt := md_UpdatedAt model'\<rparr>), d'))"

definition Repo_Update :: "'d gorm \<Rightarrow> SensitiveWord \<Rightarrow> 'd \<Rightarrow> error option \<times> 'd" where
  "Repo_Update g wd d = g_save g (FromEntity wd) d"

definition Repo_Delete :: "'d gorm \<Rightarrow> 64 word \<Rightarrow> 'd \<Rightarrow> error option \<times> 'd" where
  "Repo_Delete g i d = g_delete g i d"

definition FindByID :: "'d gorm \<Rightarrow> 64 word \<Rightarrow> 'd \<Rightarrow> SensitiveWord result" where
  "FindByID g i d = (case g_first_id g i d of Inl err \<Rightarrow> Inl err | Inr m \<Rightarrow> Inr (ToEntity m))"

definition FindByText :: "'d gorm \<Rightarrow> gostring \<Rightarrow> 'd \<Rightarrow> SensitiveWord result" where
  "FindByText g t d = (case g_first_text g t d of Inl err \<Rightarrow> Inl err | Inr m \<Rightarrow> Inr (ToEntity m))"

definition query_conds :: "WordQuery \<Rightarrow> cond list" where
  "query_conds q =
     (case wq_Category q of Some c \<Rightarrow> [CategoryIs c] | None \<Rightarrow> []) @
     (case wq_Level q of Some l \<Rightarrow> [LevelIs l] | None \<Rightarrow> []) @
     (case wq_Status q of Some s \<Rightarrow> [StatusIs s] | None \<Rightarrow> []) @
     (if wq_Keyword q \<noteq> [] then [TextLike (''%'' @ wq_Keyword q @ ''%'')] else [])"

definition clamp_page :: "int \<Rightarrow> int" where
  "clamp_page p = (if p < 1 then 1 else p)"

definition clamp_size :: "int \<Rightarrow> int" where
  "clamp_size n = (let s = (if n < 1 then 20 else n) in if s > 100 then 100 else s)"

definition Repo_List :: "'d gorm \<Rightarrow> WordQuery \<Rightarrow> 'd \<Rightarrow> (SensitiveWord list \<times> int) result" where
  "Repo_List g q d =
     (let conds = query_conds q in
      case g_count g conds d of
        Inl err \<Rightarrow> Inl err
      | Inr cnt \<Rightarrow>
          (let page = clamp_page (wq_Page q);
               pageSize = clamp_size (wq_PageSize q);
               offset = (page - 1) * pageSize
           in case g_page g conds offset pageSize d of
                Inl err \<Rightarrow> Inl err
              | Inr models \<Rightarrow> Inr (map ToEntity models, cnt)))"

definition FindAllActive :: "'d gorm \<Rightarrow> 'd \<Rightarrow> SensitiveWord list result" where
  "FindAllActive g d =
     (case g_find g [StatusIs 1] d of Inl err \<Rightarrow> Inl err | Inr models \<Rightarrow> Inr (map ToEntity models))"

text \<open>
  The callback \<open>fn\<close> works on a state \<open>'s\<close>; its error ends the iteration and is returned, as is an
  error of a query.
\<close>

fun run_batches ::
  "(SensitiveWord list \<Rightarrow> 's \<Rightarrow> error option \<times> 's) \<Rightarrow> SensitiveWordModel list list \<Rightarrow> error option \<Rightarrow> 's \<Rightarrow>
   error option \<times> 's" where
  "run_batches fn [] final s = (final, s)"
| "run_batches fn (b # bs) final s =
     (case fn (map ToEntity b) s of
        (Some err, s') \<Rightarrow> (Some err, s') | (None, s') \<Rightarrow> run_batches fn bs final s')"

definition FindInBatches ::
  "'d gorm \<Rightarrow> Category option \<Rightarrow> int \<Rightarrow> (SensitiveWord list \<Rightarrow> 's \<Rightarrow> error option \<times> 's) \<Rightarrow> 'd \<Rightarrow> 's \<Rightarrow>
   error option \<times> 's" where
  "FindInBatches g category batchSize fn d s =
     (let conds = (case category of Some c \<Rightarrow> [CategoryIs c] | None \<Rightarrow> [StatusIs 1]);
          (batches, final) = g_batches g conds batchSize d
      in run_batches fn batches final s)"

definition ActiveFingerprint :: "'d gorm \<Rightarrow> 'd \<Rightarrow> WordFingerprint result" where
  "ActiveFingerprint g d =
     (case g_fingerprint g [StatusIs 1] d of
        Inl err \<Rightarrow> Inl err
      | Inr (cnt, max_id, max_upd) \<Rightarrow>
          Inr \<lparr>fp_Count = cnt,
               fp_MaxID = (case max_id of Some i \<Rightarrow> i | None \<Rightarrow> 0),
               fp_MaxUpdatedUnixMicro = (case max_upd of Some t \<Rightarrow> t | None \<Rightarrow> 0)\<rparr>)"

definition BatchCreate :: "'d gorm \<Rightarrow> SensitiveWord list \<Rightarrow> 'd \<Rightarrow> int result \<times> 'd" where
  "BatchCreate g wds d =
     (if length wds = 0 then (Inr 0, d)
      else g_create_batches g (map FromEntity wds) 500 d)"

section \<open>What is relied on of the database\<close>

definition cond_holds :: "(gostring \<Rightarrow> gostring \<Rightarrow> bool) \<Rightarrow> SensitiveWordModel \<Rightarrow> cond \<Rightarrow> bool" where
  "cond_holds like m c =
     (case c of CategoryIs x \<Rightarrow> md_Category m = x | LevelIs n \<Rightarrow> md_Level m = n
      | StatusIs n \<Rightarrow> md_Status m = n | TextLike p \<Rightarrow> like (md_Text m) p)"

definition selected ::
  "(gostring \<Rightarrow> gostring \<Rightarrow> bool) \<Rightarrow> cond list \<Rightarrow> SensitiveWordModel list \<Rightarrow> SensitiveWordModel list" where
  "selected like conds rows = filter (\<lambda>m. \<forall>c \<in> set conds. cond_holds like m c) rows"

text \<open>\<open>ORDER BY id DESC\<close>.\<close>

definition newest_first :: "SensitiveWordModel list \<Rightarrow> SensitiveWordModel list" where
  "newest_first rows = rev (sort_key md_ID rows)"

text \<open>
  A row as inserted: as given, but for the columns with \<open>default:1\<close>, where GORM leaves a zero to
  the database, the key and the times.
\<close>

definition with_defaults :: "SensitiveWordModel \<Rightarrow> SensitiveWordModel" where
  "with_defaults m =
     m\<lparr>md_Level := (if md_Level m = 0 then 1 else md_Level m),
       md_Status := (if md_Status m = 0 then 1 else md_Status m)\<rparr>"

definition filled :: "SensitiveWordModel \<Rightarrow> SensitiveWordModel \<Rightarrow> bool" where
  "filled m m' \<longleftrightarrow>
     (\<exists>i t1 t2. m' = (with_defaults m)\<lparr>md_ID := i, md_CreatedAt := t1, md_UpdatedAt := t2\<rparr>)"

definition row_ids :: "SensitiveWordModel list \<Rightarrow> 64 word set" where
  "row_ids rows = md_ID ` set rows"

text \<open>\<open>Save\<close> updates the row with the key, and inserts it where there is none.\<close>

definition saved :: "SensitiveWordModel \<Rightarrow> SensitiveWordModel list \<Rightarrow> SensitiveWordModel list" where
  "saved m rows =
     (if md_ID m \<in> row_ids rows then map (\<lambda>r. if md_ID r = md_ID m then m else r) rows
      else rows @ [with_defaults m])"

definition write_ok :: "'d gorm \<Rightarrow> ('d \<Rightarrow> SensitiveWordModel list) \<Rightarrow> bool" where
  "write_ok g rows \<longleftrightarrow>
     (\<forall>m d e d'. g_create g m d = (Inl e, d') \<longrightarrow> rows d' = rows d) \<and>
     (\<forall>m d m' d'. g_create g m d = (Inr m', d') \<longrightarrow>
        filled m m' \<and> md_ID m' \<notin> row_ids (rows d) \<and> rows d' = rows d @ [m']) \<and>
     (\<forall>m d e d'. g_save g m d = (Some e, d') \<longrightarrow> rows d' = rows d) \<and>
     (\<forall>m d d'. g_save g m d = (None, d') \<longrightarrow>
        (\<exists>t. rows d' = saved (m\<lparr>md_UpdatedAt := t\<rparr>) (rows d))) \<and>
     (\<forall>i d e d'. g_delete g i d = (Some e, d') \<longrightarrow> rows d' = rows d) \<and>
     (\<forall>i d d'. g_delete g i d = (None, d') \<longrightarrow> rows d' = filter (\<lambda>m. md_ID m \<noteq> i) (rows d)) \<and>
     (\<forall>ms n d e d'. g_create_batches g ms n d = (Inl e, d') \<longrightarrow> rows d' = rows d) \<and>
     (\<forall>ms n d k d'. g_create_batches g ms n d = (Inr k, d') \<longrightarrow>
        (\<exists>new. rows d' = rows d @ new \<and> k = int (length new) \<and> length new \<le> length ms \<and>
           (\<forall>m' \<in> set new. md_ID m' \<notin> row_ids (rows d) \<and> (\<exists>m \<in> set ms. filled m m')) \<and>
           distinct (map md_ID new)))"

lemma write_okD:
  assumes "write_ok g rows"
  shows "g_create g m d = (Inl e, d') \<Longrightarrow> rows d' = rows d"
    "g_create g m d = (Inr m', d') \<Longrightarrow>
       filled m m' \<and> md_ID m' \<notin> row_ids (rows d) \<and> rows d' = rows d @ [m']"
    "g_save g m d = (Some e, d') \<Longrightarrow> rows d' = rows d"
    "g_save g m d = (None, d') \<Longrightarrow> \<exists>t. rows d' = saved (m\<lparr>md_UpdatedAt := t\<rparr>) (rows d)"
    "g_delete g i d = (Some e, d') \<Longrightarrow> rows d' = rows d"
    "g_delete g i d = (None, d') \<Longrightarrow> rows d' = filter (\<lambda>m. md_ID m \<noteq> i) (rows d)"
    "g_create_batches g ms n d = (Inl e, d') \<Longrightarrow> rows d' = rows d"
    "g_create_batches g ms n d = (Inr k, d') \<Longrightarrow>
       \<exists>new. rows d' = rows d @ new \<and> k = int (length new) \<and> length new \<le> length ms \<and>
         (\<forall>m' \<in> set new. md_ID m' \<notin> row_ids (rows d) \<and> (\<exists>m \<in> set ms. filled m m')) \<and>
         distinct (map md_ID new)"
  using assms unfolding write_ok_def by simp_all

definition read_ok ::
  "'d gorm \<Rightarrow> (gostring \<Rightarrow> gostring \<Rightarrow> bool) \<Rightarrow> ('d \<Rightarrow> SensitiveWordModel list) \<Rightarrow> bool" where
  "read_ok g like rows \<longleftrightarrow>
     (\<forall>i d m. g_first_id g i d = Inr m \<longrightarrow> m \<in> set (rows d) \<and> md_ID m = i) \<and>
     (\<forall>i d. g_first_id g i d = Inl RecordNotFound \<longrightarrow> i \<notin> row_ids (rows d)) \<and>
     (\<forall>t d m. g_first_text g t d = Inr m \<longrightarrow> m \<in> set (rows d)) \<and>
     (\<forall>cs d n. g_count g cs d = Inr n \<longrightarrow> n = int (length (selected like cs (rows d)))) \<and>
     (\<forall>cs off lim d ms. g_page g cs off lim d = Inr ms \<longrightarrow>
        ms = take (nat lim) (drop (nat off) (newest_first (selected like cs (rows d))))) \<and>
     (\<forall>cs d ms. g_find g cs d = Inr ms \<longrightarrow> mset ms = mset (selected like cs (rows d))) \<and>
     (\<forall>cs n d bs. g_batches g cs n d = (bs, None) \<longrightarrow>
        concat bs = sort_key md_ID (selected like cs (rows d)))"

definition active_rows :: "SensitiveWordModel list \<Rightarrow> SensitiveWordModel list" where
  "active_rows rows = filter (\<lambda>m. md_Status m = 1) rows"

text \<open>
  The aggregate query of the fingerprint, as MySQL evaluates it on the active rows: the count,
  \<open>MAX(id)\<close>, null where there is no row, and the microseconds of \<open>MAX(updated_at)\<close> or 0.
\<close>

definition fingerprint_row :: "SensitiveWordModel list \<Rightarrow> int \<times> 64 word option \<times> int option" where
  "fingerprint_row active =
     (int (length active),
      if active = [] then None else Some (Max (md_ID ` set active)),
      Some (if active = [] then 0 else Max (md_UpdatedAt ` set active) div 1000))"

definition fingerprint_ok :: "'d gorm \<Rightarrow> ('d \<Rightarrow> SensitiveWordModel list) \<Rightarrow> bool" where
  "fingerprint_ok g rows \<longleftrightarrow>
     (\<forall>d x. g_fingerprint g [StatusIs 1] d = Inr x \<longrightarrow> x = fingerprint_row (active_rows (rows d)))"

definition fingerprint_of :: "SensitiveWordModel list \<Rightarrow> WordFingerprint" where
  "fingerprint_of active =
     \<lparr>fp_Count = int (length active),
      fp_MaxID = (if active = [] then 0 else Max (md_ID ` set active)),
      fp_MaxUpdatedUnixMicro = (if active = [] then 0 else Max (md_UpdatedAt ` set active) div 1000)\<rparr>"

lemma ActiveFingerprint_ok:
  "fingerprint_ok g rows \<Longrightarrow> ActiveFingerprint g d = Inr fp \<Longrightarrow> fp = fingerprint_of (active_rows (rows d))"
  by (fastforce simp: ActiveFingerprint_def fingerprint_ok_def fingerprint_row_def fingerprint_of_def
      split: sum.splits prod.splits)

section \<open>A table for examples\<close>

lemma selected_active: "selected like [StatusIs 1] rows = active_rows rows"
  by (simp add: selected_def active_rows_def cond_holds_def)

record table =
  tb_rows :: "SensitiveWordModel list"
  tb_next :: "64 word"
  tb_clock :: instant

definition contains :: "gostring \<Rightarrow> gostring \<Rightarrow> bool" where
  "contains s p = (butlast (tl p) \<in> set (map (\<lambda>i. take (length p - 2) (drop i s)) [0 ..< Suc (length s)]))"

definition table_insert :: "SensitiveWordModel \<Rightarrow> table \<Rightarrow> (SensitiveWordModel \<times> table) option" where
  "table_insert m t =
     (if md_Text m \<in> set (map md_Text (tb_rows t)) \<or> tb_next t \<in> set (map md_ID (tb_rows t)) then None
      else (let m' = (with_defaults m)
                  \<lparr>md_ID := tb_next t, md_CreatedAt := tb_clock t, md_UpdatedAt := tb_clock t\<rparr>
            in Some (m', t\<lparr>tb_rows := tb_rows t @ [m'], tb_next := tb_next t + 1\<rparr>)))"

fun table_insert_all :: "SensitiveWordModel list \<Rightarrow> table \<Rightarrow> int \<times> table" where
  "table_insert_all [] t = (0, t)"
| "table_insert_all (m # ms) t =
     (case table_insert m t of
        None \<Rightarrow> table_insert_all ms t
      | Some (_, t1) \<Rightarrow> (let (k, t2) = table_insert_all ms t1 in (k + 1, t2)))"

definition table_gorm :: "table gorm" where
  "table_gorm =
     \<lparr>g_create = (\<lambda>m t.
        case table_insert m t of
          None \<Rightarrow> (Inl (ExternalError ''Error 1062''), t) | Some (m', t') \<Rightarrow> (Inr m', t')),
      g_save = (\<lambda>m t. (None, t\<lparr>tb_rows := saved (m\<lparr>md_UpdatedAt := tb_clock t\<rparr>) (tb_rows t)\<rparr>)),
      g_delete = (\<lambda>i t. (None, t\<lparr>tb_rows := filter (\<lambda>m. md_ID m \<noteq> i) (tb_rows t)\<rparr>)),
      g_first_id = (\<lambda>i t. case filter (\<lambda>m. md_ID m = i) (tb_rows t) of [] \<Rightarrow> Inl RecordNotFound | m # _ \<Rightarrow> Inr m),
      g_first_text = (\<lambda>x t. case filter (\<lambda>m. md_Text m = x) (tb_rows t) of [] \<Rightarrow> Inl RecordNotFound | m # _ \<Rightarrow> Inr m),
      g_count = (\<lambda>cs t. Inr (int (length (selected contains cs (tb_rows t))))),
      g_page = (\<lambda>cs off lim t. Inr (take (nat lim) (drop (nat off) (newest_first (selected contains cs (tb_rows t)))))),
      g_find = (\<lambda>cs t. Inr (selected contains cs (tb_rows t))),
      g_batches = (\<lambda>cs n t. ([sort_key md_ID (selected contains cs (tb_rows t))], None)),
      g_fingerprint = (\<lambda>cs t. Inr (fingerprint_row (selected contains cs (tb_rows t)))),
      g_create_batches = (\<lambda>ms n t. (let (k, t') = table_insert_all ms t in (Inr k, t')))\<rparr>"

lemma table_insert_ok:
  "table_insert m t = Some (m', t') \<Longrightarrow>
   filled m m' \<and> md_ID m' \<notin> row_ids (tb_rows t) \<and> tb_rows t' = tb_rows t @ [m']"
  by (auto simp: table_insert_def Let_def filled_def row_ids_def split: if_splits)

lemma table_insert_all_ok:
  "table_insert_all ms t = (k, t') \<Longrightarrow>
   \<exists>new. tb_rows t' = tb_rows t @ new \<and> k = int (length new) \<and> length new \<le> length ms \<and>
     (\<forall>m' \<in> set new. md_ID m' \<notin> row_ids (tb_rows t) \<and> (\<exists>m \<in> set ms. filled m m')) \<and>
     distinct (map md_ID new)"
proof (induction ms arbitrary: t k t')
  case Nil
  then show ?case by simp
next
  case (Cons m ms)
  show ?case
  proof (cases "table_insert m t")
    case None
    with Cons.prems have "table_insert_all ms t = (k, t')" by simp
    from Cons.IH [OF this] show ?thesis by fastforce
  next
    case (Some p)
    obtain m1 t1 where i: "table_insert m t = Some (m1, t1)" using Some by (cases p) simp
    obtain k2 where r: "table_insert_all ms t1 = (k2, t')" "k = k2 + 1"
      using Cons.prems i by (auto split: prod.splits)
    note h = table_insert_ok [OF i]
    from Cons.IH [OF r(1)] obtain new where new: "tb_rows t' = tb_rows t1 @ new" "k2 = int (length new)"
      "length new \<le> length ms" "\<forall>m' \<in> set new. md_ID m' \<notin> row_ids (tb_rows t1) \<and> (\<exists>m \<in> set ms. filled m m')"
      "distinct (map md_ID new)" by blast
    have "\<forall>m' \<in> set new. md_ID m' \<noteq> md_ID m1 \<and> md_ID m' \<notin> row_ids (tb_rows t)"
      using new(4) h by (auto simp: row_ids_def)
    with new h r(2) show ?thesis by (intro exI [of _ "m1 # new"]) force
  qed
qed

lemma table_write_ok: "write_ok table_gorm tb_rows"
  unfolding write_ok_def
  by (intro conjI)
    (auto simp: table_gorm_def dest: table_insert_ok table_insert_all_ok split: option.splits prod.splits)

lemma table_read_ok: "read_ok table_gorm contains tb_rows"
proof -
  have first: "m \<in> set rows \<and> P m" if "filter P rows = m # xs" for P m xs and rows :: "SensitiveWordModel list"
  proof -
    have "m \<in> set (filter P rows)" using that by simp
    then show ?thesis by simp
  qed
  show ?thesis
    unfolding read_ok_def
    by (auto simp: table_gorm_def row_ids_def filter_empty_conv split: list.splits
        dest: first)
qed

lemma table_fingerprint_ok: "fingerprint_ok table_gorm tb_rows"
  by (simp add: fingerprint_ok_def table_gorm_def selected_active)

section \<open>Pagination\<close>

lemma clamp_bounds: "1 \<le> clamp_page p" "1 \<le> clamp_size n" "clamp_size n \<le> 100"
  by (auto simp: clamp_page_def clamp_size_def Let_def)

lemma newest_first_mset [simp]: "mset (newest_first rows) = mset rows" "length (newest_first rows) = length rows"
  by (simp_all add: newest_first_def)

lemma concat_pages:
  assumes "0 < s"
  shows "concat (map (\<lambda>p. take s (drop (p * s) xs)) [0 ..< n]) = take (n * s) xs"
proof (induction n)
  case 0
  then show ?case by simp
next
  case (Suc n)
  have "take (Suc n * s) xs = take (n * s) xs @ take s (drop (n * s) xs)"
    by (metis add.commute mult_Suc take_add)
  with Suc show ?case by simp
qed

lemma Repo_List_ok:
  assumes "read_ok g like rows" "Repo_List g q d = Inr (ws, cnt)"
  shows "ws = map ToEntity (take (nat (clamp_size (wq_PageSize q)))
      (drop (nat ((clamp_page (wq_Page q) - 1) * clamp_size (wq_PageSize q)))
        (newest_first (selected like (query_conds q) (rows d)))))"
    "cnt = int (length (selected like (query_conds q) (rows d)))"
  using assms by (auto simp: Repo_List_def read_ok_def Let_def split: sum.splits)

lemma query_conds_page [simp]: "query_conds (q\<lparr>wq_Page := p\<rparr>) = query_conds q"
  by (simp add: query_conds_def)

section \<open>Fingerprints\<close>

lemma active_saved:
  assumes "md_ID m \<in> row_ids rows" "distinct (map md_ID rows)"
  shows "active_rows (saved m rows) = filter (\<lambda>r. md_Status r = 1)
      (map (\<lambda>r. if md_ID r = md_ID m then m else r) rows)"
  using assms by (simp add: active_rows_def saved_def)

lemma rows_misses_earlier_stamp:
  assumes "distinct (map md_ID rows)" and "m \<in> set (active_rows rows)" and "r \<in> set (active_rows rows)"
    and "md_ID r \<noteq> md_ID m" and "md_UpdatedAt m \<le> md_UpdatedAt r" and "t \<le> md_UpdatedAt r"
    and "md_ID m' = md_ID m" and "md_Status m' = 1"
  shows "fingerprint_of (active_rows (saved (m'\<lparr>md_UpdatedAt := t\<rparr>) rows)) =
    fingerprint_of (active_rows rows)"
proof -
  let ?m = "m'\<lparr>md_UpdatedAt := t\<rparr>"
  let ?f = "\<lambda>x. if md_ID x = md_ID m then ?m else x"
  let ?A = "set (active_rows rows)"
  have m: "m \<in> set rows" "md_Status m = 1" and r: "r \<in> set rows" "md_Status r = 1"
    using assms(2,3) by (simp_all add: active_rows_def)
  have same: "x = m" if "x \<in> set rows" "md_ID x = md_ID m" for x
    using assms(1) m(1) that by (metis distinct_map inj_onD)
  have "md_ID ?m \<in> row_ids rows" using m(1) assms(7) by (auto simp: row_ids_def)
  then have "active_rows (saved ?m rows) = filter (\<lambda>r. md_Status r = 1) (map ?f rows)"
    using active_saved [OF _ assms(1), of ?m] assms(7) by simp
  also have "\<dots> = map ?f (active_rows rows)"
  proof -
    have "filter (\<lambda>r. md_Status r = 1) (map ?f xs) = map ?f (filter (\<lambda>r. md_Status r = 1) xs)"
      if "set xs \<subseteq> set rows" for xs
      using that assms(8) m(2) same by (induction xs) auto
    from this [of rows] show ?thesis by (simp add: active_rows_def)
  qed
  finally have e: "active_rows (saved ?m rows) = map ?f (active_rows rows)" .
  have ids: "md_ID ` set (map ?f (active_rows rows)) = md_ID ` ?A"
  proof -
    have "map md_ID (map ?f (active_rows rows)) = map md_ID (active_rows rows)" using assms(7) by simp
    from arg_cong [OF this, of set] show ?thesis by (simp only: set_map)
  qed
  have "Max (md_UpdatedAt ` set (map ?f (active_rows rows))) = Max (md_UpdatedAt ` ?A)"
  proof (rule Max_eq_if)
    show "\<forall>x \<in> md_UpdatedAt ` set (map ?f (active_rows rows)). \<exists>y \<in> md_UpdatedAt ` ?A. x \<le> y"
      using assms(3,6) by (force simp: image_iff)
    show "\<forall>x \<in> md_UpdatedAt ` ?A. \<exists>y \<in> md_UpdatedAt ` set (map ?f (active_rows rows)). x \<le> y"
    proof
      fix x assume "x \<in> md_UpdatedAt ` ?A"
      then obtain v where v: "v \<in> ?A" "x = md_UpdatedAt v" by blast
      have "r \<in> set (map ?f (active_rows rows))" using assms(3,4) by (auto simp: image_iff)
      moreover have "v \<in> set (map ?f (active_rows rows))" if "md_ID v \<noteq> md_ID m"
        using v(1) that by (auto simp: image_iff)
      moreover have "x \<le> md_UpdatedAt r" if "md_ID v = md_ID m"
        using same [of v] v that assms(5) by (auto simp: active_rows_def)
      ultimately show "\<exists>y \<in> md_UpdatedAt ` set (map ?f (active_rows rows)). x \<le> y"
        using v(2) by blast
    qed
  qed simp_all
  then show ?thesis unfolding fingerprint_of_def e ids by simp
qed

lemma rows_sees_latest_writes:
  assumes "distinct (map md_ID rows)" and "m \<in> set (active_rows rows)"
  shows "(md_Status x = 1 \<longrightarrow>
      fingerprint_of (active_rows (rows @ [x])) \<noteq> fingerprint_of (active_rows rows)) \<and>
    fingerprint_of (active_rows (filter (\<lambda>r. md_ID r \<noteq> md_ID m) rows)) \<noteq> fingerprint_of (active_rows rows) \<and>
    (md_ID x = md_ID m \<and> md_Status x \<noteq> 1 \<longrightarrow>
      fingerprint_of (active_rows (saved x rows)) \<noteq> fingerprint_of (active_rows rows)) \<and>
    (md_ID x = md_ID m \<and> md_Status x = 1 \<and>
        (\<forall>r \<in> set (active_rows rows). md_UpdatedAt r + 1000 \<le> md_UpdatedAt x) \<longrightarrow>
      fingerprint_of (active_rows (saved x rows)) \<noteq> fingerprint_of (active_rows rows))"
proof (intro conjI impI)
  have m: "m \<in> set rows" "md_Status m = 1" using assms(2) by (simp_all add: active_rows_def)
  have fewer: "length (active_rows (filter (\<lambda>r. md_ID r \<noteq> md_ID m) rows)) < length (active_rows rows)"
  proof -
    have "active_rows (filter (\<lambda>r. md_ID r \<noteq> md_ID m) rows) = filter (\<lambda>r. md_ID r \<noteq> md_ID m) (active_rows rows)"
      by (simp add: active_rows_def conj_commute)
    then show ?thesis using length_filter_less [OF assms(2), of "\<lambda>r. md_ID r \<noteq> md_ID m"] by simp
  qed
  show "fingerprint_of (active_rows (rows @ [x])) \<noteq> fingerprint_of (active_rows rows)" if "md_Status x = 1"
    using that by (simp add: fingerprint_of_def active_rows_def)
  show "fingerprint_of (active_rows (filter (\<lambda>r. md_ID r \<noteq> md_ID m) rows)) \<noteq> fingerprint_of (active_rows rows)"
    using fewer by (auto simp: fingerprint_of_def)
  show "fingerprint_of (active_rows (saved x rows)) \<noteq> fingerprint_of (active_rows rows)"
    if x: "md_ID x = md_ID m \<and> md_Status x \<noteq> 1"
  proof -
    have "md_ID x \<in> row_ids rows" using m(1) x by (auto simp: row_ids_def)
    then have "active_rows (saved x rows) = filter (\<lambda>r. md_Status r = 1) (map (\<lambda>r. if md_ID r = md_ID m then x else r) rows)"
      using active_saved [OF _ assms(1), of x] x by simp
    also have "\<dots> = active_rows (filter (\<lambda>r. md_ID r \<noteq> md_ID m) rows)"
      using x unfolding active_rows_def by (induction rows) auto
    finally show ?thesis using fewer by (auto simp: fingerprint_of_def)
  qed
  show "fingerprint_of (active_rows (saved x rows)) \<noteq> fingerprint_of (active_rows rows)"
    if x: "md_ID x = md_ID m \<and> md_Status x = 1 \<and>
      (\<forall>r \<in> set (active_rows rows). md_UpdatedAt r + 1000 \<le> md_UpdatedAt x)"
  proof -
    have ne: "active_rows rows \<noteq> []" using assms(2) by auto
    have "x \<in> set (saved x rows)" using m(1) x by (auto simp: saved_def row_ids_def image_iff)
    then have xa: "x \<in> set (active_rows (saved x rows))" using x by (simp add: active_rows_def)
    have "Max (md_UpdatedAt ` set (active_rows rows)) \<in> md_UpdatedAt ` set (active_rows rows)"
      using ne by (intro Max_in) auto
    then have "Max (md_UpdatedAt ` set (active_rows rows)) + 1000 \<le> md_UpdatedAt x" using x by auto
    also have "\<dots> \<le> Max (md_UpdatedAt ` set (active_rows (saved x rows)))" using xa by simp
    finally have "Max (md_UpdatedAt ` set (active_rows rows)) div 1000 <
        Max (md_UpdatedAt ` set (active_rows (saved x rows))) div 1000" by linarith
    moreover have "active_rows (saved x rows) \<noteq> []" using xa by auto
    ultimately show ?thesis using ne by (auto simp: fingerprint_of_def)
  qed
qed

section \<open>Properties\<close>


definition sample_row :: "64 word \<Rightarrow> gostring \<Rightarrow> instant \<Rightarrow> SensitiveWordModel" where
  "sample_row i t upd =
     \<lparr>md_ID = i, md_Text = t, md_Category = CategoryAd, md_Level = 1, md_Status = 1, md_Tag = [],
      md_CreatedAt = 0, md_UpdatedAt = upd\<rparr>"

definition all_words :: WordQuery where
  "all_words = \<lparr>wq_Category = None, wq_Level = None, wq_Status = None, wq_Keyword = [], wq_Page = 1,
     wq_PageSize = 2\<rparr>"


text \<open>
  The fingerprint does not see an update whose time stamp is not the latest: after
  \<open>Update\<close> of an active row, text, category and level included, \<open>ActiveFingerprint\<close> answers as
  before when some other active row carries a stamp at least as late as the row's old and new
  one, as it does when the updating instance's clock is behind.
\<close>

theorem fingerprint_misses_earlier_stamp:
  assumes "write_ok g rows" and "fingerprint_ok g rows" and "distinct (map md_ID (rows d))"
    and "m \<in> set (active_rows (rows d))" and "r \<in> set (active_rows (rows d))" and "md_ID r \<noteq> md_ID m"
    and "sw_ID w = md_ID m" and "sw_Status w = 1" and "Repo_Update g w d = (None, d')"
    and "md_UpdatedAt m \<le> md_UpdatedAt r"
    and "\<forall>x \<in> set (rows d'). md_ID x = md_ID m \<longrightarrow> md_UpdatedAt x \<le> md_UpdatedAt r"
    and "ActiveFingerprint g d = Inr fp" and "ActiveFingerprint g d' = Inr fp'"
  shows "fp' = fp"
proof -
  obtain t where t: "rows d' = saved ((FromEntity w)\<lparr>md_UpdatedAt := t\<rparr>) (rows d)"
    using write_okD(4) [OF assms(1)] assms(9) unfolding Repo_Update_def by blast
  have w: "md_ID (FromEntity w) = md_ID m" "md_Status (FromEntity w) = 1"
    using assms(7,8) by (simp_all add: FromEntity_def)
  have "m \<in> set (rows d)" using assms(4) by (simp add: active_rows_def)
  then have "(FromEntity w)\<lparr>md_UpdatedAt := t\<rparr> \<in> set (rows d')"
    using w(1) by (auto simp: t saved_def row_ids_def image_iff)
  then have "t \<le> md_UpdatedAt r" using assms(11) w(1) by fastforce
  from rows_misses_earlier_stamp [OF assms(3-6,10) this w]
  show ?thesis
    using ActiveFingerprint_ok [OF assms(2,12)] ActiveFingerprint_ok [OF assms(2,13)] t by simp
qed

theorem fingerprint_misses_earlier_stamp_witness:
  "ActiveFingerprint table_gorm (snd (Repo_Update table_gorm (ToEntity (sample_row 1 ''new'' 0))
      \<lparr>tb_rows = [sample_row 1 ''old'' 4000, sample_row 2 ''b'' 9000], tb_next = 3, tb_clock = 5000\<rparr>)) =
   ActiveFingerprint table_gorm
      \<lparr>tb_rows = [sample_row 1 ''old'' 4000, sample_row 2 ''b'' 9000], tb_next = 3, tb_clock = 5000\<rparr>"
proof -
  let ?t = "\<lparr>tb_rows = [sample_row 1 ''old'' 4000, sample_row 2 ''b'' 9000], tb_next = 3, tb_clock = 5000\<rparr>"
  let ?w = "ToEntity (sample_row 1 ''new'' 0)"
  obtain d' where u: "Repo_Update table_gorm ?w ?t = (None, d')"
    "tb_rows d' = [sample_row 1 ''new'' 5000, sample_row 2 ''b'' 9000]"
    by (simp add: Repo_Update_def table_gorm_def saved_def row_ids_def sample_row_def)
  obtain fp where f: "ActiveFingerprint table_gorm ?t = Inr fp"
    by (simp add: ActiveFingerprint_def table_gorm_def fingerprint_row_def)
  obtain fp' where f': "ActiveFingerprint table_gorm d' = Inr fp'"
    by (simp add: ActiveFingerprint_def table_gorm_def fingerprint_row_def)
  have "fp' = fp"
    by (rule fingerprint_misses_earlier_stamp [OF table_write_ok table_fingerprint_ok _ _ _ _ _ _ u(1) _ _ f f',
          of "sample_row 1 ''old'' 4000" "sample_row 2 ''b'' 9000"])
      (simp_all add: u(2) sample_row_def active_rows_def ToEntity_def)
  with u f f' show ?thesis by simp
qed

text \<open>
  The fingerprint sees every write with the latest stamp: a new active row, the removal of
  an active row, the end of its being active, and a change of it that is stamped at least a
  microsecond later than all active rows change what \<open>ActiveFingerprint\<close> answers.
\<close>

theorem fingerprint_sees_latest_writes:
  assumes "fingerprint_ok g rows" and "distinct (map md_ID (rows d))" and "m \<in> set (active_rows (rows d))"
    and "rows d' = rows d @ [x] \<and> md_Status x = 1 \<or>
      rows d' = filter (\<lambda>r. md_ID r \<noteq> md_ID m) (rows d) \<or>
      rows d' = saved x (rows d) \<and> md_ID x = md_ID m \<and>
        (md_Status x \<noteq> 1 \<or> (\<forall>r \<in> set (active_rows (rows d)). md_UpdatedAt r + 1000 \<le> md_UpdatedAt x))"
    and "ActiveFingerprint g d = Inr fp" and "ActiveFingerprint g d' = Inr fp'"
  shows "fp' \<noteq> fp"
  using rows_sees_latest_writes [OF assms(2,3), of x] assms(4)
    ActiveFingerprint_ok [OF assms(1,5)] ActiveFingerprint_ok [OF assms(1,6)] by auto

theorem fingerprint_sees_latest_writes_witness:
  "ActiveFingerprint table_gorm
      \<lparr>tb_rows = [sample_row 1 ''new'' 10000, sample_row 2 ''b'' 9000], tb_next = 3, tb_clock = 0\<rparr> \<noteq>
   ActiveFingerprint table_gorm
      \<lparr>tb_rows = [sample_row 1 ''old'' 4000, sample_row 2 ''b'' 9000], tb_next = 3, tb_clock = 0\<rparr>"
proof -
  let ?d = "\<lparr>tb_rows = [sample_row 1 ''old'' 4000, sample_row 2 ''b'' 9000], tb_next = 3, tb_clock = 0\<rparr>"
  let ?d' = "\<lparr>tb_rows = [sample_row 1 ''new'' 10000, sample_row 2 ''b'' 9000], tb_next = 3, tb_clock = 0\<rparr>"
  obtain fp where f: "ActiveFingerprint table_gorm ?d = Inr fp"
    by (simp add: ActiveFingerprint_def table_gorm_def fingerprint_row_def)
  obtain fp' where f': "ActiveFingerprint table_gorm ?d' = Inr fp'"
    by (simp add: ActiveFingerprint_def table_gorm_def fingerprint_row_def)
  have "fp' \<noteq> fp"
    by (rule fingerprint_sees_latest_writes [OF table_fingerprint_ok _ _ _ f f',
          of "sample_row 1 ''old'' 4000" "sample_row 1 ''new'' 10000"])
      (simp_all add: sample_row_def active_rows_def saved_def row_ids_def)
  with f f' show ?thesis by simp
qed

end
