(* ===== verification/CircuitBreaker.thy ===== *)
theory CircuitBreaker
  imports Prelude
begin

text \<open>
  \<open>internal/infrastructure/cache/circuit_breaker.go\<close>. The state is an atomic cell, the other
  fields are guarded by a mutex, so every locked section is one atomic step. \<open>Allow\<close> reads the
  cell without the lock first: that read is a step of its own, and the locked part may run in
  a later state. \<open>time.Now()\<close> is an argument; a new breaker's \<open>lastFailTime\<close> is the zero time.
\<close>

section \<open>The code\<close>

datatype circuitState = stateClosed | stateOpen | stateHalfOpen

record CircuitBreaker =
  state :: circuitState
  failCount :: int
  failThreshold :: int
  resetTimeout :: duration
  lastFailTime :: instant
  halfOpenSuccess :: int
  halfOpenRequired :: int

definition NewCircuitBreaker :: "int \<Rightarrow> duration \<Rightarrow> CircuitBreaker" where
  "NewCircuitBreaker threshold timeout =
     \<lparr>state = stateClosed, failCount = 0, failThreshold = threshold, resetTimeout = timeout,
      lastFailTime = 0, halfOpenSuccess = 0, halfOpenRequired = 2\<rparr>"

text \<open>The unlocked read of \<open>Allow\<close>, and the section under the lock.\<close>

definition Allow_fast :: "CircuitBreaker \<Rightarrow> bool" where
  "Allow_fast cb \<longleftrightarrow> state cb = stateClosed"

definition Allow_locked :: "instant \<Rightarrow> CircuitBreaker \<Rightarrow> bool \<times> CircuitBreaker" where
  "Allow_locked now cb =
     (case state cb of
        stateClosed \<Rightarrow> (True, cb)
      | stateOpen \<Rightarrow>
          (if now - lastFailTime cb > resetTimeout cb
           then (True, cb\<lparr>state := stateHalfOpen, halfOpenSuccess := 0\<rparr>)
           else (False, cb))
      | stateHalfOpen \<Rightarrow> (True, cb))"

definition Allow :: "instant \<Rightarrow> CircuitBreaker \<Rightarrow> bool \<times> CircuitBreaker" where
  "Allow now cb = (if Allow_fast cb then (True, cb) else Allow_locked now cb)"

definition RecordSuccess :: "CircuitBreaker \<Rightarrow> CircuitBreaker" where
  "RecordSuccess cb =
     (case state cb of
        stateHalfOpen \<Rightarrow>
          (let cb' = cb\<lparr>halfOpenSuccess := halfOpenSuccess cb + 1\<rparr> in
           if halfOpenSuccess cb' \<ge> halfOpenRequired cb'
           then cb'\<lparr>state := stateClosed, failCount := 0\<rparr> else cb')
      | stateClosed \<Rightarrow> cb\<lparr>failCount := 0\<rparr>
      | stateOpen \<Rightarrow> cb)"

definition RecordFailure :: "instant \<Rightarrow> CircuitBreaker \<Rightarrow> CircuitBreaker" where
  "RecordFailure now cb0 =
     (let cb = cb0\<lparr>lastFailTime := now\<rparr> in
      case state cb of
        stateHalfOpen \<Rightarrow> cb\<lparr>state := stateOpen\<rparr>
      | stateClosed \<Rightarrow>
          (let cb' = cb\<lparr>failCount := failCount cb + 1\<rparr> in
           if failCount cb' \<ge> failThreshold cb' then cb'\<lparr>state := stateOpen\<rparr> else cb')
      | stateOpen \<Rightarrow> cb)"

definition IsOpen :: "CircuitBreaker \<Rightarrow> bool" where
  "IsOpen cb \<longleftrightarrow> state cb = stateOpen"

lemmas breaker_defs = Allow_def Allow_fast_def Allow_locked_def RecordSuccess_def
  RecordFailure_def Let_def

section \<open>Steps of concurrent callers\<close>

datatype breaker_event = FastPass | Asked bool | Succeeded | Failed

inductive breaker_step ::
  "CircuitBreaker \<Rightarrow> instant \<Rightarrow> breaker_event \<Rightarrow> CircuitBreaker \<Rightarrow> bool" where
  fast: "Allow_fast cb \<Longrightarrow> breaker_step cb now FastPass cb"
| locked: "Allow_locked now cb = (ok, cb') \<Longrightarrow> breaker_step cb now (Asked ok) cb'"
| succeeded: "breaker_step cb now Succeeded (RecordSuccess cb)"
| failed: "breaker_step cb now Failed (RecordFailure now cb)"

inductive_cases breaker_stepE [elim!]:
  "breaker_step cb now FastPass cb'" "breaker_step cb now (Asked ok) cb'"
  "breaker_step cb now Succeeded cb'" "breaker_step cb now Failed cb'"

inductive reachable :: "CircuitBreaker \<Rightarrow> CircuitBreaker \<Rightarrow> bool" for cb0 where
  start: "reachable cb0 cb0"
| step: "reachable cb0 cb \<Longrightarrow> breaker_step cb now e cb' \<Longrightarrow> reachable cb0 cb'"

definition breaker_inv :: "CircuitBreaker \<Rightarrow> bool" where
  "breaker_inv cb \<longleftrightarrow> halfOpenRequired cb = 2 \<and> 0 < failThreshold cb \<and>
     (case state cb of
        stateClosed \<Rightarrow> 0 \<le> failCount cb \<and> failCount cb < failThreshold cb
      | stateOpen \<Rightarrow> failCount cb = failThreshold cb
      | stateHalfOpen \<Rightarrow> failCount cb = failThreshold cb \<and>
          (halfOpenSuccess cb = 0 \<or> halfOpenSuccess cb = 1))"

lemma breaker_inv_new: "0 < n \<Longrightarrow> breaker_inv (NewCircuitBreaker n t)"
  by (simp add: breaker_inv_def NewCircuitBreaker_def)

lemma breaker_inv_Allow: "breaker_inv cb \<Longrightarrow> breaker_inv (snd (Allow_locked now cb))"
  by (auto simp: breaker_inv_def breaker_defs split: circuitState.splits)

lemma breaker_inv_success: "breaker_inv cb \<Longrightarrow> breaker_inv (RecordSuccess cb)"
  by (auto simp: breaker_inv_def breaker_defs split: circuitState.splits)

lemma breaker_inv_failure: "breaker_inv cb \<Longrightarrow> breaker_inv (RecordFailure now cb)"
  by (auto simp: breaker_inv_def breaker_defs split: circuitState.splits)

lemma breaker_inv_step: "breaker_step cb now e cb' \<Longrightarrow> breaker_inv cb \<Longrightarrow> breaker_inv cb'"
proof (induction rule: breaker_step.induct)
  case (locked now cb ok cb')
  then show ?case using breaker_inv_Allow [of cb now] by simp
qed (auto intro: breaker_inv_success breaker_inv_failure)

lemma breaker_inv_reachable:
  "reachable cb0 cb \<Longrightarrow> breaker_inv cb0 \<Longrightarrow> breaker_inv cb"
  by (induction rule: reachable.induct) (auto intro: breaker_inv_step)

lemma reachable_config:
  "reachable cb0 cb \<Longrightarrow>
   failThreshold cb = failThreshold cb0 \<and> resetTimeout cb = resetTimeout cb0"
proof (induction rule: reachable.induct)
  case (step cb now e cb')
  from step.hyps(2) have "failThreshold cb' = failThreshold cb \<and> resetTimeout cb' = resetTimeout cb"
    by (induction rule: breaker_step.induct)
      (auto simp: breaker_defs split: circuitState.splits if_splits)
  with step.IH show ?case by simp
qed simp

section \<open>Runs of recorded outcomes\<close>

text \<open>Outcomes recorded one after another, \<open>True\<close> for a success, with the time of each.\<close>

fun record_all :: "CircuitBreaker \<Rightarrow> (instant \<times> bool) list \<Rightarrow> CircuitBreaker" where
  "record_all cb [] = cb"
| "record_all cb ((now, ok) # os) =
     record_all (if ok then RecordSuccess cb else RecordFailure now cb) os"

text \<open>The number of failures at the end of a list of outcomes.\<close>

definition trailing :: "bool list \<Rightarrow> nat" where
  "trailing os = length (takeWhile Not (rev os))"

text \<open>Somewhere \<open>n\<close> failures came in a row.\<close>

definition failed_in_a_row :: "nat \<Rightarrow> bool list \<Rightarrow> bool" where
  "failed_in_a_row n os \<longleftrightarrow> (\<exists>pre suf. os = pre @ replicate n False @ suf)"

lemma record_all_append:
  "record_all cb (xs @ ys) = record_all (record_all cb xs) ys"
  by (induction cb xs rule: record_all.induct) auto

lemma record_all_open: "state cb = stateOpen \<Longrightarrow> state (record_all cb os) = stateOpen"
  by (induction cb os rule: record_all.induct) (auto simp: breaker_defs)

lemma trailing_snoc [simp]:
  "trailing (os @ [True]) = 0" "trailing (os @ [False]) = Suc (trailing os)" "trailing [] = 0"
  by (simp_all add: trailing_def)

lemma trailing_suffix: "n \<le> trailing os \<longleftrightarrow> (\<exists>pre. os = pre @ replicate n False)"
proof (induction os arbitrary: n rule: rev_induct)
  case Nil
  then show ?case by auto
next
  case (snoc x os)
  show ?case
  proof (cases n)
    case 0
    then show ?thesis by simp
  next
    case (Suc k)
    have "pre @ replicate (Suc k) False = (pre @ replicate k False) @ [False]" for pre :: "bool list"
      by (simp add: replicate_append_same)
    then have "(\<exists>pre. os @ [x] = pre @ replicate (Suc k) False) \<longleftrightarrow>
        \<not> x \<and> (\<exists>pre. os = pre @ replicate k False)"
      by (simp only: append1_eq_conv) blast
    with Suc snoc show ?thesis by (cases x) auto
  qed
qed

lemma failed_in_a_row_snoc:
  "0 < n \<Longrightarrow> failed_in_a_row n (os @ [x]) \<longleftrightarrow> failed_in_a_row n os \<or> n \<le> trailing (os @ [x])"
proof (intro iffI)
  assume n: "0 < n" and "failed_in_a_row n (os @ [x])"
  then obtain pre suf where e: "os @ [x] = pre @ replicate n False @ suf"
    by (auto simp: failed_in_a_row_def)
  show "failed_in_a_row n os \<or> n \<le> trailing (os @ [x])"
  proof (cases suf rule: rev_cases)
    case Nil
    then show ?thesis using e trailing_suffix [of n "os @ [x]"] by auto
  next
    case (snoc suf' y)
    then have "os = pre @ replicate n False @ suf'"
      using e by (metis append_assoc butlast_snoc)
    then show ?thesis by (auto simp: failed_in_a_row_def)
  qed
next
  assume "0 < n" "failed_in_a_row n os \<or> n \<le> trailing (os @ [x])"
  then show "failed_in_a_row n (os @ [x])"
    unfolding trailing_suffix failed_in_a_row_def by (metis append.assoc append_Nil2)
qed

lemma record_all_from_closed:
  assumes "breaker_inv cb" "state cb = stateClosed" "failCount cb = 0"
  shows "(state (record_all cb os) = stateOpen \<longleftrightarrow>
      failed_in_a_row (nat (failThreshold cb)) (map snd os)) \<and>
    (state (record_all cb os) \<noteq> stateOpen \<longrightarrow> state (record_all cb os) = stateClosed \<and>
      failCount (record_all cb os) = int (trailing (map snd os))) \<and>
    failThreshold (record_all cb os) = failThreshold cb"
proof (induction os rule: rev_induct)
  case Nil
  then show ?case using assms by (auto simp: failed_in_a_row_def breaker_inv_def)
next
  case (snoc x os)
  obtain now ok where x: "x = (now, ok)" by force
  let ?cb = "record_all cb os"
  let ?n = "nat (failThreshold cb)"
  have n: "0 < ?n" "int ?n = failThreshold cb" using assms(1) by (auto simp: breaker_inv_def)
  have last: "record_all cb (os @ [x]) = (if ok then RecordSuccess ?cb else RecordFailure now ?cb)"
    by (simp add: record_all_append x)
  have row: "failed_in_a_row ?n (map snd (os @ [x])) \<longleftrightarrow>
      failed_in_a_row ?n (map snd os) \<or> ?n \<le> trailing (map snd os @ [ok])"
    using failed_in_a_row_snoc [OF n(1), of "map snd os" ok] by (simp add: x)
  show ?case
  proof (cases "state ?cb = stateOpen")
    case True
    with snoc last row show ?thesis by (auto simp: breaker_defs)
  next
    case False
    then have c: "state ?cb = stateClosed" "failCount ?cb = int (trailing (map snd os))"
      "failThreshold ?cb = failThreshold cb" "\<not> failed_in_a_row ?n (map snd os)"
      using snoc by auto
    show ?thesis
    proof (cases ok)
      case True
      with c last row n show ?thesis by (simp add: breaker_defs x)
    next
      case False
      have "?n \<le> Suc (trailing (map snd os)) \<longleftrightarrow> failThreshold cb \<le> 1 + int (trailing (map snd os))"
        using n by linarith
      with False c last row show ?thesis by (auto simp: breaker_defs x)
    qed
  qed
qed

section \<open>Properties\<close>

text \<open>
  Claim C10. A breaker that is not asked to pass opens exactly when somewhere in the recorded
  outcomes as many failures as the threshold came in a row, and is closed otherwise, with the
  counter at the number of failures since the last success.
\<close>

theorem breaker_opens_iff_failed_in_a_row:
  assumes "0 < threshold"
  shows "(IsOpen (record_all (NewCircuitBreaker threshold timeout) os) \<longleftrightarrow>
      failed_in_a_row (nat threshold) (map snd os)) \<and>
    (\<not> IsOpen (record_all (NewCircuitBreaker threshold timeout) os) \<longrightarrow>
      state (record_all (NewCircuitBreaker threshold timeout) os) = stateClosed \<and>
      failCount (record_all (NewCircuitBreaker threshold timeout) os) = int (trailing (map snd os)))"
  using record_all_from_closed [OF breaker_inv_new [OF assms, of timeout], of os]
  by (auto simp: IsOpen_def NewCircuitBreaker_def)

theorem breaker_opens_iff_failed_in_a_row_witness:
  "IsOpen (record_all (NewCircuitBreaker 2 5) [(1, False), (2, True), (3, False), (4, False), (5, True)])
   \<and> \<not> IsOpen (record_all (NewCircuitBreaker 2 5) [(1, False), (2, True), (3, False)])"
proof -
  have "failed_in_a_row 2 [False, True, False, False, True]"
    unfolding failed_in_a_row_def by (rule exI [of _ "[False, True]"]) (simp add: numeral_2_eq_2)
  moreover have "\<not> failed_in_a_row 2 [False, True, False]"
    by (auto simp: failed_in_a_row_def numeral_2_eq_2 Cons_eq_append_conv)
  ultimately show ?thesis
    using breaker_opens_iff_failed_in_a_row
      [of 2 5 "[(1, False), (2, True), (3, False), (4, False), (5, True)]"]
      breaker_opens_iff_failed_in_a_row [of 2 5 "[(1, False), (2, True), (3, False)]"]
    by simp
qed

text \<open>
  Claim C9. Whatever concurrent callers do, the state changes in four ways only: closed to open
  on the failure that reaches the threshold, open to half-open when a caller asks later than
  the timeout after the last failure, half-open to open on a failure, and half-open to closed
  on the second success. An open breaker refuses every other caller, and the unlocked read
  passes nobody unless the breaker is closed.
\<close>

theorem breaker_changes_state_only_as_specified:
  assumes "0 < threshold" and "reachable (NewCircuitBreaker threshold timeout) cb"
    and "breaker_step cb now e cb'"
  shows "(state cb' \<noteq> state cb \<longrightarrow>
      state cb = stateClosed \<and> state cb' = stateOpen \<and> e = Failed \<and> failCount cb + 1 = threshold \<or>
      state cb = stateOpen \<and> state cb' = stateHalfOpen \<and> e = Asked True \<and>
        now - lastFailTime cb > timeout \<and> halfOpenSuccess cb' = 0 \<or>
      state cb = stateHalfOpen \<and> state cb' = stateOpen \<and> e = Failed \<or>
      state cb = stateHalfOpen \<and> state cb' = stateClosed \<and> e = Succeeded \<and>
        halfOpenSuccess cb = 1 \<and> failCount cb' = 0) \<and>
    (state cb = stateOpen \<and> now - lastFailTime cb \<le> timeout \<longrightarrow>
      e \<noteq> FastPass \<and> e \<noteq> Asked True \<and> state cb' = stateOpen)"
proof -
  have inv: "breaker_inv cb"
    by (rule breaker_inv_reachable [OF assms(2) breaker_inv_new [OF assms(1)]])
  have cfg: "failThreshold cb = threshold" "resetTimeout cb = timeout"
    using reachable_config [OF assms(2)] by (simp_all add: NewCircuitBreaker_def)
  from assms(3) inv cfg show ?thesis
    by (induction rule: breaker_step.induct)
      (auto simp: breaker_inv_def breaker_defs split: circuitState.splits if_splits)
qed

theorem breaker_changes_state_only_as_specified_witness:
  "state (RecordFailure 7 (RecordFailure 3 (NewCircuitBreaker 2 5))) = stateOpen \<and>
   failCount (RecordFailure 3 (NewCircuitBreaker 2 5)) + 1 = 2"
proof -
  let ?cb = "RecordFailure 3 (NewCircuitBreaker 2 5)"
  have r: "reachable (NewCircuitBreaker 2 5) ?cb"
    by (rule reachable.step [OF reachable.start breaker_step.failed])
  have s: "state ?cb = stateClosed" "state (RecordFailure 7 ?cb) = stateOpen" by code_simp+
  then show ?thesis
    using breaker_changes_state_only_as_specified [OF _ r breaker_step.failed [of ?cb 7]] by auto
qed

text \<open>
  Claim C11. The breaker never stays shut: from every reachable state, once the timeout has passed
  since the last failure, the next caller is let through, and after two successes in a row the
  breaker is closed with its counter at 0.
\<close>

theorem breaker_recovers:
  assumes "0 < threshold" and "reachable (NewCircuitBreaker threshold timeout) cb"
    and "now - lastFailTime cb > timeout"
  shows "\<exists>cb'. Allow now cb = (True, cb') \<and>
    state (RecordSuccess (RecordSuccess cb')) = stateClosed \<and>
    failCount (RecordSuccess (RecordSuccess cb')) = 0"
proof -
  have inv: "breaker_inv cb"
    by (rule breaker_inv_reachable [OF assms(2) breaker_inv_new [OF assms(1)]])
  have "resetTimeout cb = timeout"
    using reachable_config [OF assms(2)] by (simp add: NewCircuitBreaker_def)
  with assms(3) inv show ?thesis
    by (auto simp: breaker_inv_def breaker_defs split: circuitState.splits)
qed

theorem breaker_recovers_witness:
  "\<exists>cb'. Allow 20 (RecordFailure 7 (NewCircuitBreaker 1 5)) = (True, cb') \<and>
     state (RecordSuccess (RecordSuccess cb')) = stateClosed \<and>
     \<not> fst (Allow 12 (RecordFailure 7 (NewCircuitBreaker 1 5)))"
proof -
  let ?cb = "RecordFailure 7 (NewCircuitBreaker 1 5)"
  have r: "reachable (NewCircuitBreaker 1 5) ?cb"
    by (rule reachable.step [OF reachable.start breaker_step.failed])
  have t: "20 - lastFailTime ?cb > 5" "\<not> fst (Allow 12 ?cb)" by code_simp+
  then show ?thesis using breaker_recovers [OF _ r t(1)] by auto
qed

end
