(* ===== verification/CacheSpec.thy ===== *)
theory CacheSpec
  imports Prelude
begin

text \<open>
  The contract of a cache of byte strings, as the filter service uses one: it may forget, but
  what it returns for a key was put there under that key. The local cache and the multi-level
  cache are interpretations, in their theories.
\<close>

datatype cache_op = Getting instant gostring | Putting instant gostring bytes

text \<open>A sequence of operations and what the reads returned.\<close>

fun cache_run ::
  "(instant \<Rightarrow> gostring \<Rightarrow> 'c \<Rightarrow> bytes option \<times> 'c) \<Rightarrow> (instant \<Rightarrow> gostring \<Rightarrow> bytes \<Rightarrow> 'c \<Rightarrow> 'c) \<Rightarrow>
   cache_op list \<Rightarrow> 'c \<Rightarrow> (gostring \<times> bytes option) list \<times> 'c" where
  "cache_run get put [] c = ([], c)"
| "cache_run get put (Getting now k # os) c =
     (let (r, c1) = get now k c; (rs, c2) = cache_run get put os c1 in ((k, r) # rs, c2))"
| "cache_run get put (Putting now k v # os) c = cache_run get put os (put now k v c)"

locale byte_cache =
  fixes inv :: "'c \<Rightarrow> bool"
    and holds :: "'c \<Rightarrow> gostring \<Rightarrow> bytes \<Rightarrow> bool"
    and get :: "instant \<Rightarrow> gostring \<Rightarrow> 'c \<Rightarrow> bytes option \<times> 'c"
    and put :: "instant \<Rightarrow> gostring \<Rightarrow> bytes \<Rightarrow> 'c \<Rightarrow> 'c"
  assumes get_inv: "inv c \<Longrightarrow> get now k c = (r, c') \<Longrightarrow> inv c'"
    and get_value: "inv c \<Longrightarrow> get now k c = (Some v, c') \<Longrightarrow> holds c k v"
    and get_holds: "inv c \<Longrightarrow> get now k c = (r, c') \<Longrightarrow> holds c' k' v' \<Longrightarrow> holds c k' v'"
    and put_inv: "inv c \<Longrightarrow> inv (put now k v c)"
    and put_holds: "inv c \<Longrightarrow> holds (put now k v c) k' v' \<Longrightarrow> holds c k' v' \<or> k' = k \<and> v' = v"
begin

text \<open>A predicate on entries that all puts establish holds of all that is read.\<close>

lemma get_all:
  assumes "inv c" "\<forall>k v. holds c k v \<longrightarrow> P k v" "get now k c = (r, c')"
  shows "inv c'" "\<forall>k v. holds c' k v \<longrightarrow> P k v" "r = Some v \<Longrightarrow> P k v"
  subgoal by (rule get_inv [OF assms(1,3)])
  subgoal using get_holds [OF assms(1,3)] assms(2) by blast
  subgoal using get_value [OF assms(1), of now k v c'] assms(2,3) by blast
  done

lemma put_all:
  assumes "inv c" "\<forall>k v. holds c k v \<longrightarrow> P k v" "P k v"
  shows "inv (put now k v c)" "\<forall>k' v'. holds (put now k v c) k' v' \<longrightarrow> P k' v'"
  subgoal by (rule put_inv [OF assms(1)])
  subgoal using put_holds [OF assms(1), of now k v] assms(2,3) by blast
  done

lemma run_reads_what_was_put:
  assumes "inv c" "cache_run get put os c = (rs, c')" "(k, Some v) \<in> set rs"
  shows "holds c k v \<or> (\<exists>now. Putting now k v \<in> set os)"
  using assms
proof (induction os arbitrary: c rs c')
  case Nil
  then show ?case by simp
next
  case (Cons os_head os)
  show ?case
  proof (cases os_head)
    case (Getting now key)
    obtain r c1 where g: "get now key c = (r, c1)" by force
    obtain rs1 c2 where t: "cache_run get put os c1 = (rs1, c2)" by force
    have rs: "rs = (key, r) # rs1" using Cons.prems(2) Getting g t by simp
    show ?thesis
    proof (cases "(k, Some v) \<in> set rs1")
      case True
      have "holds c1 k v \<or> (\<exists>now. Putting now k v \<in> set os)"
        by (rule Cons.IH [OF get_inv [OF Cons.prems(1) g] t True])
      then show ?thesis using get_holds [OF Cons.prems(1) g] by auto
    next
      case False
      then have "key = k" "r = Some v" using Cons.prems(3) rs by auto
      then show ?thesis using get_value [OF Cons.prems(1)] g by blast
    qed
  next
    case (Putting now key w)
    have "cache_run get put os (put now key w c) = (rs, c')" using Cons.prems(2) Putting by simp
    then have "holds (put now key w c) k v \<or> (\<exists>now. Putting now k v \<in> set os)"
      by (rule Cons.IH [OF put_inv [OF Cons.prems(1)] _ Cons.prems(3)])
    then show ?thesis using put_holds [OF Cons.prems(1), of now key w k v] Putting by auto
  qed
qed

end

end
