(* ===== verification/LocalCache.thy ===== *)
theory LocalCache
  imports GoStrings CacheSpec
begin

unbundle bit_operations_syntax

text \<open>
  \<open>internal/infrastructure/cache/local_cache.go\<close>: the in-process cache, 32 maps each behind a
  lock. An operation on one key holds its shard's lock, so it is one atomic step. The loops
  over all shards lock them one at a time; each pass over a shard is a definition of its own.
  \<open>time.Now()\<close> and the order of ranging over a map are arguments.
\<close>

section \<open>The code\<close>

definition localCacheShards :: nat where
  "localCacheShards = 32"

record cacheItem =
  ci_value :: bytes
  ci_expiredAt :: instant

type_synonym items = "(gostring, cacheItem) gomap"

record cacheShard =
  sh_items :: items

record LocalCache =
  shards :: "cacheShard list"
  ttl :: duration
  maxItems :: int

definition NewLocalCache :: "duration \<Rightarrow> int \<Rightarrow> LocalCache" where
  "NewLocalCache t mx =
     \<lparr>shards = replicate localCacheShards \<lparr>sh_items = []\<rparr>, ttl = t, maxItems = mx\<rparr>"

text \<open>\<open>h.Sum32() & (localCacheShards-1)\<close>: the index of the shard.\<close>

definition shardFor :: "gostring \<Rightarrow> nat" where
  "shardFor key = unat (fnv32a key AND (of_nat localCacheShards - 1))"

definition shard_items :: "LocalCache \<Rightarrow> nat \<Rightarrow> items" where
  "shard_items c i = sh_items (shards c ! i)"

definition set_shard_items :: "LocalCache \<Rightarrow> nat \<Rightarrow> items \<Rightarrow> LocalCache" where
  "set_shard_items c i m = c\<lparr>shards := (shards c)[i := (shards c ! i)\<lparr>sh_items := m\<rparr>]\<rparr>"

definition perShardLimit :: "LocalCache \<Rightarrow> int" where
  "perShardLimit c =
     (if maxItems c \<le> 0 then 0
      else if maxItems c < int localCacheShards then 1
      else maxItems c div int localCacheShards)"

definition Local_Get :: "instant \<Rightarrow> gostring \<Rightarrow> LocalCache \<Rightarrow> bytes option" where
  "Local_Get now key c =
     (case map_of (shard_items c (shardFor key)) key of
        None \<Rightarrow> None
      | Some item \<Rightarrow> if now > ci_expiredAt item then None else Some (ci_value item))"

definition Local_Set :: "instant \<Rightarrow> gostring \<Rightarrow> bytes \<Rightarrow> LocalCache \<Rightarrow> LocalCache" where
  "Local_Set now key value c =
     (let i = shardFor key;
          m = shard_items c i;
          limit = perShardLimit c
      in if limit > 0 \<and> int (length m) \<ge> limit \<and> map_of m key = None then c
         else set_shard_items c i
                (map_put key \<lparr>ci_value = value, ci_expiredAt = now + ttl c\<rparr> m))"

definition Local_Delete :: "gostring \<Rightarrow> LocalCache \<Rightarrow> LocalCache" where
  "Local_Delete key c =
     (let i = shardFor key in set_shard_items c i (map_del key (shard_items c i)))"

text \<open>Deleting while ranging over the map: every key is visited once.\<close>

fun delete_prefixed :: "gostring \<Rightarrow> gostring list \<Rightarrow> items \<Rightarrow> items" where
  "delete_prefixed p [] m = m"
| "delete_prefixed p (k # ks) m = delete_prefixed p ks (if HasPrefix k p then map_del k m else m)"

definition DeleteByPrefix_shard :: "(items \<Rightarrow> items) \<Rightarrow> gostring \<Rightarrow> cacheShard \<Rightarrow> cacheShard" where
  "DeleteByPrefix_shard ord p s =
     s\<lparr>sh_items := delete_prefixed p (map fst (ord (sh_items s))) (sh_items s)\<rparr>"

definition Local_DeleteByPrefix :: "(items \<Rightarrow> items) \<Rightarrow> gostring \<Rightarrow> LocalCache \<Rightarrow> LocalCache" where
  "Local_DeleteByPrefix ord p c = c\<lparr>shards := map (DeleteByPrefix_shard ord p) (shards c)\<rparr>"

definition InvalidateAll :: "LocalCache \<Rightarrow> LocalCache" where
  "InvalidateAll c = c\<lparr>shards := map (\<lambda>s. s\<lparr>sh_items := []\<rparr>) (shards c)\<rparr>"

definition maxEvictPerShardPerCycle :: int where
  "maxEvictPerShardPerCycle = 1000"

fun evict_loop :: "instant \<Rightarrow> int \<Rightarrow> (gostring \<times> cacheItem) list \<Rightarrow> items \<Rightarrow> items" where
  "evict_loop now evicted [] m = m"
| "evict_loop now evicted ((k, v) # kvs) m =
     (if now > ci_expiredAt v then
        (let m' = map_del k m; evicted' = evicted + 1 in
         if evicted' \<ge> maxEvictPerShardPerCycle then m' else evict_loop now evicted' kvs m')
      else evict_loop now evicted kvs m)"

definition evict_shard :: "(items \<Rightarrow> items) \<Rightarrow> instant \<Rightarrow> cacheShard \<Rightarrow> cacheShard" where
  "evict_shard ord now s = s\<lparr>sh_items := evict_loop now 0 (ord (sh_items s)) (sh_items s)\<rparr>"

definition evictExpired :: "(items \<Rightarrow> items) \<Rightarrow> instant \<Rightarrow> LocalCache \<Rightarrow> LocalCache" where
  "evictExpired ord now c = c\<lparr>shards := map (evict_shard ord now) (shards c)\<rparr>"

text \<open>What the select of \<open>cleanup\<close> receives: the context's end, or a tick.\<close>

datatype cleanup_event = CtxDone | Tick instant

fun cleanup :: "(items \<Rightarrow> items) \<Rightarrow> cleanup_event list \<Rightarrow> LocalCache \<Rightarrow> LocalCache" where
  "cleanup ord [] c = c"
| "cleanup ord (CtxDone # es) c = c"
| "cleanup ord (Tick now # es) c = cleanup ord es (evictExpired ord now c)"

section \<open>The abstract view: one map\<close>

definition entry :: "LocalCache \<Rightarrow> gostring \<Rightarrow> cacheItem option" where
  "entry c key = map_of (shard_items c (shardFor key)) key"

definition local_inv :: "LocalCache \<Rightarrow> bool" where
  "local_inv c \<longleftrightarrow> length (shards c) = localCacheShards \<and>
     (\<forall>s \<in> set (shards c). keys_distinct (sh_items s) \<and>
        (perShardLimit c > 0 \<longrightarrow> int (length (sh_items s)) \<le> perShardLimit c))"

definition item_count :: "LocalCache \<Rightarrow> nat" where
  "item_count c = sum_list (map (\<lambda>s. length (sh_items s)) (shards c))"

lemma shardFor_less: "shardFor key < localCacheShards"
proof -
  have "unat (fnv32a key AND (31 :: 32 word)) \<le> unat (31 :: 32 word)"
    by (rule iffD1 [OF word_le_nat_alt word_and_le1])
  then show ?thesis by (simp add: shardFor_def localCacheShards_def)
qed

lemma local_inv_shard:
  "local_inv c \<Longrightarrow> i < localCacheShards \<Longrightarrow> keys_distinct (shard_items c i) \<and>
     (perShardLimit c > 0 \<longrightarrow> int (length (shard_items c i)) \<le> perShardLimit c)"
  by (simp add: local_inv_def shard_items_def)

lemma perShardLimit_shards [simp]: "perShardLimit (c\<lparr>shards := ss\<rparr>) = perShardLimit c"
  by (simp add: perShardLimit_def)

lemma local_inv_set_shard:
  assumes "local_inv c" "i < localCacheShards" "keys_distinct m"
    and "perShardLimit c > 0 \<longrightarrow> int (length m) \<le> perShardLimit c"
  shows "local_inv (set_shard_items c i m)"
  using assms by (auto simp: local_inv_def set_shard_items_def dest!: set_update_subset_insert [THEN subsetD])

lemma local_inv_map_shards:
  assumes "local_inv c"
    and "\<And>s. keys_distinct (sh_items s) \<Longrightarrow>
      keys_distinct (sh_items (f s)) \<and> length (sh_items (f s)) \<le> length (sh_items s)"
  shows "local_inv (c\<lparr>shards := map f (shards c)\<rparr>)"
  using assms by (fastforce simp: local_inv_def)

lemma entry_set_shard:
  "local_inv c \<Longrightarrow> i < localCacheShards \<Longrightarrow>
   entry (set_shard_items c i m) k = (if shardFor k = i then map_of m k else entry c k)"
  by (auto simp: entry_def set_shard_items_def shard_items_def local_inv_def nth_list_update)

lemma entry_map_shards:
  "local_inv c \<Longrightarrow> entry (c\<lparr>shards := map f (shards c)\<rparr>) k =
     map_of (sh_items (f (shards c ! shardFor k))) k"
  using shardFor_less [of k] by (simp add: entry_def shard_items_def local_inv_def)

lemma entry_new [simp]: "entry (NewLocalCache t mx) k = None"
  using shardFor_less [of k] by (simp add: entry_def NewLocalCache_def shard_items_def)

subsection \<open>What each operation does to the map\<close>

lemma Local_Get_entry:
  "Local_Get now k c = (case entry c k of None \<Rightarrow> None
     | Some item \<Rightarrow> if now > ci_expiredAt item then None else Some (ci_value item))"
  by (simp add: Local_Get_def entry_def)

definition full_for :: "gostring \<Rightarrow> LocalCache \<Rightarrow> bool" where
  "full_for key c \<longleftrightarrow> perShardLimit c > 0 \<and>
     int (length (shard_items c (shardFor key))) \<ge> perShardLimit c \<and> entry c key = None"

lemma entry_Local_Set:
  assumes "local_inv c"
  shows "entry (Local_Set now key v c) =
    (if full_for key c then entry c
     else (entry c)(key \<mapsto> \<lparr>ci_value = v, ci_expiredAt = now + ttl c\<rparr>))"
proof (rule ext)
  fix k
  show "entry (Local_Set now key v c) k =
    (if full_for key c then entry c
     else (entry c)(key \<mapsto> \<lparr>ci_value = v, ci_expiredAt = now + ttl c\<rparr>)) k"
    using entry_set_shard [OF assms shardFor_less]
    by (auto simp: Local_Set_def full_for_def Let_def entry_def [of c])
qed

lemma entry_Local_Delete:
  "local_inv c \<Longrightarrow> entry (Local_Delete key c) = (entry c)(key := None)"
  by (rule ext) (simp add: Local_Delete_def Let_def entry_set_shard shardFor_less entry_def [of c])

lemma delete_prefixed_eq:
  "delete_prefixed p ks m = filter (\<lambda>kv. \<not> (fst kv \<in> set ks \<and> HasPrefix (fst kv) p)) m"
proof (induction ks arbitrary: m)
  case Nil
  then show ?case by simp
next
  case (Cons k ks)
  then show ?case by (auto simp: map_del_def intro!: filter_cong)
qed

lemma DeleteByPrefix_shard_items:
  assumes "iteration_order ord"
  shows "sh_items (DeleteByPrefix_shard ord p s) = filter (\<lambda>kv. \<not> HasPrefix (fst kv) p) (sh_items s)"
  using iteration_order_set [OF assms]
  by (auto simp: DeleteByPrefix_shard_def delete_prefixed_eq intro!: filter_cong)

lemma entry_DeleteByPrefix:
  assumes "local_inv c" "iteration_order ord"
  shows "entry (Local_DeleteByPrefix ord p c) k = (if HasPrefix k p then None else entry c k)"
  by (simp add: Local_DeleteByPrefix_def entry_map_shards [OF assms(1)]
      DeleteByPrefix_shard_items [OF assms(2)]
      map_of_filter_key [where P = "\<lambda>x. \<not> HasPrefix x p"])
    (simp add: entry_def shard_items_def)

lemma entry_InvalidateAll: "local_inv c \<Longrightarrow> entry (InvalidateAll c) k = None"
  by (simp add: InvalidateAll_def entry_map_shards)

subsection \<open>Eviction\<close>

lemma evict_loop_ok:
  assumes "keys_distinct m" "\<forall>(k, v) \<in> set kvs. map_of m k = Some v" "distinct (map fst kvs)"
    "0 \<le> evicted" "evicted < maxEvictPerShardPerCycle"
  shows "keys_distinct (evict_loop now evicted kvs m) \<and>
    (\<forall>k. map_of (evict_loop now evicted kvs m) k = map_of m k \<or>
       map_of (evict_loop now evicted kvs m) k = None \<and>
       (\<exists>v. map_of m k = Some v \<and> now > ci_expiredAt v)) \<and>
    int (length m) - int (length (evict_loop now evicted kvs m)) =
      min (int (length (filter (\<lambda>(k, v). now > ci_expiredAt v) kvs)))
        (maxEvictPerShardPerCycle - evicted)"
  using assms
proof (induction now evicted kvs m rule: evict_loop.induct)
  case (1 now evicted m)
  then show ?case by simp
next
  case (2 now evicted k v kvs m)
  show ?case
  proof (cases "now > ci_expiredAt v")
    case True
    have k: "map_of m k = Some v" using "2.prems"(2) by simp
    have len: "length (map_del k m) + 1 = length m"
      using length_filter_present [OF "2.prems"(1) k] by (simp add: map_del_def)
    show ?thesis
    proof (cases "evicted + 1 \<ge> maxEvictPerShardPerCycle")
      case last: True
      with "2.prems" True k len show ?thesis by auto
    next
      case False
      have rest: "\<forall>(k', v') \<in> set kvs. map_of (map_del k m) k' = Some v'"
        using "2.prems"(2,3) by force
      have e: "evict_loop now evicted ((k, v) # kvs) m = evict_loop now (evicted + 1) kvs (map_del k m)"
        using True False by simp
      note ih = "2.IH"(1) [OF True refl refl False keys_distinct_map_del [OF "2.prems"(1)] rest]
      from ih "2.prems" False True k len show ?thesis
        unfolding e by (auto split: if_splits)
    qed
  next
    case False
    with "2.IH"(2) "2.prems" show ?thesis by simp
  qed
qed

definition expired_count :: "instant \<Rightarrow> items \<Rightarrow> nat" where
  "expired_count now m = length (filter (\<lambda>(k, v). now > ci_expiredAt v) m)"

lemma evict_shard_ok:
  assumes "iteration_order ord" "keys_distinct (sh_items s)"
  shows "keys_distinct (sh_items (evict_shard ord now s))"
    "map_of (sh_items (evict_shard ord now s)) k = map_of (sh_items s) k \<or>
     map_of (sh_items (evict_shard ord now s)) k = None \<and>
     (\<exists>v. map_of (sh_items s) k = Some v \<and> now > ci_expiredAt v)"
    "int (length (sh_items s)) - int (length (sh_items (evict_shard ord now s))) =
     min (int (expired_count now (sh_items s))) maxEvictPerShardPerCycle"
proof -
  let ?m = "sh_items s"
  have kvs: "\<forall>(k, v) \<in> set (ord ?m). map_of ?m k = Some v"
    using assms iteration_order_set [OF assms(1), of ?m] by (auto simp: keys_distinct_def)
  have d: "distinct (map fst (ord ?m))"
    using iteration_order_distinct_map [OF assms(1)] assms(2) by (simp add: keys_distinct_def)
  have e: "length (filter (\<lambda>(k, v). now > ci_expiredAt v) (ord ?m)) = expired_count now ?m"
    unfolding expired_count_def using assms(1)
    by (metis iteration_order_def mset_filter size_mset)
  note L = evict_loop_ok [OF assms(2) kvs d, of 0 now]
  have z: "0 \<le> (0::int)" "0 < maxEvictPerShardPerCycle" by (simp_all add: maxEvictPerShardPerCycle_def)
  from L [OF z] show "keys_distinct (sh_items (evict_shard ord now s))"
    "map_of (sh_items (evict_shard ord now s)) k = map_of (sh_items s) k \<or>
     map_of (sh_items (evict_shard ord now s)) k = None \<and>
     (\<exists>v. map_of (sh_items s) k = Some v \<and> now > ci_expiredAt v)"
    "int (length (sh_items s)) - int (length (sh_items (evict_shard ord now s))) =
     min (int (expired_count now (sh_items s))) maxEvictPerShardPerCycle"
    unfolding e by (auto simp: evict_shard_def)
qed

lemma entry_evictExpired:
  assumes "local_inv c" "iteration_order ord"
  shows "entry (evictExpired ord now c) k = entry c k \<or>
    entry (evictExpired ord now c) k = None \<and> (\<exists>v. entry c k = Some v \<and> now > ci_expiredAt v)"
proof -
  let ?s = "shards c ! shardFor k"
  have "keys_distinct (sh_items ?s)"
    using local_inv_shard [OF assms(1) shardFor_less [of k]] by (simp add: shard_items_def)
  from evict_shard_ok(2) [OF assms(2) this] show ?thesis
    by (simp add: evictExpired_def entry_map_shards [OF assms(1)])
      (simp add: entry_def shard_items_def)
qed

subsection \<open>The invariant\<close>

lemma local_inv_new: "local_inv (NewLocalCache t mx)"
  by (auto simp: local_inv_def NewLocalCache_def localCacheShards_def)

lemma local_inv_Set [inv_intros]:
  assumes "local_inv c"
  shows "local_inv (Local_Set now key v c)"
proof -
  let ?m = "shard_items c (shardFor key)"
  note S = local_inv_shard [OF assms shardFor_less [of key]]
  have "int (length (map_put key w ?m)) \<le> perShardLimit c"
    if "perShardLimit c > 0" "\<not> (int (length ?m) \<ge> perShardLimit c \<and> map_of ?m key = None)" for w
  proof (cases "map_of ?m key")
    case None
    with that show ?thesis by (simp add: length_map_put_absent)
  next
    case (Some x)
    with S that(1) show ?thesis by (simp add: length_map_put_present)
  qed
  then show ?thesis
    using S by (auto simp: Local_Set_def Let_def assms intro!: local_inv_set_shard shardFor_less)
qed

lemma local_inv_Delete [inv_intros]:
  assumes "local_inv c"
  shows "local_inv (Local_Delete key c)"
proof -
  let ?m = "shard_items c (shardFor key)"
  have "length (map_del key ?m) \<le> length ?m" by (simp add: map_del_def)
  then show ?thesis
    using local_inv_shard [OF assms shardFor_less [of key]]
    by (auto simp: Local_Delete_def Let_def assms intro!: local_inv_set_shard shardFor_less)
qed

lemma local_inv_DeleteByPrefix [inv_intros]:
  "local_inv c \<Longrightarrow> iteration_order ord \<Longrightarrow> local_inv (Local_DeleteByPrefix ord p c)"
  unfolding Local_DeleteByPrefix_def
  by (rule local_inv_map_shards) (simp_all add: DeleteByPrefix_shard_items)

lemma local_inv_InvalidateAll [inv_intros]: "local_inv c \<Longrightarrow> local_inv (InvalidateAll c)"
  unfolding InvalidateAll_def by (rule local_inv_map_shards) simp_all

lemma local_inv_evict [inv_intros]:
  assumes "local_inv c" "iteration_order ord"
  shows "local_inv (evictExpired ord now c)"
  unfolding evictExpired_def
proof (rule local_inv_map_shards [OF assms(1)])
  fix s :: cacheShard assume k: "keys_distinct (sh_items s)"
  have "0 \<le> min (int (expired_count now (sh_items s))) maxEvictPerShardPerCycle"
    by (simp add: maxEvictPerShardPerCycle_def)
  with evict_shard_ok(1,3) [OF assms(2) k, of now]
  show "keys_distinct (sh_items (evict_shard ord now s)) \<and>
      length (sh_items (evict_shard ord now s)) \<le> length (sh_items s)" by simp
qed

text \<open>The operations of the cache, each one step, and the caches they lead to.\<close>

inductive local_step :: "LocalCache \<Rightarrow> LocalCache \<Rightarrow> bool" where
  set: "local_step c (Local_Set now key v c)"
| delete: "local_step c (Local_Delete key c)"
| delete_prefix: "iteration_order ord \<Longrightarrow> local_step c (Local_DeleteByPrefix ord p c)"
| invalidate_all: "local_step c (InvalidateAll c)"
| tick: "iteration_order ord \<Longrightarrow> local_step c (evictExpired ord now c)"

lemma local_step_inv: "local_step c c' \<Longrightarrow> local_inv c \<Longrightarrow> local_inv c' \<and> maxItems c' = maxItems c"
proof (induction rule: local_step.induct)
  case (set c now key v)
  then show ?case by (simp add: inv_intros) (simp add: Local_Set_def Let_def set_shard_items_def)
next
  case (delete c key)
  then show ?case by (simp add: inv_intros) (simp add: Local_Delete_def Let_def set_shard_items_def)
qed (simp_all add: inv_intros, simp_all add: Local_DeleteByPrefix_def InvalidateAll_def evictExpired_def)

lemma local_steps_inv:
  "local_step\<^sup>*\<^sup>* c c' \<Longrightarrow> local_inv c \<Longrightarrow> local_inv c' \<and> maxItems c' = maxItems c"
  by (induction rule: rtranclp_induct) (auto dest: local_step_inv)

lemma item_count_bound:
  assumes "local_inv c" "perShardLimit c > 0"
  shows "int (item_count c) \<le> int localCacheShards * perShardLimit c"
proof -
  have "int (sum_list (map (\<lambda>s. length (sh_items s)) ss)) \<le> int (length ss) * perShardLimit c"
    if "\<forall>s \<in> set ss. int (length (sh_items s)) \<le> perShardLimit c" for ss
    using that by (induction ss) (auto simp: algebra_simps)
  from this [of "shards c"] assms show ?thesis by (simp add: local_inv_def item_count_def)
qed

interpretation lc: byte_cache local_inv "\<lambda>c k v. \<exists>item. entry c k = Some item \<and> ci_value item = v"
  "\<lambda>now k c. (Local_Get now k c, c)" Local_Set
  by unfold_locales
    (auto simp: Local_Get_entry entry_Local_Set inv_intros split: option.splits if_splits)

section \<open>Properties\<close>

text \<open>
  Claim C13. The local cache refines one map with expiry times. A \<open>Set\<close> binds its key to the value
  until the time to live has passed and changes no other key, unless the key is new and its
  shard full, and then it changes nothing; \<open>Delete\<close> unbinds one key, \<open>DeleteByPrefix\<close> exactly
  the keys with the prefix, in whatever order the maps are ranged over, \<open>InvalidateAll\<close> all.
\<close>

theorem local_cache_refines_map:
  assumes "local_inv c" and "iteration_order ord"
  shows "Local_Get now k (Local_Set t key v c) =
      (if k = key \<and> \<not> full_for key c then (if now > t + ttl c then None else Some v)
       else Local_Get now k c) \<and>
    Local_Get now k (Local_Delete key c) = (if k = key then None else Local_Get now k c) \<and>
    Local_Get now k (Local_DeleteByPrefix ord p c) =
      (if HasPrefix k p then None else Local_Get now k c) \<and>
    Local_Get now k (InvalidateAll c) = None"
  by (simp add: Local_Get_entry entry_Local_Set [OF assms(1)] entry_Local_Delete [OF assms(1)]
      entry_DeleteByPrefix [OF assms] entry_InvalidateAll [OF assms(1)])

theorem local_cache_refines_map_witness:
  "Local_Get 9 ''k'' (Local_Set 4 ''k'' ''v'' (NewLocalCache 5 100)) = Some ''v'' \<and>
   Local_Get 10 ''k'' (Local_Set 4 ''k'' ''v'' (NewLocalCache 5 100)) = None"
proof -
  have f: "\<not> full_for ''k'' (NewLocalCache 5 100)" by code_simp
  have t: "ttl (NewLocalCache 5 100) = 5" by (simp add: NewLocalCache_def)
  note P = local_cache_refines_map [OF local_inv_new [of 5 100] iteration_order_id,
      of _ "''k''" 4 "''k''" "''v''"]
  show ?thesis using P [of 9] P [of 10] f t by simp
qed

text \<open>
  Claim C14. The capacity is bounded whatever is done: with a positive \<open>maxItems\<close> no sequence of
  operations on a new cache ever holds more than \<open>maxItems\<close> entries, or 32 if that is more.
\<close>

theorem local_cache_capacity:
  assumes "0 < mx" and "local_step\<^sup>*\<^sup>* (NewLocalCache t mx) c"
  shows "int (item_count c) \<le> max mx 32"
proof -
  have c: "local_inv c" "maxItems c = mx"
    using local_steps_inv [OF assms(2) local_inv_new] by (simp_all add: NewLocalCache_def)
  have limit: "0 < perShardLimit c \<and> int localCacheShards * perShardLimit c \<le> max mx 32"
    using assms(1) c(2) by (auto simp: perShardLimit_def localCacheShards_def)
  with item_count_bound [OF c(1)] show ?thesis by linarith
qed

theorem local_cache_capacity_witness:
  "int (item_count (Local_Set 1 ''b'' ''v'' (Local_Set 1 ''a'' ''v'' (NewLocalCache 5 1)))) \<le> 32"
proof -
  have "local_step\<^sup>*\<^sup>* (NewLocalCache 5 1)
      (Local_Set 1 ''b'' ''v'' (Local_Set 1 ''a'' ''v'' (NewLocalCache 5 1)))"
    by (rule rtranclp.rtrancl_into_rtrancl, rule rtranclp.rtrancl_into_rtrancl,
        rule rtranclp.rtrancl_refl) (rule local_step.set)+
  from local_cache_capacity [OF _ this] show ?thesis by simp
qed

text \<open>
  Below 32 the configured capacity is not a bound: with \<open>maxItems\<close> 1 a cache holds two
  entries.
\<close>

theorem small_capacity_is_exceeded:
  "item_count (Local_Set 1 ''b'' ''v'' (Local_Set 1 ''a'' ''v'' (NewLocalCache 5 1))) = 2"
  by code_simp

text \<open>
  A cleanup pass is invisible to readers and bounded: no \<open>Get\<close> at or after the pass
  answers differently, and every shard loses exactly its expired entries or 1000 of them,
  whichever is less.
\<close>

theorem eviction_is_transparent_and_bounded:
  assumes "local_inv c" and "iteration_order ord" and "now \<le> later"
  shows "Local_Get later k (evictExpired ord now c) = Local_Get later k c \<and>
    (\<forall>i < localCacheShards.
      int (length (shard_items c i)) - int (length (shard_items (evictExpired ord now c) i)) =
      min (int (length (filter (\<lambda>(k, v). now > ci_expiredAt v) (shard_items c i)))) 1000)"
proof
  show "Local_Get later k (evictExpired ord now c) = Local_Get later k c"
    using entry_evictExpired [OF assms(1,2), of now k] assms(3)
    by (cases "entry c k") (auto simp: Local_Get_entry)
  show "\<forall>i < localCacheShards.
      int (length (shard_items c i)) - int (length (shard_items (evictExpired ord now c) i)) =
      min (int (length (filter (\<lambda>(k, v). now > ci_expiredAt v) (shard_items c i)))) 1000"
  proof (intro allI impI)
    fix i assume i: "i < localCacheShards"
    then have "keys_distinct (sh_items (shards c ! i))"
      using local_inv_shard [OF assms(1) i] by (simp add: shard_items_def)
    from evict_shard_ok(3) [OF assms(2) this, of now] i assms(1)
    show "int (length (shard_items c i)) - int (length (shard_items (evictExpired ord now c) i)) =
      min (int (length (filter (\<lambda>(k, v). now > ci_expiredAt v) (shard_items c i)))) 1000"
      by (simp add: shard_items_def evictExpired_def local_inv_def expired_count_def
          maxEvictPerShardPerCycle_def)
  qed
qed

theorem eviction_is_transparent_and_bounded_witness:
  "Local_Get 20 ''k'' (evictExpired rev 15 (Local_Set 4 ''k'' ''v'' (NewLocalCache 5 100))) = None \<and>
   length (shard_items (evictExpired rev 15 (Local_Set 4 ''k'' ''v'' (NewLocalCache 5 100)))
     (shardFor ''k'')) = 0"
proof -
  let ?c = "Local_Set 4 ''k'' ''v'' (NewLocalCache 5 100)"
  have g: "Local_Get 20 ''k'' ?c = None" "length (shard_items ?c (shardFor ''k'')) = 1"
    "length (filter (\<lambda>(k, v). 15 > ci_expiredAt v) (shard_items ?c (shardFor ''k''))) = 1"
    by code_simp+
  show ?thesis
    using eviction_is_transparent_and_bounded
      [OF local_inv_Set [OF local_inv_new, of 4 "''k''" "''v''" 5 100] iteration_order_rev, of 15 20 "''k''"]
      g shardFor_less [of "''k''"] by auto
qed

text \<open>
  In every sequence of reads and writes on a new local cache, a value read for a key is
  one that was written under that key.
\<close>

theorem local_cache_reads_what_was_set:
  assumes "cache_run (\<lambda>now k c. (Local_Get now k c, c)) Local_Set os (NewLocalCache t mx) = (rs, c)"
    and "(k, Some v) \<in> set rs"
  shows "\<exists>now. Putting now k v \<in> set os"
  using lc.run_reads_what_was_put [OF local_inv_new assms] by (simp add: entry_new)

theorem local_cache_reads_what_was_set_witness:
  "\<exists>now. Putting now ''k'' ''v'' \<in> set [Putting 1 ''k'' ''v'', Getting 2 ''k'']"
proof -
  have "snd (hd (fst (cache_run (\<lambda>now k c. (Local_Get now k c, c)) Local_Set
      [Putting 1 ''k'' ''v'', Getting 2 ''k''] (NewLocalCache 5 100)))) = Some ''v''" by code_simp
  then have "(''k'', Some ''v'') \<in> set (fst (cache_run (\<lambda>now k c. (Local_Get now k c, c)) Local_Set
      [Putting 1 ''k'' ''v'', Getting 2 ''k''] (NewLocalCache 5 100)))" by simp
  then show ?thesis
    by (rule local_cache_reads_what_was_set [OF prod.collapse [symmetric]])
qed

end
