(* ===== verification/MultiLevelCache.thy ===== *)
theory MultiLevelCache
  imports CircuitBreaker LocalCache Errors
begin

text \<open>
  \<open>redis_cache.go\<close> and \<open>multi_level_cache.go\<close> of \<open>internal/infrastructure/cache\<close>. The Redis client
  is a library and the server another program: both are a parameter, a record of the commands
  the code sends, each a function of the world behind the client \<open>'r\<close> (the server's data, its
  clock, the network). An operation reads the clock before the Redis command (\<open>now\<close>) and after
  it (\<open>later\<close>).
\<close>

section \<open>The Redis client\<close>

record 'r redis_client =
  rc_get :: "gostring \<Rightarrow> 'r \<Rightarrow> bytes result \<times> 'r"
  rc_set :: "gostring \<Rightarrow> bytes \<Rightarrow> duration \<Rightarrow> 'r \<Rightarrow> error option \<times> 'r"
  rc_del :: "gostring \<Rightarrow> 'r \<Rightarrow> error option \<times> 'r"
  rc_scan :: "64 word \<Rightarrow> gostring \<Rightarrow> int \<Rightarrow> 'r \<Rightarrow> (gostring list \<times> 64 word) result \<times> 'r"
  rc_unlink_all :: "gostring list \<Rightarrow> 'r \<Rightarrow> error option \<times> 'r"

text \<open>
  What is relied on of Redis: \<open>GET\<close> returns a value that is stored under the key, \<open>SET\<close> stores
  at most the given value under the given key, and no other command stores anything.
\<close>

definition redis_faithful :: "'r redis_client \<Rightarrow> ('r \<Rightarrow> gostring \<Rightarrow> bytes \<Rightarrow> bool) \<Rightarrow> bool" where
  "redis_faithful client stored \<longleftrightarrow>
     (\<forall>k r v r'. rc_get client k r = (Inr v, r') \<longrightarrow> stored r k v) \<and>
     (\<forall>k r k' v'. stored (snd (rc_get client k r)) k' v' \<longrightarrow> stored r k' v') \<and>
     (\<forall>k v t r k' v'. stored (snd (rc_set client k v t r)) k' v' \<longrightarrow> stored r k' v' \<or> k' = k \<and> v' = v) \<and>
     (\<forall>k r k' v'. stored (snd (rc_del client k r)) k' v' \<longrightarrow> stored r k' v') \<and>
     (\<forall>cur p n r k' v'. stored (snd (rc_scan client cur p n r)) k' v' \<longrightarrow> stored r k' v') \<and>
     (\<forall>ks r k' v'. stored (snd (rc_unlink_all client ks r)) k' v' \<longrightarrow> stored r k' v')"

section \<open>RedisCache\<close>

definition Redis_Get :: "'r redis_client \<Rightarrow> gostring \<Rightarrow> 'r \<Rightarrow> bytes result \<times> 'r" where
  "Redis_Get client key r = rc_get client key r"

definition Redis_Set :: "'r redis_client \<Rightarrow> duration \<Rightarrow> gostring \<Rightarrow> bytes \<Rightarrow> 'r \<Rightarrow> error option \<times> 'r" where
  "Redis_Set client t key value r = rc_set client key value t r"

definition Redis_Delete :: "'r redis_client \<Rightarrow> gostring \<Rightarrow> 'r \<Rightarrow> error option \<times> 'r" where
  "Redis_Delete client key r = rc_del client key r"

text \<open>The loop over \<open>SCAN\<close>; \<open>None\<close> where the server's cursors never come back to 0.\<close>

partial_function (option) Redis_scan_loop ::
  "'r redis_client \<Rightarrow> gostring \<Rightarrow> 64 word \<Rightarrow> 'r \<Rightarrow> (error option \<times> 'r) option" where
  "Redis_scan_loop client pfx cursor r =
     (case rc_scan client cursor (pfx @ ''*'') 1000 r of
        (Inl err, r1) \<Rightarrow> Some (Some err, r1)
      | (Inr (keys, nextCursor), r1) \<Rightarrow>
          (case (if length keys > 0 then rc_unlink_all client keys r1 else (None, r1)) of
             (Some err, r2) \<Rightarrow> Some (Some err, r2)
           | (None, r2) \<Rightarrow>
               if nextCursor = 0 then Some (None, r2)
               else Redis_scan_loop client pfx nextCursor r2))"

definition Redis_DeleteByPrefix ::
  "'r redis_client \<Rightarrow> gostring \<Rightarrow> 'r \<Rightarrow> (error option \<times> 'r) option" where
  "Redis_DeleteByPrefix client pfx r = Redis_scan_loop client pfx 0 r"

section \<open>MultiLevelCache\<close>

text \<open>The counters \<open>CacheOpsTotal\<close> and the gauge \<open>CircuitBreakerStateGauge\<close>.\<close>

record cache_metrics =
  l1_hits :: nat
  l1_misses :: nat
  l2_hits :: nat
  l2_misses :: nat
  breaker_gauge :: int

record 'r MultiLevelCache =
  ml_local :: LocalCache
  ml_redis :: 'r
  ml_redis_ttl :: duration
  ml_breaker :: CircuitBreaker
  ml_metrics :: cache_metrics

definition NewMultiLevelCache ::
  "LocalCache \<Rightarrow> 'r \<Rightarrow> duration \<Rightarrow> cache_metrics \<Rightarrow> 'r MultiLevelCache" where
  "NewMultiLevelCache lc r t mt =
     \<lparr>ml_local = lc, ml_redis = r, ml_redis_ttl = t,
      ml_breaker = NewCircuitBreaker 5 (10 * second), ml_metrics = mt\<rparr>"

definition count_op :: "(cache_metrics \<Rightarrow> cache_metrics) \<Rightarrow> 'r MultiLevelCache \<Rightarrow> 'r MultiLevelCache" where
  "count_op f c = c\<lparr>ml_metrics := f (ml_metrics c)\<rparr>"

definition record_failure :: "instant \<Rightarrow> 'r MultiLevelCache \<Rightarrow> 'r MultiLevelCache" where
  "record_failure now c = c\<lparr>ml_breaker := RecordFailure now (ml_breaker c)\<rparr>"

definition record_success :: "'r MultiLevelCache \<Rightarrow> 'r MultiLevelCache" where
  "record_success c = c\<lparr>ml_breaker := RecordSuccess (ml_breaker c)\<rparr>"

definition updateBreakerMetric :: "'r MultiLevelCache \<Rightarrow> 'r MultiLevelCache" where
  "updateBreakerMetric c =
     (if IsOpen (ml_breaker c) then count_op (breaker_gauge_update (\<lambda>_. 1)) c
      else count_op (breaker_gauge_update (\<lambda>_. 0)) c)"

definition Cache_Get ::
  "'r redis_client \<Rightarrow> instant \<Rightarrow> instant \<Rightarrow> gostring \<Rightarrow> 'r MultiLevelCache \<Rightarrow>
   bytes result \<times> 'r MultiLevelCache" where
  "Cache_Get client now later key c =
     (case Local_Get now key (ml_local c) of
        Some v \<Rightarrow> (Inr v, count_op (l1_hits_update Suc) c)
      | None \<Rightarrow>
          (let c1 = count_op (l1_misses_update Suc) c;
               (ok, br) = Allow now (ml_breaker c1);
               c2 = c1\<lparr>ml_breaker := br\<rparr>
           in if \<not> ok then (Inl RedisNil, c2)
              else
                (let (res, r') = Redis_Get client key (ml_redis c2);
                     c3 = c2\<lparr>ml_redis := r'\<rparr>
                 in case res of
                      Inl err \<Rightarrow>
                        (let c4 = count_op (l2_misses_update Suc) c3 in
                         (Inl err,
                          if err \<noteq> RedisNil then updateBreakerMetric (record_failure later c4) else c4))
                    | Inr v \<Rightarrow>
                        (let c4 = updateBreakerMetric (record_success (count_op (l2_hits_update Suc) c3))
                         in (Inr v, c4\<lparr>ml_local := Local_Set later key v (ml_local c4)\<rparr>)))))"

definition Cache_Set ::
  "'r redis_client \<Rightarrow> instant \<Rightarrow> instant \<Rightarrow> gostring \<Rightarrow> bytes \<Rightarrow> 'r MultiLevelCache \<Rightarrow>
   error option \<times> 'r MultiLevelCache" where
  "Cache_Set client now later key value c =
     (let c1 = c\<lparr>ml_local := Local_Set now key value (ml_local c)\<rparr>;
          (ok, br) = Allow now (ml_breaker c1);
          c2 = c1\<lparr>ml_breaker := br\<rparr>
      in if \<not> ok then (None, c2)
         else
           (let (err, r') = Redis_Set client (ml_redis_ttl c2) key value (ml_redis c2);
                c3 = c2\<lparr>ml_redis := r'\<rparr>
            in case err of
                 Some _ \<Rightarrow> (None, record_failure later c3)
               | None \<Rightarrow> (None, record_success c3)))"

definition Invalidate ::
  "'r redis_client \<Rightarrow> instant \<Rightarrow> instant \<Rightarrow> gostring \<Rightarrow> 'r MultiLevelCache \<Rightarrow>
   error option \<times> 'r MultiLevelCache" where
  "Invalidate client now later key c =
     (let c1 = c\<lparr>ml_local := Local_Delete key (ml_local c)\<rparr>;
          (ok, br) = Allow now (ml_breaker c1);
          c2 = c1\<lparr>ml_breaker := br\<rparr>
      in if \<not> ok then (None, c2)
         else
           (let (err, r') = Redis_Delete client key (ml_redis c2);
                c3 = c2\<lparr>ml_redis := r'\<rparr>
            in case err of
                 Some _ \<Rightarrow> (None, record_failure later c3)
               | None \<Rightarrow> (None, record_success c3)))"

definition InvalidateByPrefix ::
  "'r redis_client \<Rightarrow> (items \<Rightarrow> items) \<Rightarrow> instant \<Rightarrow> instant \<Rightarrow> gostring \<Rightarrow> 'r MultiLevelCache \<Rightarrow>
   (error option \<times> 'r MultiLevelCache) option" where
  "InvalidateByPrefix client ord now later pfx c =
     (let c1 = c\<lparr>ml_local := Local_DeleteByPrefix ord pfx (ml_local c)\<rparr>;
          (ok, br) = Allow now (ml_breaker c1);
          c2 = c1\<lparr>ml_breaker := br\<rparr>
      in if \<not> ok then Some (None, c2)
         else
           (case Redis_DeleteByPrefix client pfx (ml_redis c2) of
              None \<Rightarrow> None
            | Some (err, r') \<Rightarrow>
                (let c3 = c2\<lparr>ml_redis := r'\<rparr>
                 in Some (case err of
                      Some _ \<Rightarrow> (None, record_failure later c3)
                    | None \<Rightarrow> (None, record_success c3)))))"

definition IsNotFound :: "error \<Rightarrow> bool" where
  "IsNotFound err \<longleftrightarrow> err = RedisNil"

lemmas ml_defs = count_op_def record_failure_def record_success_def updateBreakerMetric_def Let_def
  Redis_Get_def Redis_Set_def Redis_Delete_def

section \<open>The loop over SCAN\<close>

text \<open>The server ends the scan, or a command fails, within \<open>n\<close> rounds.\<close>

fun scan_ends :: "'r redis_client \<Rightarrow> gostring \<Rightarrow> nat \<Rightarrow> 64 word \<Rightarrow> 'r \<Rightarrow> bool" where
  "scan_ends client pfx 0 cursor r = False"
| "scan_ends client pfx (Suc n) cursor r =
     (case rc_scan client cursor (pfx @ ''*'') 1000 r of
        (Inl err, r1) \<Rightarrow> True
      | (Inr (keys, nextCursor), r1) \<Rightarrow>
          (case (if length keys > 0 then rc_unlink_all client keys r1 else (None, r1)) of
             (Some err, r2) \<Rightarrow> True
           | (None, r2) \<Rightarrow> nextCursor = 0 \<or> scan_ends client pfx n nextCursor r2))"

lemma Redis_scan_loop_returns:
  "scan_ends client pfx n cursor r \<Longrightarrow> \<exists>y. Redis_scan_loop client pfx cursor r = Some y"
proof (induction n arbitrary: cursor r)
  case 0
  then show ?case by simp
next
  case (Suc n)
  then show ?case
    by (subst Redis_scan_loop.simps) (auto split: prod.splits sum.splits option.splits if_splits)
qed

lemma faithful_scan:
  "redis_faithful client stored \<Longrightarrow> rc_scan client cur p n r = (x, r1) \<Longrightarrow> stored r1 k v \<Longrightarrow> stored r k v"
  unfolding redis_faithful_def by (metis snd_conv)

lemma faithful_unlink:
  "redis_faithful client stored \<Longrightarrow> rc_unlink_all client ks r = (x, r1) \<Longrightarrow> stored r1 k v \<Longrightarrow>
   stored r k v"
  unfolding redis_faithful_def by (metis snd_conv)

lemma Redis_scan_loop_stored:
  assumes F: "redis_faithful client stored"
  shows "Redis_scan_loop client pfx cursor r = Some y \<Longrightarrow> stored (snd y) k v \<Longrightarrow> stored r k v"
proof -
  let ?P = "\<lambda>c p u r y. c = client \<longrightarrow> stored (snd y) k v \<longrightarrow> stored r k v"
  assume e: "Redis_scan_loop client pfx cursor r = Some y" and st: "stored (snd y) k v"
  have "?P client pfx cursor r y"
  proof (rule Redis_scan_loop.raw_induct [where P = ?P, OF _ e], intro impI)
    fix f c p u r y
    assume ih: "\<And>c p u r y. f c p u r = Some y \<Longrightarrow> ?P c p u r y" and c: "c = client"
      and st: "stored (snd y) k v"
      and body: "(case rc_scan c u (p @ ''*'') 1000 r of
         (Inl err, r1) \<Rightarrow> Some (Some err, r1)
       | (Inr (keys, nextCursor), r1) \<Rightarrow>
           (case (if 0 < length keys then rc_unlink_all c keys r1 else (None, r1)) of
              (None, r2) \<Rightarrow> if nextCursor = 0 then Some (None, r2) else f c p nextCursor r2
            | (Some err, r2) \<Rightarrow> Some (Some err, r2))) = Some y"
    obtain x r1 where s: "rc_scan client u (p @ ''*'') 1000 r = (x, r1)" by force
    have "stored r1 k v"
    proof (cases x)
      case (Inl err)
      then show ?thesis using body st s c by auto
    next
      case (Inr kn)
      obtain ks nc where kn: "kn = (ks, nc)" by force
      obtain e r2 where u: "(if 0 < length ks then rc_unlink_all client ks r1 else (None, r1)) = (e, r2)"
        by force
      have "(case e of None \<Rightarrow> if nc = 0 then Some (None, r2) else f client p nc r2
          | Some err \<Rightarrow> Some (Some err, r2)) = Some y"
        using body unfolding c s Inr kn sum.case prod.case u .
      then have "stored r2 k v"
        using st ih [of client p nc r2 y] by (auto split: option.splits if_splits)
      then show ?thesis using u faithful_unlink [OF F] by (auto split: if_splits)
    qed
    then show "stored r k v" by (rule faithful_scan [OF F s])
  qed
  with st show "stored r k v" by simp
qed

section \<open>What the two levels hold\<close>

definition ml_holds :: "('r \<Rightarrow> gostring \<Rightarrow> bytes \<Rightarrow> bool) \<Rightarrow> 'r MultiLevelCache \<Rightarrow> gostring \<Rightarrow> bytes \<Rightarrow> bool" where
  "ml_holds stored c k v \<longleftrightarrow>
     (\<exists>item. entry (ml_local c) k = Some item \<and> ci_value item = v) \<or> stored (ml_redis c) k v"

definition ml_inv ::
  "'r redis_client \<Rightarrow> ('r \<Rightarrow> gostring \<Rightarrow> bytes \<Rightarrow> bool) \<Rightarrow> 'r MultiLevelCache \<Rightarrow> bool" where
  "ml_inv client stored c \<longleftrightarrow> redis_faithful client stored \<and> local_inv (ml_local c)"

text \<open>The error of a read is a miss to the caller.\<close>

definition ml_read ::
  "'r redis_client \<Rightarrow> (instant \<Rightarrow> instant) \<Rightarrow> instant \<Rightarrow> gostring \<Rightarrow> 'r MultiLevelCache \<Rightarrow>
   bytes option \<times> 'r MultiLevelCache" where
  "ml_read client later now key c =
     (case Cache_Get client now (later now) key c of
        (Inr v, c') \<Rightarrow> (Some v, c') | (Inl _, c') \<Rightarrow> (None, c'))"

definition ml_write ::
  "'r redis_client \<Rightarrow> (instant \<Rightarrow> instant) \<Rightarrow> instant \<Rightarrow> gostring \<Rightarrow> bytes \<Rightarrow> 'r MultiLevelCache \<Rightarrow>
   'r MultiLevelCache" where
  "ml_write client later now key v c = snd (Cache_Set client now (later now) key v c)"

lemma redis_get_faithful:
  assumes "redis_faithful client stored" "rc_get client k r = (x, r')"
  shows "x = Inr v \<Longrightarrow> stored r k v" "stored r' k' v' \<Longrightarrow> stored r k' v'"
  using assms unfolding redis_faithful_def by (metis, metis snd_conv)

lemma redis_set_faithful:
  assumes "redis_faithful client stored" "rc_set client k v t r = (x, r')" "stored r' k' v'"
  shows "stored r k' v' \<or> k' = k \<and> v' = v"
  using assms unfolding redis_faithful_def by (metis snd_conv)

lemma ml_select [simp]:
  "ml_local (count_op f c) = ml_local c" "ml_redis (count_op f c) = ml_redis c"
  "ml_breaker (count_op f c) = ml_breaker c" "ml_redis_ttl (count_op f c) = ml_redis_ttl c"
  "ml_local (record_failure t c) = ml_local c" "ml_redis (record_failure t c) = ml_redis c"
  "ml_local (record_success c) = ml_local c" "ml_redis (record_success c) = ml_redis c"
  "ml_local (updateBreakerMetric c) = ml_local c" "ml_redis (updateBreakerMetric c) = ml_redis c"
  by (simp_all add: ml_defs)

text \<open>What a read and a write leave in the two levels.\<close>

lemma Cache_Get_parts:
  assumes "Cache_Get client now later k c = (res, c')"
  obtains v where "res = Inr v" "Local_Get now k (ml_local c) = Some v" "ml_local c' = ml_local c"
      "ml_redis c' = ml_redis c"
  | "res = Inl RedisNil" "ml_local c' = ml_local c" "ml_redis c' = ml_redis c"
  | v where "res = Inr v" "rc_get client k (ml_redis c) = (Inr v, ml_redis c')"
      "ml_local c' = Local_Set later k v (ml_local c)"
  | err where "res = Inl err" "rc_get client k (ml_redis c) = (Inl err, ml_redis c')"
      "ml_local c' = ml_local c"
proof (cases "Local_Get now k (ml_local c)")
  case (Some v)
  then show ?thesis using assms that(1) by (auto simp: Cache_Get_def)
next
  case None
  obtain ok br where a: "Allow now (ml_breaker c) = (ok, br)" by force
  obtain x r' where g: "rc_get client k (ml_redis c) = (x, r')" by force
  show ?thesis
  proof (cases ok)
    case False
    with assms None a show ?thesis by (intro that(2)) (auto simp: Cache_Get_def Let_def)
  next
    case True
    show ?thesis
    proof (cases x)
      case (Inl err)
      have "ml_redis c' = r'" "ml_local c' = ml_local c" "res = Inl err"
        using assms None a g True Inl by (auto simp: Cache_Get_def Let_def Redis_Get_def)
      with g Inl show ?thesis using that(4) by simp
    next
      case (Inr v)
      have "ml_redis c' = r'" "ml_local c' = Local_Set later k v (ml_local c)" "res = Inr v"
        using assms None a g True Inr by (auto simp: Cache_Get_def Let_def Redis_Get_def)
      with g Inr show ?thesis using that(3) by simp
    qed
  qed
qed

lemma Cache_Set_parts:
  assumes "Cache_Set client now later k v c = (res, c')"
  shows "res = None" "ml_local c' = Local_Set now k v (ml_local c)"
    "ml_redis c' = ml_redis c \<or>
     (\<exists>x. rc_set client k v (ml_redis_ttl c) (ml_redis c) = (x, ml_redis c'))"
  using assms
  by (auto simp: Cache_Set_def Redis_Set_def Let_def split: prod.splits option.splits if_splits)

lemma holds_Local_Set:
  assumes "local_inv l" "entry (Local_Set now key v l) k = Some item"
  shows "entry l k = Some item \<or> k = key \<and> ci_value item = v"
  using assms(2) unfolding entry_Local_Set [OF assms(1)] by (auto split: if_splits)

lemma holds_Local_Get:
  "Local_Get now k l = Some v \<Longrightarrow> \<exists>item. entry l k = Some item \<and> ci_value item = v"
  by (auto simp: Local_Get_entry split: option.splits if_splits)

lemma Cache_Get_ok:
  assumes "ml_inv client stored c" "Cache_Get client now later k c = (res, c')"
  shows "ml_inv client stored c'" "res = Inr v \<Longrightarrow> ml_holds stored c k v"
    "ml_holds stored c' k' v' \<Longrightarrow> ml_holds stored c k' v'"
proof -
  have F: "redis_faithful client stored" and L: "local_inv (ml_local c)"
    using assms(1) by (simp_all add: ml_inv_def)
  from assms(2) have "ml_inv client stored c' \<and> (\<forall>v. res = Inr v \<longrightarrow> ml_holds stored c k v) \<and>
      (\<forall>k' v'. ml_holds stored c' k' v' \<longrightarrow> ml_holds stored c k' v')"
  proof (cases rule: Cache_Get_parts)
    case (1 w)
    then show ?thesis using F L holds_Local_Get [OF 1(2)] by (auto simp: ml_inv_def ml_holds_def)
  next
    case 2
    then show ?thesis using F L by (auto simp: ml_inv_def ml_holds_def)
  next
    case (3 w)
    note G = redis_get_faithful [OF F 3(2)]
    from G(1) [OF refl] have w: "ml_holds stored c k w" by (simp add: ml_holds_def)
    have "ml_holds stored c k' v'" if h: "ml_holds stored c' k' v'" for k' v'
      using h w G(2) [of k' v'] holds_Local_Set [OF L, of later k w k'] 3(3)
      unfolding ml_holds_def by metis
    with w 3 F L show ?thesis by (simp add: ml_inv_def inv_intros)
  next
    case (4 err)
    note G = redis_get_faithful(2) [OF F 4(2)]
    with 4 F L show ?thesis by (auto simp: ml_inv_def ml_holds_def)
  qed
  then show "ml_inv client stored c'" "res = Inr v \<Longrightarrow> ml_holds stored c k v"
    "ml_holds stored c' k' v' \<Longrightarrow> ml_holds stored c k' v'" by blast+
qed

lemma Cache_Set_ok:
  assumes "ml_inv client stored c" "Cache_Set client now later k v c = (res, c')"
  shows "ml_inv client stored c'"
    "ml_holds stored c' k' v' \<Longrightarrow> ml_holds stored c k' v' \<or> k' = k \<and> v' = v"
proof -
  have F: "redis_faithful client stored" and L: "local_inv (ml_local c)"
    using assms(1) by (simp_all add: ml_inv_def)
  note P = Cache_Set_parts [OF assms(2)]
  show "ml_inv client stored c'" using F L P(2) by (simp add: ml_inv_def inv_intros)
  have "stored (ml_redis c') k' v' \<Longrightarrow> stored (ml_redis c) k' v' \<or> k' = k \<and> v' = v"
    using P(3) redis_set_faithful [OF F] by metis
  then show "ml_holds stored c' k' v' \<Longrightarrow> ml_holds stored c k' v' \<or> k' = k \<and> v' = v"
    using holds_Local_Set [OF L, of now k v k'] P(2) unfolding ml_holds_def by metis
qed

interpretation ml: byte_cache "ml_inv client stored" "ml_holds stored" "ml_read client later"
  "ml_write client later" for client stored later
proof unfold_locales
  fix c now k r c' and v and k' v'
  assume i: "ml_inv client stored c"
  show "ml_inv client stored (ml_write client later now k v c)"
    and "ml_holds stored (ml_write client later now k v c) k' v' \<Longrightarrow>
      ml_holds stored c k' v' \<or> k' = k \<and> v' = v"
    using Cache_Set_ok [OF i prod.collapse [symmetric], of now "later now" k v]
    unfolding ml_write_def by blast+
  {
    assume "ml_read client later now k c = (r, c')"
    then obtain x where x: "Cache_Get client now (later now) k c = (x, c')"
      "r = (case x of Inr v \<Rightarrow> Some v | Inl _ \<Rightarrow> None)"
      by (auto simp: ml_read_def split: prod.splits sum.splits)
    note G = Cache_Get_ok [OF i x(1)]
    show "ml_inv client stored c'" by (rule G(1))
    show "ml_holds stored c' k' v' \<Longrightarrow> ml_holds stored c k' v'" by (rule G(3))
  }
  assume "ml_read client later now k c = (Some v, c')"
  then have "Cache_Get client now (later now) k c = (Inr v, c')"
    by (auto simp: ml_read_def split: prod.splits sum.splits)
  from Cache_Get_ok(2) [OF i this] show "ml_holds stored c k v" by simp
qed

section \<open>Two clients for examples\<close>

text \<open>A server that is one map and always answers, and one that never does.\<close>

definition map_client :: "(gostring, bytes) gomap redis_client" where
  "map_client =
     \<lparr>rc_get = (\<lambda>k r. (case map_of r k of None \<Rightarrow> Inl RedisNil | Some v \<Rightarrow> Inr v, r)),
      rc_set = (\<lambda>k v t r. (None, map_put k v r)),
      rc_del = (\<lambda>k r. (None, map_del k r)),
      rc_scan = (\<lambda>cur p n r. (Inr (filter (\<lambda>k. HasPrefix k (butlast p)) (map fst r), 0), r)),
      rc_unlink_all = (\<lambda>ks r. (None, foldr map_del ks r))\<rparr>"

definition down_client :: "'r redis_client" where
  "down_client =
     (let e = ExternalError ''connection refused'' in
     \<lparr>rc_get = (\<lambda>k r. (Inl e, r)), rc_set = (\<lambda>k v t r. (Some e, r)), rc_del = (\<lambda>k r. (Some e, r)),
      rc_scan = (\<lambda>cur p n r. (Inl e, r)), rc_unlink_all = (\<lambda>ks r. (Some e, r))\<rparr>)"

definition no_metrics :: cache_metrics where
  "no_metrics = \<lparr>l1_hits = 0, l1_misses = 0, l2_hits = 0, l2_misses = 0, breaker_gauge = 0\<rparr>"

definition sample_cache :: "(gostring, bytes) gomap MultiLevelCache" where
  "sample_cache = NewMultiLevelCache (NewLocalCache 5 100) [] 60 no_metrics"

lemma map_of_foldr_map_del: "map_of (foldr map_del ks r) k = (if k \<in> set ks then None else map_of r k)"
  by (induction ks) auto

lemma map_client_faithful: "redis_faithful map_client (\<lambda>r k v. map_of r k = Some v)"
  by (auto simp: redis_faithful_def map_client_def map_of_foldr_map_del split: option.splits if_splits)

section \<open>Properties\<close>

text \<open>
  Claim C8. A value read from the two levels is one that was written under the same key, in every
  sequence of reads and writes, whatever Redis answers, drops, expires or fails to answer, as
  long as it returns nothing that was not stored: the breaker, the backfill of the first level
  and the capacity of its shards never let a value of another key or of nowhere through.
\<close>

theorem cache_reads_what_was_set:
  assumes "redis_faithful client stored" and "\<forall>k v. \<not> stored r k v"
    and "cache_run (ml_read client later) (ml_write client later) os
      (NewMultiLevelCache (NewLocalCache t mx) r rt mt) = (rs, c)"
    and "(k, Some v) \<in> set rs"
  shows "\<exists>now. Putting now k v \<in> set os"
proof -
  have "ml_inv client stored (NewMultiLevelCache (NewLocalCache t mx) r rt mt)"
    using assms(1) by (simp add: ml_inv_def NewMultiLevelCache_def local_inv_new)
  from ml.run_reads_what_was_put [OF this assms(3,4)] assms(2) show ?thesis
    by (simp add: ml_holds_def NewMultiLevelCache_def)
qed

theorem cache_reads_what_was_set_witness:
  "\<exists>now. Putting now ''k'' ''v'' \<in> set [Putting 1 ''k'' ''v'', Getting 9 ''k'']"
proof -
  let ?os = "[Putting 1 ''k'' ''v'', Getting 9 ''k'']"
  let ?run = "cache_run (ml_read map_client (\<lambda>t. t)) (ml_write map_client (\<lambda>t. t)) ?os
    (NewMultiLevelCache (NewLocalCache 5 100) [] 60 no_metrics)"
  have "fst ?run = [(''k'', Some ''v'')]" by code_simp
  then have m: "(''k'', Some ''v'') \<in> set (fst ?run)" by simp
  have none: "\<forall>k v. \<not> map_of ([] :: (gostring, bytes) gomap) k = Some v" by simp
  show ?thesis
    by (rule cache_reads_what_was_set [OF map_client_faithful none prod.collapse [symmetric] m])
qed

text \<open>
  Claim C12. While the breaker is open and the timeout has not passed, Redis is left alone: no
  operation changes or queries it, reads are answered from the first level or as a miss, writes
  and invalidations reach the first level, and none reports an error.
\<close>

theorem open_breaker_isolates_redis:
  assumes "IsOpen (ml_breaker c)"
    and "now - lastFailTime (ml_breaker c) \<le> resetTimeout (ml_breaker c)"
  shows "\<exists>c1 c2 c3 c4.
    Cache_Get client now later k c =
      (case Local_Get now k (ml_local c) of Some v \<Rightarrow> Inr v | None \<Rightarrow> Inl RedisNil, c1) \<and>
    ml_local c1 = ml_local c \<and>
    Cache_Set client now later k v c = (None, c2) \<and> ml_local c2 = Local_Set now k v (ml_local c) \<and>
    Invalidate client now later k c = (None, c3) \<and> ml_local c3 = Local_Delete k (ml_local c) \<and>
    InvalidateByPrefix client ord now later p c = Some (None, c4) \<and>
      ml_local c4 = Local_DeleteByPrefix ord p (ml_local c) \<and>
    (\<forall>c' \<in> {c1, c2, c3, c4}. ml_redis c' = ml_redis c \<and> ml_breaker c' = ml_breaker c)"
proof -
  have a: "Allow now (ml_breaker c) = (False, ml_breaker c)"
    using assms by (simp add: IsOpen_def breaker_defs)
  have g: "\<exists>c1. Cache_Get client now later k c =
      (case Local_Get now k (ml_local c) of Some v \<Rightarrow> Inr v | None \<Rightarrow> Inl RedisNil, c1) \<and>
      ml_local c1 = ml_local c \<and> ml_redis c1 = ml_redis c \<and> ml_breaker c1 = ml_breaker c"
    using a by (auto simp: Cache_Get_def Let_def split: option.splits)
  from a g show ?thesis
    by (auto simp: Cache_Set_def Invalidate_def InvalidateByPrefix_def Let_def)
qed

theorem open_breaker_isolates_redis_witness:
  "\<exists>c1. Cache_Get map_client 8 8 ''k'' (record_failure 7 (record_failure 7 (record_failure 7
      (record_failure 7 (record_failure 7 sample_cache))))) = (Inl RedisNil, c1) \<and> ml_redis c1 = []"
proof -
  let ?c = "record_failure 7 (record_failure 7 (record_failure 7 (record_failure 7
    (record_failure 7 sample_cache))))"
  have o: "IsOpen (ml_breaker ?c)"
    "8 - lastFailTime (ml_breaker ?c) \<le> resetTimeout (ml_breaker ?c)"
    "Local_Get 8 ''k'' (ml_local ?c) = None" "ml_redis ?c = []" by code_simp+
  from open_breaker_isolates_redis [OF o(1,2), of map_client 8 "''k''" "''v''" "\<lambda>m. m" "''p''"]
  show ?thesis unfolding o(3,4) by auto
qed

text \<open>
  A write is never an error and is served from the first level from then on, without
  Redis, until its time to live has passed, unless the key is new and its shard full.
\<close>

theorem written_value_is_served_locally:
  assumes "local_inv (ml_local c)" and "\<not> full_for k (ml_local c)"
    and "t \<le> now + ttl (ml_local c)"
  shows "\<exists>c1 c2. Cache_Set client now later k v c = (None, c1) \<and>
    Cache_Get client' t later' k c1 = (Inr v, c2) \<and>
    ml_redis c2 = ml_redis c1 \<and> ml_breaker c2 = ml_breaker c1"
proof -
  obtain res c1 where s: "Cache_Set client now later k v c = (res, c1)" by force
  note P = Cache_Set_parts [OF s]
  have "Local_Get t k (ml_local c1) = Some v"
    using assms P(2) by (simp add: Local_Get_entry entry_Local_Set)
  with s P(1) show ?thesis by (auto simp: Cache_Get_def)
qed

theorem written_value_is_served_locally_witness:
  "\<exists>c1 c2. Cache_Set down_client 1 2 ''k'' ''v'' sample_cache = (None, c1) \<and>
     Cache_Get down_client 4 5 ''k'' c1 = (Inr ''v'', c2) \<and> ml_redis c2 = ml_redis c1"
proof -
  have s: "ml_local sample_cache = NewLocalCache 5 100"
    by (simp add: sample_cache_def NewMultiLevelCache_def)
  have f: "\<not> full_for ''k'' (ml_local sample_cache)" by code_simp
  have t: "4 \<le> 1 + ttl (ml_local sample_cache)" unfolding s by (simp add: NewLocalCache_def)
  have i: "local_inv (ml_local sample_cache)" unfolding s by (rule local_inv_new)
  from written_value_is_served_locally [OF i f t, of down_client 2 "''v''" down_client 5]
  show ?thesis by blast
qed

text \<open>
  Invalidating by prefix returns, without an error, if the server ends its scan or a
  command fails within some number of rounds, and after it the first level holds no key with
  the prefix, whatever became of the second.
\<close>

theorem InvalidateByPrefix_returns:
  assumes "scan_ends client p n 0 (ml_redis c)" and "local_inv (ml_local c)" and "iteration_order ord"
  shows "\<exists>c'. InvalidateByPrefix client ord now later p c = Some (None, c') \<and>
    (\<forall>k t. Local_Get t k (ml_local c') =
       (if HasPrefix k p then None else Local_Get t k (ml_local c)))"
proof -
  obtain e r' where r: "Redis_DeleteByPrefix client p (ml_redis c) = Some (e, r')"
    using Redis_scan_loop_returns [OF assms(1)] by (auto simp: Redis_DeleteByPrefix_def)
  obtain ok br where a: "Allow now (ml_breaker c) = (ok, br)" by force
  have "\<exists>c'. InvalidateByPrefix client ord now later p c = Some (None, c') \<and>
      ml_local c' = Local_DeleteByPrefix ord p (ml_local c)"
    using r a by (cases ok; cases e) (auto simp: InvalidateByPrefix_def Let_def)
  then show ?thesis
    using entry_DeleteByPrefix [OF assms(2,3)] by (auto simp: Local_Get_entry)
qed

theorem InvalidateByPrefix_returns_witness:
  "\<exists>c'. InvalidateByPrefix map_client rev 3 4 ''filter:'' sample_cache = Some (None, c') \<and>
     Local_Get 3 ''filter:x'' (ml_local c') = None"
proof -
  have e: "scan_ends map_client ''filter:'' 1 0 (ml_redis sample_cache)" by code_simp
  have i: "local_inv (ml_local sample_cache)"
    by (simp add: sample_cache_def NewMultiLevelCache_def local_inv_new)
  have h: "HasPrefix ''filter:x'' ''filter:''" by code_simp
  from InvalidateByPrefix_returns [OF e i iteration_order_rev, of 3 4] h show ?thesis by auto
qed

text \<open>
  An invalidation while the breaker is open reports success and does not last: the
  entry stays in Redis, and once the breaker lets a caller through again it is served.
\<close>

theorem invalidated_key_returns_after_outage:
  "\<exists>c1 c2 c3. Cache_Set map_client 1 1 ''k'' ''v'' sample_cache = (None, c1) \<and>
     Invalidate map_client 8 8 ''k'' (((\<lambda>c. record_failure 7 c) ^^ 5) c1) = (None, c2) \<and>
     Cache_Get map_client (9 + 10 * second) (9 + 10 * second) ''k'' c2 = (Inr ''v'', c3)"
proof -
  let ?c1 = "snd (Cache_Set map_client 1 1 ''k'' ''v'' sample_cache)"
  let ?i = "Invalidate map_client 8 8 ''k'' (((\<lambda>c. record_failure 7 c) ^^ 5) ?c1)"
  let ?t = "9 + 10 * second"
  have "fst (Cache_Set map_client 1 1 ''k'' ''v'' sample_cache) = None" "fst ?i = None"
    "fst (Cache_Get map_client ?t ?t ''k'' (snd ?i)) = Inr ''v''" by code_simp+
  then show ?thesis by (metis prod.collapse)
qed

end
