(* ===== verification/ACModel.thy ===== *)
theory ACModel
  imports Normalizer
begin

text \<open>
  \<open>internal/infrastructure/algorithm/ac_automaton.go\<close>, as it is written. The nodes live in a
  heap (a list indexed by address, in allocation order) because the code links them by
  pointers: \<open>children\<close> is the Go map of a node, \<open>fail\<close> a pointer that may be nil. The root is
  the first node allocated. Loops that follow pointers are \<open>partial_function (option)\<close>: the
  value \<open>None\<close> stands for not returning, or for the panic a nil pointer would give; the theory
  \<open>AhoCorasick\<close> proves that neither happens. The order in which a range over a children map
  visits it is the parameter \<open>ord\<close>, one order per node.
\<close>

type_synonym addr = nat

record wordMeta =
  wm_Text :: gostring
  wm_Length :: int
  wm_Category :: Category
  wm_Level :: RiskLevel

record acNode =
  children :: "(rune, addr) gomap"
  fail :: "addr option"
  outputs :: "wordMeta list"

definition newACNode :: acNode where
  "newACNode = \<lparr>children = [], fail = None, outputs = []\<rparr>"

type_synonym acheap = "acNode list"

record AhoCorasick =
  heap :: acheap
  wordCount :: int

abbreviation (input) root :: addr where
  "root \<equiv> 0"

record WordEntry =
  we_Text :: gostring
  we_Category :: Category
  we_Level :: RiskLevel

type_synonym range_order = "addr \<Rightarrow> (rune \<times> addr) list \<Rightarrow> (rune \<times> addr) list"

section \<open>insert\<close>

text \<open>The loop that walks the trie and allocates what is missing.\<close>

fun insert_walk :: "acheap \<Rightarrow> addr \<Rightarrow> rune list \<Rightarrow> acheap \<times> addr" where
  "insert_walk h cur [] = (h, cur)"
| "insert_walk h cur (r # rs) =
     (case map_of (children (h ! cur)) r of
        None \<Rightarrow>
          (let a = length h;
               h' = h[cur := (h ! cur)\<lparr>children := map_put r a (children (h ! cur))\<rparr>]
           in insert_walk (h' @ [newACNode]) a rs)
      | Some b \<Rightarrow> insert_walk h b rs)"

definition ac_insert :: "unicode_data \<Rightarrow> AhoCorasick \<Rightarrow> WordEntry \<Rightarrow> AhoCorasick" where
  "ac_insert u ac entry =
     (let normalized = Normalize u (we_Text entry) in
      if length normalized = 0 then ac
      else
        let runes = runes_of normalized;
            (h, cur) = insert_walk (heap ac) root runes;
            meta = \<lparr>wm_Text = we_Text entry, wm_Length = int (length runes),
                    wm_Category = we_Category entry, wm_Level = we_Level entry\<rparr>
        in ac\<lparr>heap := h[cur := (h ! cur)\<lparr>outputs := outputs (h ! cur) @ [meta]\<rparr>],
              wordCount := wordCount ac + 1\<rparr>)"

section \<open>buildFailPointers\<close>

text \<open>\<open>for failNode != nil && failNode.children[r] == nil { failNode = failNode.fail }\<close>\<close>

partial_function (option) fail_walk ::
  "acheap \<Rightarrow> rune \<Rightarrow> addr option \<Rightarrow> addr option option" where
  "fail_walk h r failNode =
     (case failNode of
        None \<Rightarrow> Some None
      | Some f \<Rightarrow>
          if map_of (children (h ! f)) r = None then fail_walk h r (fail (h ! f))
          else Some (Some f))"

text \<open>The body of the inner range: the child's fail pointer, then the merged outputs.\<close>

definition link_child :: "acheap \<Rightarrow> addr \<Rightarrow> rune \<Rightarrow> addr \<Rightarrow> acheap option" where
  "link_child h cur r child =
     (case fail_walk h r (fail (h ! cur)) of
        None \<Rightarrow> None
      | Some failNode \<Rightarrow>
          (let target =
                 (case failNode of
                    None \<Rightarrow> root
                  | Some f \<Rightarrow>
                      (let t = the (map_of (children (h ! f)) r) in if t = child then root else t));
               h1 = h[child := (h ! child)\<lparr>fail := Some target\<rparr>];
               out = outputs (h1 ! target)
           in Some (if 0 < length out
                    then h1[child := (h1 ! child)\<lparr>outputs := outputs (h1 ! child) @ out\<rparr>]
                    else h1)))"

fun link_children ::
  "acheap \<Rightarrow> addr \<Rightarrow> addr list \<Rightarrow> (rune \<times> addr) list \<Rightarrow> (acheap \<times> addr list) option" where
  "link_children h cur queue [] = Some (h, queue)"
| "link_children h cur queue ((r, child) # cs) =
     (let queue' = queue @ [child] in
      case link_child h cur r child of
        None \<Rightarrow> None
      | Some h' \<Rightarrow> link_children h' cur queue' cs)"

text \<open>\<open>for len(queue) > 0\<close>\<close>

partial_function (option) bfs_loop :: "range_order \<Rightarrow> acheap \<Rightarrow> addr list \<Rightarrow> acheap option" where
  "bfs_loop ord h queue =
     (case queue of
        [] \<Rightarrow> Some h
      | cur # queue' \<Rightarrow>
          (case link_children h cur queue' (ord cur (children (h ! cur))) of
             None \<Rightarrow> None
           | Some (h', queue'') \<Rightarrow> bfs_loop ord h' queue''))"

text \<open>The first range: the children of the root fail to the root and are queued.\<close>

fun seed_queue :: "acheap \<Rightarrow> addr list \<Rightarrow> (rune \<times> addr) list \<Rightarrow> acheap \<times> addr list" where
  "seed_queue h queue [] = (h, queue)"
| "seed_queue h queue ((r, child) # cs) =
     seed_queue (h[child := (h ! child)\<lparr>fail := Some root\<rparr>]) (queue @ [child]) cs"

definition buildFailPointers :: "range_order \<Rightarrow> acheap \<Rightarrow> acheap option" where
  "buildFailPointers ord h =
     (let (h1, queue) = seed_queue h [] (ord root (children (h ! root))) in bfs_loop ord h1 queue)"

definition NewAhoCorasick ::
  "unicode_data \<Rightarrow> range_order \<Rightarrow> WordEntry list \<Rightarrow> AhoCorasick option" where
  "NewAhoCorasick u ord words =
     (let ac = foldl (ac_insert u) \<lparr>heap = [newACNode], wordCount = 0\<rparr> words in
      case buildFailPointers ord (heap ac) of
        None \<Rightarrow> None
      | Some h \<Rightarrow> Some (ac\<lparr>heap := h\<rparr>))"

section \<open>Search\<close>

text \<open>\<open>for curr != ac.root && curr.children[r] == nil { curr = curr.fail }\<close>\<close>

partial_function (option) follow_fail :: "acheap \<Rightarrow> rune \<Rightarrow> addr \<Rightarrow> addr option" where
  "follow_fail h r cur =
     (if cur \<noteq> root \<and> map_of (children (h ! cur)) r = None then
        (case fail (h ! cur) of None \<Rightarrow> None | Some f \<Rightarrow> follow_fail h r f)
      else Some cur)"

definition match_of :: "nat \<Rightarrow> wordMeta \<Rightarrow> MatchItem" where
  "match_of i meta =
     \<lparr>mi_Word = wm_Text meta, mi_Position = int i - wm_Length meta + 1, mi_EndPos = int i + 1,
      mi_Category = wm_Category meta, mi_Level = wm_Level meta\<rparr>"

fun search_loop ::
  "acheap \<Rightarrow> nat \<Rightarrow> addr \<Rightarrow> MatchItem list \<Rightarrow> rune list \<Rightarrow> MatchItem list option" where
  "search_loop h i cur results [] = Some results"
| "search_loop h i cur results (r # rs) =
     (case follow_fail h r cur of
        None \<Rightarrow> None
      | Some c \<Rightarrow>
          (let next = (case map_of (children (h ! c)) r of Some n \<Rightarrow> n | None \<Rightarrow> c)
           in search_loop h (Suc i) next (results @ map (match_of i) (outputs (h ! next))) rs))"

text \<open>\<open>ac.root\<close> is never nil: both constructors allocate it. A nil result slice is \<open>[]\<close>.\<close>

definition SearchNormalized :: "AhoCorasick \<Rightarrow> gostring \<Rightarrow> MatchItem list option" where
  "SearchNormalized ac normalized =
     (if wordCount ac = 0 then Some [] else search_loop (heap ac) 0 root [] (runes_of normalized))"

definition Search :: "unicode_data \<Rightarrow> AhoCorasick \<Rightarrow> gostring \<Rightarrow> MatchItem list option" where
  "Search u ac text = SearchNormalized ac (Normalize u text)"

definition ac_WordCount :: "AhoCorasick \<Rightarrow> int" where
  "ac_WordCount ac = wordCount ac"

section \<open>The reference matcher\<close>

text \<open>
  What the automaton should compute, by brute force and with no automaton: at every end
  position, from the longest suffix of the text read so far to the shortest, every word of the
  list whose normalised text is that suffix, in the order of the list.
\<close>

definition pattern_of :: "unicode_data \<Rightarrow> WordEntry \<Rightarrow> rune list" where
  "pattern_of u w = runes_of (Normalize u (we_Text w))"

definition meta_of :: "unicode_data \<Rightarrow> WordEntry \<Rightarrow> wordMeta" where
  "meta_of u w =
     \<lparr>wm_Text = we_Text w, wm_Length = int (length (pattern_of u w)),
      wm_Category = we_Category w, wm_Level = we_Level w\<rparr>"

definition metas_for :: "unicode_data \<Rightarrow> WordEntry list \<Rightarrow> rune list \<Rightarrow> wordMeta list" where
  "metas_for u words p =
     (if p = [] then [] else map (meta_of u) (filter (\<lambda>w. pattern_of u w = p) words))"

fun over_suffixes :: "(rune list \<Rightarrow> 'a list) \<Rightarrow> rune list \<Rightarrow> 'a list" where
  "over_suffixes M [] = M []"
| "over_suffixes M (x # xs) = M (x # xs) @ over_suffixes M xs"

definition reference_search ::
  "unicode_data \<Rightarrow> WordEntry list \<Rightarrow> rune list \<Rightarrow> MatchItem list" where
  "reference_search u words text =
     concat (map (\<lambda>i. map (match_of i) (over_suffixes (metas_for u words) (take (Suc i) text)))
       [0..<length text])"

end
