(* ===== verification/ACTrie.thy ===== *)
theory ACTrie
  imports ACModel
begin

text \<open>
  The trie phase. Ghost labels give every node the path that leads to it; \<open>trie_ok\<close> says that
  the children maps are exactly the one-rune extensions between labels, and \<open>insert\<close> keeps it
  while it records each word at the node its pattern labels. The first section is the theory of
  the longest suffix that lies in a prefix-closed set, which is what fail pointers compute.
\<close>

section \<open>Longest suffixes in a prefix-closed set\<close>

fun lsuf :: "rune list set \<Rightarrow> rune list \<Rightarrow> rune list" where
  "lsuf S [] = []"
| "lsuf S (x # xs) = (if x # xs \<in> S then x # xs else lsuf S xs)"

definition prefix_closed :: "rune list set \<Rightarrow> bool" where
  "prefix_closed S \<longleftrightarrow> [] \<in> S \<and> (\<forall>xs r. xs @ [r] \<in> S \<longrightarrow> xs \<in> S)"

lemma lsuf_id: "xs \<in> S \<Longrightarrow> lsuf S xs = xs"
  by (cases xs) auto

lemma lsuf_in: "prefix_closed S \<Longrightarrow> lsuf S xs \<in> S"
  by (induction xs) (auto simp: prefix_closed_def)

lemma length_lsuf: "length (lsuf S xs) \<le> length xs"
  by (induction xs) auto

lemma length_lsuf_tl: "xs \<noteq> [] \<Longrightarrow> length (lsuf S (tl xs)) < length xs"
  by (cases xs) (auto simp: less_Suc_eq_le length_lsuf)

lemma suffix_lsuf: "suffix (lsuf S xs) xs"
  by (induction xs) (auto simp: suffix_Cons)

lemma lsuf_snoc:
  assumes "prefix_closed S"
  shows "lsuf S (xs @ [r]) = lsuf S (lsuf S xs @ [r])"
proof (induction xs)
  case Nil
  then show ?case by simp
next
  case (Cons x xs)
  show ?case
  proof (cases "x # xs \<in> S")
    case True
    then show ?thesis by simp
  next
    case False
    with assms have "(x # xs) @ [r] \<notin> S" unfolding prefix_closed_def by blast
    with False Cons show ?thesis by simp
  qed
qed

text \<open>One step of the walk along fail pointers: extend the label, or fall back to its fail label.\<close>

lemma lsuf_extend_hit: "l @ [r] \<in> S \<Longrightarrow> lsuf S (l @ [r]) = l @ [r]"
  by (rule lsuf_id)

lemma lsuf_extend_root: "[r] \<notin> S \<Longrightarrow> lsuf S [r] = []"
  by simp

lemma lsuf_extend_miss:
  assumes "prefix_closed S" "l \<noteq> []" "l @ [r] \<notin> S"
  shows "lsuf S (l @ [r]) = lsuf S (lsuf S (tl l) @ [r])"
proof -
  from assms(2,3) have "lsuf S (l @ [r]) = lsuf S (tl l @ [r])"
    by (cases l) auto
  then show ?thesis using lsuf_snoc [OF assms(1), of "tl l" r] by simp
qed

lemma over_suffixes_lsuf:
  assumes "\<And>p. p \<notin> S \<Longrightarrow> M p = []"
  shows "over_suffixes M (lsuf S xs) = over_suffixes M xs"
  using assms by (induction xs) auto

lemma over_suffixes_split:
  assumes "\<And>p. p \<notin> S \<Longrightarrow> M p = []" "xs \<noteq> []"
  shows "over_suffixes M xs = M xs @ over_suffixes M (lsuf S (tl xs))"
  using assms by (cases xs) (auto simp: over_suffixes_lsuf)

lemma set_over_suffixes: "set (over_suffixes M xs) = (\<Union>p \<in> {p. suffix p xs}. set (M p))"
proof (induction xs)
  case Nil
  then show ?case by simp
next
  case (Cons x xs)
  have "{p. suffix p (x # xs)} = insert (x # xs) {p. suffix p xs}" by (auto simp: suffix_Cons)
  with Cons show ?case by simp
qed

section \<open>The trie and its labels\<close>

definition trie_ok :: "acheap \<Rightarrow> rune list list \<Rightarrow> bool" where
  "trie_ok h L \<longleftrightarrow>
     length L = length h \<and> h \<noteq> [] \<and> L ! 0 = [] \<and> distinct L \<and>
     (\<forall>a < length h. keys_distinct (children (h ! a))) \<and>
     (\<forall>a < length h. \<forall>r b.
        map_of (children (h ! a)) r = Some b \<longleftrightarrow> b < length h \<and> L ! b = L ! a @ [r]) \<and>
     (\<forall>b < length h. b \<noteq> 0 \<longrightarrow> (\<exists>a < length h. \<exists>r. L ! b = L ! a @ [r]))"

lemma trie_okD:
  assumes "trie_ok h L"
  shows "length L = length h" "0 < length h" "L ! 0 = []" "distinct L"
  using assms by (auto simp: trie_ok_def)

lemma trie_ok_keys: "trie_ok h L \<Longrightarrow> a < length h \<Longrightarrow> keys_distinct (children (h ! a))"
  by (auto simp: trie_ok_def)

lemma trie_ok_child:
  "trie_ok h L \<Longrightarrow> a < length h \<Longrightarrow>
   map_of (children (h ! a)) r = Some b \<longleftrightarrow> b < length h \<and> L ! b = L ! a @ [r]"
  by (simp add: trie_ok_def)

lemma trie_ok_parent:
  "trie_ok h L \<Longrightarrow> b < length h \<Longrightarrow> b \<noteq> 0 \<Longrightarrow> \<exists>a < length h. \<exists>r. L ! b = L ! a @ [r]"
  by (simp add: trie_ok_def)

lemma trie_ok_label_inj:
  "trie_ok h L \<Longrightarrow> a < length h \<Longrightarrow> b < length h \<Longrightarrow> L ! a = L ! b \<longleftrightarrow> a = b"
  by (simp add: trie_ok_def nth_eq_iff_index_eq)

lemma trie_ok_label_Nil: "trie_ok h L \<Longrightarrow> a < length h \<Longrightarrow> L ! a = [] \<longleftrightarrow> a = 0"
  using trie_ok_label_inj [of h L a 0] trie_okD [of h L] by auto

lemma trie_ok_lookup_None:
  "trie_ok h L \<Longrightarrow> a < length h \<Longrightarrow>
   map_of (children (h ! a)) r = None \<longleftrightarrow> L ! a @ [r] \<notin> set L"
  using trie_ok_child [of h L a r] trie_okD(1) [of h L]
  by (metis in_set_conv_nth not_None_eq)

lemma trie_ok_prefix_closed:
  assumes "trie_ok h L"
  shows "prefix_closed (set L)"
  unfolding prefix_closed_def
proof (intro conjI allI impI)
  show "[] \<in> set L" using trie_okD [OF assms] by (metis nth_mem)
next
  fix xs r assume "xs @ [r] \<in> set L"
  then obtain b where b: "b < length h" "L ! b = xs @ [r]"
    using trie_okD(1) [OF assms] by (auto simp: in_set_conv_nth)
  then have "b \<noteq> 0" using trie_okD(3) [OF assms] by (metis snoc_eq_iff_butlast)
  then obtain a where "a < length h" "L ! a = xs"
    using trie_ok_parent [OF assms b(1)] b(2) by auto
  then show "xs \<in> set L" using trie_okD(1) [OF assms] by (metis nth_mem)
qed

text \<open>Changing fail pointers and outputs leaves the trie as it is.\<close>

lemma trie_ok_cong:
  assumes "trie_ok h L" "length h' = length h"
    and "\<And>a. a < length h \<Longrightarrow> children (h' ! a) = children (h ! a)"
  shows "trie_ok h' L"
proof -
  have "h' \<noteq> []" using assms(1,2) by (auto simp: trie_ok_def)
  then show ?thesis using assms by (simp add: trie_ok_def)
qed

lemma trie_ok_update:
  "trie_ok h L \<Longrightarrow> children n = children (h ! c) \<Longrightarrow> trie_ok (h[c := n]) L"
  by (cases "c < length h") (auto intro: trie_ok_cong [of h] simp: nth_list_update)

lemma trie_ok_extend:
  assumes T: "trie_ok h L" and c: "c < length h"
    and none: "map_of (children (h ! c)) r = None"
  shows "trie_ok (h[c := (h ! c)\<lparr>children := map_put r (length h) (children (h ! c))\<rparr>] @ [newACNode])
           (L @ [L ! c @ [r]])" (is "trie_ok ?h ?L")
proof -
  note len = trie_okD(1) [OF T]
  have fresh: "L ! c @ [r] \<notin> set L" using trie_ok_lookup_None [OF T c] none by simp
  have lab: "\<And>a. a < length h \<Longrightarrow> ?L ! a = L ! a" and new: "?L ! length h = L ! c @ [r]"
    using len by (simp_all add: nth_append)
  have ch: "map_of (children (?h ! a)) s = Some b \<longleftrightarrow> b < length ?h \<and> ?L ! b = ?L ! a @ [s]"
    if a: "a < length ?h" for a s b
  proof (cases "a = length h")
    case True
    have "?L ! b \<noteq> (L ! c @ [r]) @ [s]" if b: "b < length ?h" for b
    proof
      assume e: "?L ! b = (L ! c @ [r]) @ [s]"
      with new b have "b < length h" by (cases "b = length h") auto
      with e lab have "(L ! c @ [r]) @ [s] \<in> set L" using len by (metis nth_mem)
      then show False
        using trie_ok_prefix_closed [OF T] fresh unfolding prefix_closed_def by blast
    qed
    with True new show ?thesis by (simp add: newACNode_def nth_append)
  next
    case False
    with a have a': "a < length h" by simp
    note old = trie_ok_child [OF T a', of s b]
    have eqs: "?L ! b = ?L ! a @ [s] \<longleftrightarrow> a = c \<and> s = r" if "b = length h"
      using that new lab [OF a'] trie_ok_label_inj [OF T c a'] by auto
    have old': "map_of (children (h ! a)) s = Some b \<longleftrightarrow> b < length h \<and> ?L ! b = ?L ! a @ [s]"
      using old lab [OF a'] lab [of b] by auto
    show ?thesis
    proof (cases "a = c \<and> s = r")
      case True
      have "\<not> (b < length h \<and> ?L ! b = ?L ! a @ [s])" using old' True none by auto
      with True c a' new lab [OF a'] show ?thesis by (auto simp: nth_append less_Suc_eq)
    next
      case other: False
      have "map_of (children (?h ! a)) s = map_of (children (h ! a)) s"
        using other a' c by (auto simp: nth_append nth_list_update)
      with old' eqs other show ?thesis by (auto simp: less_Suc_eq)
    qed
  qed
  have par: "\<exists>a < length ?h. \<exists>s. ?L ! b = ?L ! a @ [s]" if b: "b < length ?h" "b \<noteq> 0" for b
  proof (cases "b = length h")
    case True
    then show ?thesis using c lab [OF c] new by (auto intro!: exI [of _ c])
  next
    case False
    with b have b': "b < length h" by simp
    obtain a s where "a < length h" "L ! b = L ! a @ [s]"
      using trie_ok_parent [OF T b' b(2)] by blast
    then show ?thesis using lab b' by (intro exI [of _ a]) auto
  qed
  have kd: "keys_distinct (children (?h ! a))" if "a < length ?h" for a
    using that trie_ok_keys [OF T] c
    by (auto simp: nth_append nth_list_update newACNode_def less_Suc_eq)
  have "distinct ?L" "?L ! 0 = []" "length ?L = length ?h"
    using trie_okD [OF T] fresh by (auto simp: nth_append)
  with ch par kd show ?thesis unfolding trie_ok_def by simp
qed

text \<open>A node that carries no word and no fail pointer yet.\<close>

definition blank :: "acNode \<Rightarrow> bool" where
  "blank n \<longleftrightarrow> fail n = None \<and> outputs n = []"

lemma insert_walk_ok:
  assumes "trie_ok h L" "c < length h" "insert_walk h c rs = (h', c')"
  shows "\<exists>L'. trie_ok h' (L @ L') \<and> c' < length h' \<and> (L @ L') ! c' = L ! c @ rs
    \<and> length h \<le> length h'
    \<and> (\<forall>a < length h. outputs (h' ! a) = outputs (h ! a) \<and> fail (h' ! a) = fail (h ! a))
    \<and> (\<forall>a. length h \<le> a \<and> a < length h' \<longrightarrow> blank (h' ! a))"
  using assms
proof (induction h c rs arbitrary: L rule: insert_walk.induct)
  case (1 h c)
  then show ?case by (intro exI [of _ "[]"]) auto
next
  case (2 h c r rs)
  show ?case
  proof (cases "map_of (children (h ! c)) r")
    case (Some b)
    then have b: "b < length h" "L ! b = L ! c @ [r]"
      using trie_ok_child [OF "2.prems"(1,2)] by auto
    with Some "2.prems" "2.IH"(2) [OF Some, of L] show ?thesis by simp
  next
    case None
    let ?h1 = "h[c := (h ! c)\<lparr>children := map_put r (length h) (children (h ! c))\<rparr>] @ [newACNode]"
    let ?L1 = "L @ [L ! c @ [r]]"
    have T1: "trie_ok ?h1 ?L1" by (rule trie_ok_extend [OF "2.prems"(1,2) None])
    have walk: "insert_walk ?h1 (length h) rs = (h', c')" using "2.prems"(3) None by (simp add: Let_def)
    have l: "?L1 ! length h = L ! c @ [r]" using trie_okD(1) [OF "2.prems"(1)] by (simp add: nth_append)
    obtain L' where ih: "trie_ok h' (?L1 @ L')" "c' < length h'" "(?L1 @ L') ! c' = (L ! c @ [r]) @ rs"
      "length ?h1 \<le> length h'"
      "\<forall>a < length ?h1. outputs (h' ! a) = outputs (?h1 ! a) \<and> fail (h' ! a) = fail (?h1 ! a)"
      "\<forall>a. length ?h1 \<le> a \<and> a < length h' \<longrightarrow> blank (h' ! a)"
      using "2.IH"(1) [OF None refl refl T1 _ walk] l by auto
    have old: "\<forall>a < length h. outputs (h' ! a) = outputs (h ! a) \<and> fail (h' ! a) = fail (h ! a)"
      using ih(5) "2.prems"(2) by (auto simp: nth_append nth_list_update)
    have new: "blank (h' ! length h)"
      using ih(5) by (auto simp: blank_def newACNode_def nth_append)
    have "\<forall>a. length h \<le> a \<and> a < length h' \<longrightarrow> blank (h' ! a)"
      using new ih(6) by (metis Suc_leI le_neq_implies_less length_append_singleton length_list_update)
    with ih old show ?thesis by (intro exI [of _ "(L ! c @ [r]) # L'"]) auto
  qed
qed

section \<open>The trie after the words are inserted\<close>

definition words_ok :: "unicode_data \<Rightarrow> WordEntry list \<Rightarrow> AhoCorasick \<Rightarrow> rune list list \<Rightarrow> bool" where
  "words_ok u ws ac L \<longleftrightarrow>
     trie_ok (heap ac) L \<and>
     (\<forall>a < length (heap ac). outputs (heap ac ! a) = metas_for u ws (L ! a)
        \<and> fail (heap ac ! a) = None) \<and>
     (\<forall>w \<in> set ws. pattern_of u w \<in> set L) \<and>
     wordCount ac = int (length (filter (\<lambda>w. pattern_of u w \<noteq> []) ws))"

lemma words_ok_empty: "words_ok u [] \<lparr>heap = [newACNode], wordCount = 0\<rparr> [[]]"
  by (auto simp: words_ok_def trie_ok_def newACNode_def metas_for_def)

lemma metas_for_snoc:
  "metas_for u (ws @ [w]) p =
   metas_for u ws p @ (if p \<noteq> [] \<and> pattern_of u w = p then [meta_of u w] else [])"
  by (simp add: metas_for_def)

lemma metas_for_absent: "\<forall>w \<in> set ws. pattern_of u w \<in> set L \<Longrightarrow> p \<notin> set L \<Longrightarrow> metas_for u ws p = []"
  by (auto simp: metas_for_def filter_empty_conv)

lemma words_ok_insert:
  assumes W: "words_ok u ws ac L"
  shows "\<exists>L'. words_ok u (ws @ [w]) (ac_insert u ac w) (L @ L')"
proof (cases "pattern_of u w = []")
  case True
  then have "ac_insert u ac w = ac" by (simp add: ac_insert_def pattern_of_def)
  moreover have "words_ok u (ws @ [w]) ac L"
    using W True trie_ok_prefix_closed [of "heap ac" L]
    by (auto simp: words_ok_def metas_for_snoc prefix_closed_def)
  ultimately show ?thesis by (intro exI [of _ "[]"]) simp
next
  case False
  let ?p = "pattern_of u w"
  note T = W [unfolded words_ok_def, THEN conjunct1]
  obtain h' c' where walk: "insert_walk (heap ac) 0 ?p = (h', c')" by fastforce
  obtain L' where ih: "trie_ok h' (L @ L')" "c' < length h'" "(L @ L') ! c' = ?p"
      "length (heap ac) \<le> length h'"
      "\<forall>a < length (heap ac). outputs (h' ! a) = outputs (heap ac ! a)
         \<and> fail (h' ! a) = fail (heap ac ! a)"
      "\<forall>a. length (heap ac) \<le> a \<and> a < length h' \<longrightarrow> blank (h' ! a)"
    using insert_walk_ok [OF T _ walk] trie_okD [OF T] by auto
  let ?h = "h'[c' := (h' ! c')\<lparr>outputs := outputs (h' ! c') @ [meta_of u w]\<rparr>]"
  have ins: "ac_insert u ac w = ac\<lparr>heap := ?h, wordCount := wordCount ac + 1\<rparr>"
    using walk False by (simp add: ac_insert_def Let_def pattern_of_def meta_of_def)
  have T': "trie_ok ?h (L @ L')" by (rule trie_ok_update [OF ih(1)]) simp
  have out: "outputs (h' ! a) = metas_for u ws ((L @ L') ! a) \<and> fail (h' ! a) = None"
    if a: "a < length h'" for a
  proof (cases "a < length (heap ac)")
    case True
    then show ?thesis using W ih(5) trie_okD(1) [OF T] by (simp add: words_ok_def nth_append)
  next
    case False
    then have "(L @ L') ! a \<notin> set L"
      using trie_ok_label_inj [OF ih(1) a] trie_okD(1) [OF T] ih(4)
      by (metis in_set_conv_nth nth_append order_less_le_trans)
    then have "metas_for u ws ((L @ L') ! a) = []"
      using W metas_for_absent [of ws u L] by (simp add: words_ok_def)
    with False a ih(6) show ?thesis by (simp add: blank_def)
  qed
  have "outputs (?h ! a) = metas_for u (ws @ [w]) ((L @ L') ! a) \<and> fail (?h ! a) = None"
    if a: "a < length ?h" for a
    using out [of a] that ih(2,3) False trie_ok_label_inj [OF ih(1), of a c']
    by (auto simp: metas_for_snoc nth_list_update)
  moreover have "?p \<in> set (L @ L')" using ih(1-3) trie_okD(1) [OF ih(1)] by (metis nth_mem)
  ultimately have "words_ok u (ws @ [w]) (ac_insert u ac w) (L @ L')"
    using W T' False by (auto simp: words_ok_def ins)
  then show ?thesis by blast
qed

lemma words_ok_build:
  "\<exists>L. words_ok u ws (foldl (ac_insert u) \<lparr>heap = [newACNode], wordCount = 0\<rparr> ws) L"
proof (induction ws rule: rev_induct)
  case Nil
  then show ?case using words_ok_empty by auto
next
  case (snoc w ws)
  then show ?case using words_ok_insert by (fastforce)
qed

end
