(* ===== verification/ACLinks.thy ===== *)
theory ACLinks
  imports ACTrie
begin

text \<open>
  The fail-pointer phase. \<open>links_ok M h L D\<close> says that the nodes in \<open>D\<close> have their final fail
  pointer (to the longest proper suffix of their label that is a label) and their final output
  (the words of every suffix of the label, longest first), while the others still have what
  \<open>insert\<close> left. The breadth-first loop grows \<open>D\<close> to all nodes, in whatever order the children
  maps are ranged over.
\<close>

section \<open>Nodes that are linked\<close>

definition links_ok ::
  "(rune list \<Rightarrow> wordMeta list) \<Rightarrow> acheap \<Rightarrow> rune list list \<Rightarrow> addr set \<Rightarrow> bool" where
  "links_ok M h L D \<longleftrightarrow>
     trie_ok h L \<and> M [] = [] \<and> (\<forall>p. p \<notin> set L \<longrightarrow> M p = []) \<and>
     0 \<notin> D \<and> (\<forall>a \<in> D. a < length h) \<and>
     (\<forall>a < length h. a \<notin> D \<longrightarrow> fail (h ! a) = None \<and> outputs (h ! a) = M (L ! a)) \<and>
     (\<forall>a \<in> D. \<exists>b < length h. fail (h ! a) = Some b \<and> L ! b = lsuf (set L) (tl (L ! a))
        \<and> outputs (h ! a) = over_suffixes M (L ! a))"

lemma links_ok_trie: "links_ok M h L D \<Longrightarrow> trie_ok h L"
  by (simp add: links_ok_def)

lemma links_ok_silent: "links_ok M h L D \<Longrightarrow> p \<notin> set L \<Longrightarrow> M p = []"
  by (simp add: links_ok_def)

lemma links_ok_root: "links_ok M h L D \<Longrightarrow> fail (h ! 0) = None \<and> outputs (h ! 0) = [] \<and> 0 \<notin> D"
  using trie_okD [of h L] by (auto simp: links_ok_def)

lemma links_ok_fail:
  assumes "links_ok M h L D" "a \<in> D"
  obtains b where "b < length h" "fail (h ! a) = Some b" "L ! b = lsuf (set L) (tl (L ! a))"
  using assms by (auto simp: links_ok_def)

lemma links_ok_outputs:
  assumes "links_ok M h L D" "a = 0 \<or> a \<in> D"
  shows "outputs (h ! a) = over_suffixes M (L ! a)"
  using assms trie_okD(3) [of h L] links_ok_root [OF assms(1)] by (auto simp: links_ok_def)

lemma links_ok_untouched:
  "links_ok M h L D \<Longrightarrow> a < length h \<Longrightarrow> a \<notin> D \<Longrightarrow> fail (h ! a) = None \<and> outputs (h ! a) = M (L ! a)"
  by (simp add: links_ok_def)

text \<open>Linking one more node.\<close>

lemma links_ok_insert:
  assumes K: "links_ok M h L D" and c: "c < length h" "c \<noteq> 0"
    and t: "t < length h" "L ! t = lsuf (set L) (tl (L ! c))"
    and out: "out = over_suffixes M (L ! c)"
  shows "links_ok M (h[c := (h ! c)\<lparr>fail := Some t, outputs := out\<rparr>]) L (insert c D)"
    (is "links_ok M ?h L ?D")
proof -
  have T: "trie_ok ?h L" by (rule trie_ok_update [OF links_ok_trie [OF K]]) simp
  have "\<exists>b < length ?h. fail (?h ! a) = Some b \<and> L ! b = lsuf (set L) (tl (L ! a))
      \<and> outputs (?h ! a) = over_suffixes M (L ! a)" if "a \<in> ?D" for a
  proof (cases "a = c")
    case True
    with c t out show ?thesis by simp
  next
    case False
    with that K c show ?thesis by (simp add: links_ok_def nth_list_update)
  qed
  moreover have "fail (?h ! a) = None \<and> outputs (?h ! a) = M (L ! a)"
    if "a < length ?h" "a \<notin> ?D" for a
    using that links_ok_untouched [OF K, of a] c by (simp add: nth_list_update)
  ultimately show ?thesis using T K c by (simp add: links_ok_def)
qed

text \<open>All nodes up to a depth are linked.\<close>

definition linked_upto :: "acheap \<Rightarrow> rune list list \<Rightarrow> addr set \<Rightarrow> nat \<Rightarrow> bool" where
  "linked_upto h L D d \<longleftrightarrow> (\<forall>a < length h. a \<noteq> 0 \<and> length (L ! a) \<le> d \<longrightarrow> a \<in> D)"

section \<open>Walking along fail pointers\<close>

definition walk_target :: "acheap \<Rightarrow> rune \<Rightarrow> addr option \<Rightarrow> addr" where
  "walk_target h r res =
     (case res of None \<Rightarrow> 0 | Some g \<Rightarrow> the (map_of (children (h ! g)) r))"

lemma fail_walk_simps [simp]:
  "fail_walk h r None = Some None"
  "fail_walk h r (Some f) =
     (if map_of (children (h ! f)) r = None then fail_walk h r (fail (h ! f)) else Some (Some f))"
  by (simp_all add: fail_walk.simps)

text \<open>The walk ends, at the node of the longest suffix that can be extended by the rune.\<close>

lemma fail_walk_ok:
  assumes K: "links_ok M h L D" and up: "linked_upto h L D d"
    and f: "f < length h" "length (L ! f) \<le> d"
  shows "\<exists>res. fail_walk h r (Some f) = Some res \<and> walk_target h r res < length h
    \<and> L ! walk_target h r res = lsuf (set L) (L ! f @ [r])"
  using f
proof (induction "length (L ! f)" arbitrary: f rule: less_induct)
  case less
  note T = links_ok_trie [OF K]
  note P = trie_ok_prefix_closed [OF T]
  show ?case
  proof (cases "map_of (children (h ! f)) r")
    case (Some t)
    then have t: "t < length h" "L ! t = L ! f @ [r]"
      using trie_ok_child [OF T less.prems(1)] by auto
    then have "L ! f @ [r] \<in> set L" using trie_okD(1) [OF T] by (metis nth_mem)
    then show ?thesis using Some t by (simp add: walk_target_def lsuf_id)
  next
    case None
    then have miss: "L ! f @ [r] \<notin> set L" using trie_ok_lookup_None [OF T less.prems(1)] by simp
    show ?thesis
    proof (cases "f = 0")
      case True
      then show ?thesis
        using None miss links_ok_root [OF K] trie_okD [OF T] by (simp add: walk_target_def)
    next
      case False
      then have "f \<in> D" using up less.prems by (simp add: linked_upto_def)
      then obtain b where b: "b < length h" "fail (h ! f) = Some b" "L ! b = lsuf (set L) (tl (L ! f))"
        by (rule links_ok_fail [OF K])
      have ne: "L ! f \<noteq> []" using trie_ok_label_Nil [OF T less.prems(1)] False by simp
      have lt: "length (L ! b) < length (L ! f)" unfolding b(3) by (rule length_lsuf_tl [OF ne])
      have "lsuf (set L) (L ! f @ [r]) = lsuf (set L) (L ! b @ [r])"
        unfolding b(3) by (rule lsuf_extend_miss [OF P ne miss])
      then show ?thesis using less.hyps [OF lt b(1)] lt less.prems(2) None b(2) by simp
    qed
  qed
qed

section \<open>Linking the children of a node\<close>

lemma link_child_eq:
  assumes "fail_walk h r (fail (h ! cur)) = Some res" "child < length h"
    and "walk_target h r res \<noteq> child"
  shows "link_child h cur r child =
    Some (h[child := (h ! child)\<lparr>fail := Some (walk_target h r res),
              outputs := outputs (h ! child) @ outputs (h ! walk_target h r res)\<rparr>])"
  using assms by (cases res) (auto simp: link_child_def walk_target_def Let_def)

lemma link_child_ok:
  assumes K: "links_ok M h L D" and up: "linked_upto h L D (length (L ! cur))"
    and cur: "cur < length h" "cur \<in> D"
    and child: "map_of (children (h ! cur)) r = Some child" "child \<notin> D"
  shows "\<exists>n. link_child h cur r child = Some (h[child := n]) \<and> children n = children (h ! child)
    \<and> links_ok M (h[child := n]) L (insert child D)"
proof -
  note T = links_ok_trie [OF K]
  note P = trie_ok_prefix_closed [OF T]
  have ch: "child < length h" "L ! child = L ! cur @ [r]"
    using child(1) trie_ok_child [OF T cur(1)] by auto
  then have ch0: "child \<noteq> 0" using trie_okD(3) [OF T] by (metis snoc_eq_iff_butlast)
  have cur0: "cur \<noteq> 0" using cur(2) links_ok_root [OF K] by metis
  then have ne: "L ! cur \<noteq> []" using trie_ok_label_Nil [OF T cur(1)] by simp
  obtain f where f: "f < length h" "fail (h ! cur) = Some f" "L ! f = lsuf (set L) (tl (L ! cur))"
    by (rule links_ok_fail [OF K cur(2)])
  have "length (L ! f) \<le> length (L ! cur)" using length_lsuf_tl [OF ne] f(3) by (simp add: less_imp_le)
  from fail_walk_ok [OF K up f(1) this, of r] obtain res where
    res: "fail_walk h r (Some f) = Some res" "walk_target h r res < length h"
      "L ! walk_target h r res = lsuf (set L) (L ! f @ [r])" by blast
  let ?t = "walk_target h r res"
  have tl: "tl (L ! child) = tl (L ! cur) @ [r]" using ch ne by simp
  have tlab: "L ! ?t = lsuf (set L) (tl (L ! child))"
    using res(3) f(3) tl lsuf_snoc [OF P] by simp
  have tlen: "length (L ! ?t) \<le> length (L ! cur)"
    using length_lsuf [of "set L" "tl (L ! child)"] tlab tl ne by (cases "L ! cur") auto
  then have "?t \<noteq> child" using ch by auto
  have tdone: "?t = 0 \<or> ?t \<in> D" using up tlen res(2) by (auto simp: linked_upto_def)
  have "outputs (h ! child) @ outputs (h ! ?t) = M (L ! child) @ over_suffixes M (L ! ?t)"
    using links_ok_untouched [OF K ch(1) child(2)] links_ok_outputs [OF K tdone] by simp
  also have "\<dots> = over_suffixes M (L ! child)"
    using over_suffixes_split [of "set L" M "L ! child"] links_ok_silent [OF K] tlab ch by simp
  finally have "links_ok M (h[child := (h ! child)\<lparr>fail := Some ?t,
      outputs := outputs (h ! child) @ outputs (h ! ?t)\<rparr>]) L (insert child D)"
    by (intro links_ok_insert [OF K ch(1) ch0 res(2) tlab])
  then show ?thesis
    using link_child_eq [of h r cur res child] res(1) f(2) ch(1) \<open>?t \<noteq> child\<close> by auto
qed

lemma link_children_ok:
  assumes "links_ok M h L D" "linked_upto h L D (length (L ! cur))"
    and "cur < length h" "cur \<in> D"
    and "\<forall>(r, b) \<in> set cs. map_of (children (h ! cur)) r = Some b"
    and "distinct (map snd cs)" "set (map snd cs) \<inter> D = {}"
  shows "\<exists>h'. link_children h cur q cs = Some (h', q @ map snd cs)
    \<and> links_ok M h' L (D \<union> set (map snd cs)) \<and> length h' = length h
    \<and> (\<forall>a < length h. children (h' ! a) = children (h ! a))"
  using assms
proof (induction cs arbitrary: h q D)
  case Nil
  then show ?case by simp
next
  case (Cons p cs)
  obtain r b where p: "p = (r, b)" by (cases p)
  obtain n where n: "link_child h cur r b = Some (h[b := n])" "children n = children (h ! b)"
    "links_ok M (h[b := n]) L (insert b D)"
    using link_child_ok [OF Cons.prems(1-4), of r b] Cons.prems(5,7) p by auto
  have same: "\<forall>a < length h. children (h[b := n] ! a) = children (h ! a)"
    using n(2) by (cases "b < length h") (auto simp: nth_list_update)
  have "linked_upto (h[b := n]) L (insert b D) (length (L ! cur))"
    using Cons.prems(2) by (auto simp: linked_upto_def)
  then obtain h' where "link_children (h[b := n]) cur (q @ [b]) cs = Some (h', (q @ [b]) @ map snd cs)"
    "links_ok M h' L (insert b D \<union> set (map snd cs))" "length h' = length (h[b := n])"
    "\<forall>a < length (h[b := n]). children (h' ! a) = children (h[b := n] ! a)"
    using Cons.IH [OF n(3), of "q @ [b]"] Cons.prems(3-7) same p by auto
  with n(1) same p show ?case by simp
qed

text \<open>The entries of a node's map are its children; an iteration order lists each once.\<close>

lemma ordered_children:
  assumes T: "trie_ok h L" and a: "a < length h" and o: "iteration_order f"
  shows "\<forall>(r, b) \<in> set (f (children (h ! a))). map_of (children (h ! a)) r = Some b"
    and "distinct (map snd (f (children (h ! a))))"
    and "set (map snd (f (children (h ! a)))) = {b. b < length h \<and> (\<exists>r. L ! b = L ! a @ [r])}"
proof -
  let ?m = "children (h ! a)"
  have kd: "distinct (map fst ?m)" using trie_ok_keys [OF T a] by (simp add: keys_distinct_def)
  show e: "\<forall>(r, b) \<in> set (f ?m). map_of ?m r = Some b"
    using kd by (auto simp: iteration_order_set [OF o])
  have "inj_on snd (set ?m)"
  proof (rule inj_onI)
    fix x y assume xy: "x \<in> set ?m" "y \<in> set ?m" "snd x = snd y"
    then have "map_of ?m (fst x) = Some (snd x)" "map_of ?m (fst y) = Some (snd x)"
      using kd by (metis map_of_is_SomeI prod.collapse)+
    then have "L ! a @ [fst x] = L ! a @ [fst y]"
      using trie_ok_child [OF T a] by metis
    with xy(3) show "x = y" by (simp add: prod_eq_iff)
  qed
  then have "distinct (map snd ?m)" using kd by (simp add: distinct_map)
  then show "distinct (map snd (f ?m))" by (rule iteration_order_distinct_map [OF o])
  have "b \<in> set (map snd (f ?m)) \<longleftrightarrow> (\<exists>r. map_of ?m r = Some b)" for b
    using kd by (force simp: iteration_order_set [OF o])
  then show "set (map snd (f ?m)) = {b. b < length h \<and> (\<exists>r. L ! b = L ! a @ [r])}"
    using trie_ok_child [OF T a] by auto
qed

end
