(* ===== verification/AhoCorasick.thy ===== *)
theory AhoCorasick
  imports ACLinks
begin

text \<open>
  The automaton is correct: construction always finishes, whatever order the children maps are
  ranged over; the search always returns, follows only pointers that are set, and reports
  exactly the matches of the reference matcher, in the same order.
\<close>

section \<open>The breadth-first loop\<close>

lemma sorted_map_const: "\<forall>x \<in> set xs. f x = k \<Longrightarrow> sorted (map f xs)"
  by (induction xs) auto

definition bfs_ok ::
  "(rune list \<Rightarrow> wordMeta list) \<Rightarrow> acheap \<Rightarrow> rune list list \<Rightarrow> addr set \<Rightarrow> addr list \<Rightarrow> bool" where
  "bfs_ok M h L D q \<longleftrightarrow>
     links_ok M h L D \<and> set q \<subseteq> D \<and> distinct q \<and>
     sorted (map (\<lambda>a. length (L ! a)) q) \<and>
     (\<forall>x \<in> set q. length (L ! x) \<le> Suc (length (L ! hd q))) \<and>
     (\<forall>p < length h. \<forall>b < length h. \<forall>r. L ! b = L ! p @ [r] \<longrightarrow>
        (b \<in> D \<longleftrightarrow> p = 0 \<or> p \<in> D \<and> p \<notin> set q))"

lemma bfs_ok_links: "bfs_ok M h L D q \<Longrightarrow> links_ok M h L D"
  by (simp add: bfs_ok_def)

lemma bfs_ok_parent:
  "bfs_ok M h L D q \<Longrightarrow> p < length h \<Longrightarrow> b < length h \<Longrightarrow> L ! b = L ! p @ [r] \<Longrightarrow>
   b \<in> D \<longleftrightarrow> p = 0 \<or> p \<in> D \<and> p \<notin> set q"
  by (auto simp: bfs_ok_def)

text \<open>Nodes are linked level by level: whatever is no deeper than the queue's head is linked.\<close>

lemma bfs_linked_below:
  assumes B: "bfs_ok M h L D q" and low: "\<forall>x \<in> set q. d \<le> length (L ! x)"
  shows "linked_upto h L D d"
  unfolding linked_upto_def
proof (intro allI impI)
  fix a assume "a < length h" "a \<noteq> 0 \<and> length (L ! a) \<le> d"
  then show "a \<in> D"
  proof (induction "length (L ! a)" arbitrary: a rule: less_induct)
    case less
    note T = links_ok_trie [OF bfs_ok_links [OF B]]
    obtain p r where p: "p < length h" "L ! a = L ! p @ [r]"
      using trie_ok_parent [OF T] less.prems by blast
    have "p = 0 \<or> p \<in> D \<and> p \<notin> set q"
    proof (cases "p = 0")
      case False
      have "length (L ! p) < length (L ! a)" using p(2) by simp
      with less False p(1) have "p \<in> D" by auto
      moreover have "p \<notin> set q" using low less.prems(2) p(2) by fastforce
      ultimately show ?thesis by simp
    qed simp
    then show ?case using bfs_ok_parent [OF B p(1) _ p(2)] less.prems by blast
  qed
qed

lemma bfs_ok_step:
  assumes B: "bfs_ok M h L D (c # q)" and o: "iteration_order f"
  shows "\<exists>h' D' q'. link_children h c q (f (children (h ! c))) = Some (h', q')
    \<and> bfs_ok M h' L D' q' \<and> length h' = length h
    \<and> D - set (c # q) \<subset> D' - set q' \<and> D' \<subseteq> {..< length h}"
proof -
  note K = bfs_ok_links [OF B]
  note T = links_ok_trie [OF K]
  have cD: "c \<in> D" and cq: "c \<notin> set q" and dq: "distinct q" "set q \<subseteq> D"
    using B by (auto simp: bfs_ok_def)
  then have c: "c < length h" "c \<noteq> 0"
    using K links_ok_root [OF K] by (simp add: links_ok_def, metis)
  have srt: "sorted (map (\<lambda>a. length (L ! a)) q)"
    and lo: "\<forall>x \<in> set q. length (L ! c) \<le> length (L ! x)"
    and hi: "\<forall>x \<in> set q. length (L ! x) \<le> Suc (length (L ! c))"
    using B by (auto simp: bfs_ok_def)
  let ?cs = "f (children (h ! c))"
  let ?C = "set (map snd ?cs)"
  let ?q' = "q @ map snd ?cs"
  note oc = ordered_children [OF T c(1) o]
  have inC: "\<And>b. b \<in> ?C \<longleftrightarrow> b < length h \<and> (\<exists>r. L ! b = L ! c @ [r])" using oc(3) by simp
  have fresh: "?C \<inter> D = {}"
    using inC bfs_ok_parent [OF B c(1)] c(2) by auto
  have up: "linked_upto h L D (length (L ! c))"
    by (rule bfs_linked_below [OF B]) (use lo in auto)
  obtain h' where h': "link_children h c q ?cs = Some (h', ?q')" "links_ok M h' L (D \<union> ?C)"
    "length h' = length h"
    using link_children_ok [OF K up c(1) cD oc(1,2) fresh, of q] by blast
  have zero: "0 \<notin> ?C" using links_ok_root [OF h'(2)] by blast
  have par: "b \<in> D \<union> ?C \<longleftrightarrow> p = 0 \<or> p \<in> D \<union> ?C \<and> p \<notin> set ?q'"
    if pb: "p < length h" "b < length h" "L ! b = L ! p @ [r]" for p b r
  proof (cases "p = c")
    case True
    then have "b \<in> ?C" using inC pb by auto
    with True cD cq fresh show ?thesis by auto
  next
    case False
    then have "b \<notin> ?C" using inC pb trie_ok_label_inj [OF T c(1) pb(1)] by auto
    moreover have "b \<in> D \<longleftrightarrow> p = 0 \<or> p \<in> D \<and> p \<notin> set (c # q)"
      by (rule bfs_ok_parent [OF B pb])
    ultimately show ?thesis using False zero fresh by (auto simp del: set_map)
  qed
  have clen: "\<And>b. b \<in> ?C \<Longrightarrow> length (L ! b) = Suc (length (L ! c))" using inC by auto
  have "sorted (map (\<lambda>a. length (L ! a)) ?q')"
  proof -
    have "sorted (map (\<lambda>a. length (L ! a)) (map snd ?cs))"
      by (rule sorted_map_const) (use clen in auto)
    then show ?thesis using srt hi clen by (auto simp: sorted_append)
  qed
  moreover have "\<forall>x \<in> set ?q'. length (L ! x) \<le> Suc (length (L ! hd ?q'))"
  proof (cases q)
    case Nil
    then show ?thesis using clen by (cases "map snd ?cs") auto
  next
    case (Cons x xs)
    then show ?thesis using hi lo clen by fastforce
  qed
  moreover have "distinct ?q'" using dq oc(2) fresh by auto
  ultimately have "bfs_ok M h' L (D \<union> ?C) ?q'"
    using h'(2,3) dq par unfolding bfs_ok_def by auto
  moreover have "D - set (c # q) \<subset> (D \<union> ?C) - set ?q'"
  proof (rule psubsetI)
    show "D - set (c # q) \<subseteq> (D \<union> ?C) - set ?q'" using fresh by auto
    have "c \<in> (D \<union> ?C) - set ?q'" using cD cq fresh by auto
    then show "D - set (c # q) \<noteq> (D \<union> ?C) - set ?q'" by auto
  qed
  moreover have "D \<union> ?C \<subseteq> {..< length h}" using h'(2,3) by (auto simp: links_ok_def)
  ultimately show ?thesis using h'(1,3) by blast
qed

lemma bfs_loop_simps [simp]:
  "bfs_loop ord h [] = Some h"
  "bfs_loop ord h (c # q) =
     (case link_children h c q (ord c (children (h ! c))) of
        None \<Rightarrow> None | Some (h', q') \<Rightarrow> bfs_loop ord h' q')"
  by (simp_all add: bfs_loop.simps)

text \<open>The loop ends with every node linked: each round finishes one more node.\<close>

lemma bfs_loop_ok:
  assumes "bfs_ok M h L D q" "\<forall>a. iteration_order (ord a)" "D \<subseteq> {..< length h}"
  shows "\<exists>h'. bfs_loop ord h q = Some h' \<and> links_ok M h' L {0 <..< length h} \<and> length h' = length h"
  using assms
proof (induction "length h - card (D - set q)" arbitrary: h D q rule: less_induct)
  case less
  show ?case
  proof (cases q)
    case Nil
    have "a \<in> D" if "a < length h" "a \<noteq> 0" for a
      using bfs_linked_below [OF less.prems(1), of "length (L ! a)"] that
      by (simp add: Nil linked_upto_def)
    then have "{0 <..< length h} \<subseteq> D" by auto
    moreover have "D \<subseteq> {0 <..< length h}"
      using less.prems(3) links_ok_root [OF bfs_ok_links [OF less.prems(1)]]
      by (auto intro: gr0I)
    ultimately have "D = {0 <..< length h}" by blast
    then show ?thesis using Nil bfs_ok_links [OF less.prems(1)] by simp
  next
    case (Cons c q1)
    obtain h' D' q' where s: "link_children h c q1 (ord c (children (h ! c))) = Some (h', q')"
      "bfs_ok M h' L D' q'" "length h' = length h" "D - set (c # q1) \<subset> D' - set q'"
      "D' \<subseteq> {..< length h}"
      using bfs_ok_step less.prems(1,2) Cons by metis
    have fin: "finite (D' - set q')" using s(5) finite_subset by blast
    have "card (D - set q) < card (D' - set q')" using s(4) Cons fin psubset_card_mono by metis
    moreover have "card (D' - set q') \<le> length h"
      using s(5) card_mono [of "{..< length h}" "D' - set q'"] by auto
    ultimately have "length h' - card (D' - set q') < length h - card (D - set q)" using s(3) by simp
    from less.hyps [OF this s(2) less.prems(2)] s Cons show ?thesis by simp
  qed
qed

lemma seed_queue_ok:
  assumes "links_ok M h L D" "\<forall>(r, b) \<in> set cs. b < length h \<and> L ! b = [r]"
    and "distinct (map snd cs)" "set (map snd cs) \<inter> D = {}"
  shows "\<exists>h'. seed_queue h q cs = (h', q @ map snd cs) \<and> links_ok M h' L (D \<union> set (map snd cs))
    \<and> length h' = length h"
  using assms
proof (induction cs arbitrary: h q D)
  case Nil
  then show ?case by simp
next
  case (Cons p cs)
  obtain r b where p: "p = (r, b)" by (cases p)
  have b: "b < length h" "L ! b = [r]" "b \<notin> D" using Cons.prems(2,4) p by auto
  note T = links_ok_trie [OF Cons.prems(1)]
  have b0: "b \<noteq> 0" using b(2) trie_okD(3) [OF T] by (metis list.distinct(2))
  have "M [] = []" using Cons.prems(1) by (simp add: links_ok_def)
  then have out: "outputs (h ! b) = over_suffixes M (L ! b)"
    using links_ok_untouched [OF Cons.prems(1) b(1,3)] b(2) by simp
  have "L ! 0 = lsuf (set L) (tl (L ! b))" using b(2) trie_okD(3) [OF T] by simp
  from links_ok_insert [OF Cons.prems(1) b(1) b0 _ this out]
  have K: "links_ok M (h[b := (h ! b)\<lparr>fail := Some 0\<rparr>]) L (insert b D)"
    using trie_okD(2) [OF T] by simp
  have "\<exists>h'. seed_queue (h[b := (h ! b)\<lparr>fail := Some 0\<rparr>]) (q @ [b]) cs = (h', (q @ [b]) @ map snd cs)
    \<and> links_ok M h' L (insert b D \<union> set (map snd cs))
    \<and> length h' = length (h[b := (h ! b)\<lparr>fail := Some 0\<rparr>])"
    by (rule Cons.IH [OF K]) (use Cons.prems p in auto)
  then show ?case using p by auto
qed

lemma buildFailPointers_ok:
  assumes K: "links_ok M h L {}" and o: "\<forall>a. iteration_order (ord a)"
  shows "\<exists>h'. buildFailPointers ord h = Some h' \<and> links_ok M h' L {0 <..< length h}
    \<and> length h' = length h"
proof -
  note T = links_ok_trie [OF K]
  note n0 = trie_okD(2,3) [OF T]
  let ?cs = "ord 0 (children (h ! 0))"
  let ?C = "set (map snd ?cs)"
  note oc = ordered_children [OF T n0(1) o [THEN spec, of 0]]
  have cs: "\<forall>(r, b) \<in> set ?cs. b < length h \<and> L ! b = [r]"
    using oc(1) trie_ok_child [OF T n0(1)] n0(2) by auto
  obtain h1 where h1: "seed_queue h [] ?cs = (h1, map snd ?cs)" "links_ok M h1 L ?C"
    "length h1 = length h"
    using seed_queue_ok [OF K cs oc(2), of "[]"] by auto
  have inC: "b \<in> ?C \<longleftrightarrow> b < length h \<and> (\<exists>r. L ! b = [r])" for b using oc(3) n0(2) by simp
  have len1: "\<And>b. b \<in> ?C \<Longrightarrow> length (L ! b) = Suc 0" using inC by auto
  have par: "b \<in> ?C \<longleftrightarrow> p = 0 \<or> p \<in> ?C \<and> p \<notin> ?C"
    if "p < length h" "b < length h" "L ! b = L ! p @ [r]" for p b r
    using that inC trie_ok_label_Nil [OF T that(1)] n0(2) by auto
  have "bfs_ok M h1 L ?C (map snd ?cs)"
    unfolding bfs_ok_def
  proof (intro conjI ballI)
    show "sorted (map (\<lambda>a. length (L ! a)) (map snd ?cs))"
      by (rule sorted_map_const) (use len1 in auto)
    show "length (L ! x) \<le> Suc (length (L ! hd (map snd ?cs)))" if "x \<in> ?C" for x
      using len1 [OF that] by simp
    show "\<forall>p < length h1. \<forall>b < length h1. \<forall>r. L ! b = L ! p @ [r] \<longrightarrow>
        (b \<in> ?C \<longleftrightarrow> p = 0 \<or> p \<in> ?C \<and> p \<notin> ?C)"
      using par h1(3) by auto
  qed (use h1(2) oc(2) in auto)
  moreover have "?C \<subseteq> {..< length h1}" using inC h1(3) by auto
  ultimately show ?thesis
    using bfs_loop_ok [OF _ o] h1 by (fastforce simp: buildFailPointers_def)
qed


section \<open>The search loop\<close>

definition next_node :: "acheap \<Rightarrow> rune \<Rightarrow> addr \<Rightarrow> addr" where
  "next_node h r c = (case map_of (children (h ! c)) r of Some n \<Rightarrow> n | None \<Rightarrow> c)"

lemma follow_fail_ok:
  assumes K: "links_ok M h L {0 <..< length h}" and f: "f < length h"
  shows "\<exists>g. follow_fail h r f = Some g \<and> next_node h r g < length h
    \<and> L ! next_node h r g = lsuf (set L) (L ! f @ [r])"
  using f
proof (induction "length (L ! f)" arbitrary: f rule: less_induct)
  case less
  note T = links_ok_trie [OF K]
  note P = trie_ok_prefix_closed [OF T]
  show ?case
  proof (cases "map_of (children (h ! f)) r")
    case (Some t)
    then have t: "t < length h" "L ! t = L ! f @ [r]"
      using trie_ok_child [OF T less.prems] by auto
    then have "L ! f @ [r] \<in> set L" using trie_okD(1) [OF T] by (metis nth_mem)
    then show ?thesis
      using Some t by (subst follow_fail.simps) (simp add: next_node_def lsuf_id)
  next
    case None
    then have miss: "L ! f @ [r] \<notin> set L" using trie_ok_lookup_None [OF T less.prems] by simp
    show ?thesis
    proof (cases "f = 0")
      case True
      then show ?thesis
        using None miss trie_okD [OF T] by (subst follow_fail.simps) (simp add: next_node_def)
    next
      case False
      then have "f \<in> {0 <..< length h}" using less.prems by simp
      then obtain b where b: "b < length h" "fail (h ! f) = Some b"
        "L ! b = lsuf (set L) (tl (L ! f))" by (rule links_ok_fail [OF K])
      have ne: "L ! f \<noteq> []" using trie_ok_label_Nil [OF T less.prems] False by simp
      have lt: "length (L ! b) < length (L ! f)" unfolding b(3) by (rule length_lsuf_tl [OF ne])
      have "lsuf (set L) (L ! f @ [r]) = lsuf (set L) (L ! b @ [r])"
        unfolding b(3) by (rule lsuf_extend_miss [OF P ne miss])
      then show ?thesis
        using less.hyps [OF lt b(1)] None b(2) False by (subst follow_fail.simps) simp
    qed
  qed
qed

lemma search_loop_ok:
  assumes K: "links_ok M h L {0 <..< length h}"
  shows "f < length h \<Longrightarrow> L ! f = lsuf (set L) pre \<Longrightarrow>
    search_loop h (length pre) f res rs = Some (res @ concat (map
      (\<lambda>i. map (match_of i) (over_suffixes M (take (Suc i) (pre @ rs))))
      [length pre ..< length pre + length rs]))"
proof (induction rs arbitrary: f pre res)
  case Nil
  then show ?case by simp
next
  case (Cons r rs)
  note P = trie_ok_prefix_closed [OF links_ok_trie [OF K]]
  obtain g where g: "follow_fail h r f = Some g" "next_node h r g < length h"
    "L ! next_node h r g = lsuf (set L) (L ! f @ [r])"
    using follow_fail_ok [OF K Cons.prems(1)] by blast
  let ?n = "next_node h r g"
  have lab: "L ! ?n = lsuf (set L) (pre @ [r])"
    using g(3) Cons.prems(2) lsuf_snoc [OF P, of pre r] by simp
  have "outputs (h ! ?n) = over_suffixes M (L ! ?n)"
    by (rule links_ok_outputs [OF K]) (use g(2) in auto)
  then have out: "outputs (h ! ?n) = over_suffixes M (pre @ [r])"
    using over_suffixes_lsuf [of "set L" M] links_ok_silent [OF K] lab by simp
  have "search_loop h (length pre) f res (r # rs) =
      search_loop h (length (pre @ [r])) ?n
        (res @ map (match_of (length pre)) (over_suffixes M (pre @ [r]))) rs"
    using g(1) out by (simp add: next_node_def Let_def)
  also have "\<dots> = Some (res @ map (match_of (length pre)) (over_suffixes M (pre @ [r])) @ concat (map
      (\<lambda>i. map (match_of i) (over_suffixes M (take (Suc i) (pre @ r # rs))))
      [Suc (length pre) ..< length pre + length (r # rs)]))"
    using Cons.IH [OF g(2) lab] by simp
  also have "\<dots> = Some (res @ concat (map
      (\<lambda>i. map (match_of i) (over_suffixes M (take (Suc i) (pre @ r # rs))))
      [length pre ..< length pre + length (r # rs)]))"
  proof -
    have "[length pre ..< length pre + length (r # rs)]
        = length pre # [Suc (length pre) ..< length pre + length (r # rs)]"
      by (simp add: upt_conv_Cons del: upt_Suc)
    moreover have "take (Suc (length pre)) (pre @ r # rs) = pre @ [r]" by simp
    ultimately show ?thesis by (simp only: list.map concat.simps)
  qed
  finally show ?case .
qed

section \<open>The automaton equals the reference matcher\<close>

text \<open>The automaton built from a word list, with the contract its clients use.\<close>

definition automaton_for :: "unicode_data \<Rightarrow> WordEntry list \<Rightarrow> AhoCorasick \<Rightarrow> bool" where
  "automaton_for u ws ac \<longleftrightarrow>
     (\<forall>text. SearchNormalized ac text = Some (reference_search u ws (runes_of text))) \<and>
     ac_WordCount ac = int (length (filter (\<lambda>w. pattern_of u w \<noteq> []) ws))"

lemma over_suffixes_empty: "(\<And>p. M p = []) \<Longrightarrow> over_suffixes M xs = []"
  by (induction xs) simp_all

lemma reference_search_no_words:
  "\<forall>w \<in> set ws. pattern_of u w = [] \<Longrightarrow> reference_search u ws text = []"
  by (auto simp: reference_search_def metas_for_def filter_empty_conv intro!: over_suffixes_empty)

lemma NewAhoCorasick_ok:
  assumes o: "\<forall>a. iteration_order (ord a)"
  shows "\<exists>ac. NewAhoCorasick u ord ws = Some ac \<and> automaton_for u ws ac"
proof -
  let ?ac = "foldl (ac_insert u) \<lparr>heap = [newACNode], wordCount = 0\<rparr> ws"
  obtain L where W: "words_ok u ws ?ac L" using words_ok_build by blast
  note T = W [unfolded words_ok_def, THEN conjunct1]
  let ?M = "metas_for u ws"
  have K: "links_ok ?M (heap ?ac) L {}"
    using W metas_for_absent [of ws u L]
    by (auto simp: links_ok_def words_ok_def metas_for_def)
  obtain h where h: "buildFailPointers ord (heap ?ac) = Some h"
    "links_ok ?M h L {0 <..< length h}" "length h = length (heap ?ac)"
    using buildFailPointers_ok [OF K o] by metis
  have wc: "wordCount ?ac = int (length (filter (\<lambda>w. pattern_of u w \<noteq> []) ws))"
    using W by (simp add: words_ok_def)
  have "SearchNormalized (?ac\<lparr>heap := h\<rparr>) t = Some (reference_search u ws (runes_of t))" for t
  proof (cases "wordCount ?ac = 0")
    case True
    with wc have "\<forall>w \<in> set ws. pattern_of u w = []" by (simp add: filter_empty_conv)
    with True show ?thesis by (simp add: SearchNormalized_def reference_search_no_words)
  next
    case False
    have "0 < length h" "L ! 0 = lsuf (set L) []"
      using trie_okD [OF T] h(3) by simp_all
    from search_loop_ok [OF h(2) this, of "[]" "runes_of t"] False show ?thesis
      by (simp add: SearchNormalized_def reference_search_def)
  qed
  with h(1) wc show ?thesis
    by (auto simp: NewAhoCorasick_def automaton_for_def ac_WordCount_def)
qed

section \<open>What the matches are\<close>

text \<open>The match that reports word \<open>w\<close> at rune position \<open>pos\<close>, and where words occur.\<close>

definition occurrence :: "unicode_data \<Rightarrow> WordEntry \<Rightarrow> nat \<Rightarrow> MatchItem" where
  "occurrence u w pos =
     \<lparr>mi_Word = we_Text w, mi_Position = int pos,
      mi_EndPos = int (pos + length (pattern_of u w)),
      mi_Category = we_Category w, mi_Level = we_Level w\<rparr>"

definition occurs_at :: "rune list \<Rightarrow> rune list \<Rightarrow> nat \<Rightarrow> bool" where
  "occurs_at p rs pos \<longleftrightarrow> p \<noteq> [] \<and> pos + length p \<le> length rs \<and> take (length p) (drop pos rs) = p"

lemma suffix_take_iff:
  "i < length rs \<Longrightarrow> p \<noteq> [] \<and> suffix p (take (Suc i) rs) \<longleftrightarrow>
     (\<exists>pos. occurs_at p rs pos \<and> Suc i = pos + length p)"
proof (intro iffI; (elim exE conjE)?)
  assume i: "i < length rs" and ne: "p \<noteq> []" and "suffix p (take (Suc i) rs)"
  then obtain zs where zs: "take (Suc i) rs = zs @ p" by (auto simp: suffix_def)
  then have len: "Suc i = length zs + length p"
    using i by (metis Suc_leI length_append length_take min.absorb2)
  have "rs = zs @ p @ drop (Suc i) rs" using zs by (metis append.assoc append_take_drop_id)
  then have "drop (length zs) rs = p @ drop (Suc i) rs" by (metis append_eq_conv_conj)
  then have "take (length p) (drop (length zs) rs) = p" by simp
  then show "\<exists>pos. occurs_at p rs pos \<and> Suc i = pos + length p"
    using len i ne by (auto simp: occurs_at_def)
next
  fix pos assume i: "i < length rs" and o: "occurs_at p rs pos" and e: "Suc i = pos + length p"
  have "take (Suc i) rs = take pos rs @ take (length p) (drop pos rs)"
    unfolding e by (rule take_add)
  then show "p \<noteq> [] \<and> suffix p (take (Suc i) rs)"
    using o by (auto simp: occurs_at_def suffix_def)
qed

lemma match_of_meta:
  "Suc i = pos + length (pattern_of u w) \<Longrightarrow> match_of i (meta_of u w) = occurrence u w pos"
  by (simp add: match_of_def meta_of_def occurrence_def)

lemma set_metas_for:
  "set (metas_for u ws p) = {meta_of u w |w. w \<in> set ws \<and> pattern_of u w = p \<and> p \<noteq> []}"
  by (auto simp: metas_for_def)

lemma set_reference_search:
  "set (reference_search u ws rs) =
   {occurrence u w pos |w pos. w \<in> set ws \<and> occurs_at (pattern_of u w) rs pos}" (is "?A = ?B")
proof (intro equalityI subsetI)
  fix m assume "m \<in> ?A"
  then obtain i w where w: "i < length rs" "m = match_of i (meta_of u w)" "w \<in> set ws"
    "suffix (pattern_of u w) (take (Suc i) rs)" "pattern_of u w \<noteq> []"
    by (auto simp: reference_search_def set_over_suffixes set_metas_for)
  then obtain pos where "occurs_at (pattern_of u w) rs pos" "Suc i = pos + length (pattern_of u w)"
    using suffix_take_iff [OF w(1), of "pattern_of u w"] by blast
  then show "m \<in> ?B" using w match_of_meta by blast
next
  fix m assume "m \<in> ?B"
  then obtain w pos where m: "m = occurrence u w pos" "w \<in> set ws" "occurs_at (pattern_of u w) rs pos"
    by blast
  define i where "i = pos + length (pattern_of u w) - 1"
  have "0 < length (pattern_of u w)" "pos + length (pattern_of u w) \<le> length rs"
    using m(3) by (auto simp: occurs_at_def)
  then have i: "Suc i = pos + length (pattern_of u w)" "i < length rs"
    unfolding i_def by linarith+
  have "suffix (pattern_of u w) (take (Suc i) rs)" "pattern_of u w \<noteq> []"
    using suffix_take_iff [OF i(2), of "pattern_of u w"] m(3) i(1) by blast+
  then have "meta_of u w \<in> set (over_suffixes (metas_for u ws) (take (Suc i) rs))"
    unfolding set_over_suffixes set_metas_for using m(2) by blast
  then show "m \<in> ?A"
    unfolding m(1) match_of_meta [OF i(1), symmetric] reference_search_def using i(2) by auto
qed

text \<open>The bounds every client of the matches relies on.\<close>

definition match_within :: "int \<Rightarrow> MatchItem \<Rightarrow> bool" where
  "match_within n m \<longleftrightarrow> 0 \<le> mi_Position m \<and> mi_Position m < mi_EndPos m \<and> mi_EndPos m \<le> n"

lemma reference_search_within:
  "m \<in> set (reference_search u ws rs) \<Longrightarrow> match_within (int (length rs)) m"
  by (auto simp: set_reference_search occurrence_def occurs_at_def match_within_def)

text \<open>Matches come by end position, and longest first where several end together.\<close>

definition reported_before :: "MatchItem \<Rightarrow> MatchItem \<Rightarrow> bool" where
  "reported_before m n \<longleftrightarrow>
     mi_EndPos m < mi_EndPos n \<or> mi_EndPos m = mi_EndPos n \<and> mi_Position m \<le> mi_Position n"

lemma sorted_wrt_concat_map:
  assumes "sorted_wrt R' xs" "\<And>x. x \<in> set xs \<Longrightarrow> sorted_wrt R (f x)"
    and "\<And>x y a b. x \<in> set xs \<Longrightarrow> y \<in> set xs \<Longrightarrow> R' x y \<Longrightarrow> a \<in> set (f x) \<Longrightarrow> b \<in> set (f y) \<Longrightarrow> R a b"
  shows "sorted_wrt R (concat (map f xs))"
  using assms
proof (induction xs)
  case Nil
  then show ?case by simp
next
  case (Cons x xs)
  have "sorted_wrt R (concat (map f xs))"
    by (rule Cons.IH) (use Cons.prems in \<open>simp, simp, force\<close>)
  moreover have "R a b" if "a \<in> set (f x)" "b \<in> set (concat (map f xs))" for a b
    using that Cons.prems(1) Cons.prems(3) [of x _ a b] by auto
  ultimately show ?case using Cons.prems(2) by (simp add: sorted_wrt_append)
qed

lemma metas_for_length: "m \<in> set (metas_for u ws p) \<Longrightarrow> wm_Length m = int (length p)"
  by (auto simp: set_metas_for meta_of_def)

lemma over_suffixes_metas_length:
  "m \<in> set (over_suffixes (metas_for u ws) xs) \<Longrightarrow> wm_Length m \<le> int (length xs)"
  by (fastforce simp: set_over_suffixes dest: metas_for_length suffix_length_le)

lemma over_suffixes_metas_sorted:
  "sorted_wrt (\<lambda>a b. wm_Length b \<le> wm_Length a) (over_suffixes (metas_for u ws) xs)"
proof (induction xs)
  case Nil
  then show ?case by (simp add: metas_for_def)
next
  case (Cons x xs)
  have "sorted_wrt (\<lambda>a b. wm_Length b \<le> wm_Length a) (metas_for u ws (x # xs))"
    by (simp add: sorted_wrt_iff_nth_less metas_for_length [OF nth_mem])
  moreover have "wm_Length b \<le> wm_Length a"
    if "a \<in> set (metas_for u ws (x # xs))" "b \<in> set (over_suffixes (metas_for u ws) xs)" for a b
    using metas_for_length [OF that(1)] over_suffixes_metas_length [OF that(2)] by simp
  ultimately show ?case using Cons by (simp add: sorted_wrt_append)
qed

lemma reference_search_sorted: "sorted_wrt reported_before (reference_search u ws rs)"
  unfolding reference_search_def
proof (rule sorted_wrt_concat_map)
  show "sorted_wrt (<) [0 ..< length rs]" by (rule sorted_wrt_upt)
  show "sorted_wrt reported_before (map (match_of i) (over_suffixes (metas_for u ws) (take (Suc i) rs)))"
    for i
    unfolding sorted_wrt_map
    by (rule sorted_wrt_mono_rel [OF _ over_suffixes_metas_sorted])
      (simp add: reported_before_def match_of_def)
qed (auto simp: reported_before_def match_of_def)

section \<open>The contract of a word matcher\<close>

text \<open>
  The interface the filter engine calls: build a matcher from a word list, search it, ask its
  size. The engine's facts are proved once, from these laws.
\<close>

locale word_matcher =
  fixes build :: "'o \<Rightarrow> WordEntry list \<Rightarrow> 'm option"
    and find :: "'m \<Rightarrow> gostring \<Rightarrow> MatchItem list option"
    and size_of :: "'m \<Rightarrow> int"
    and pattern :: "WordEntry \<Rightarrow> rune list"
    and report :: "WordEntry \<Rightarrow> nat \<Rightarrow> MatchItem"
    and admissible :: "'o \<Rightarrow> bool"
  assumes build_total: "admissible ord \<Longrightarrow> \<exists>m. build ord ws = Some m"
    and find_exact: "admissible ord \<Longrightarrow> build ord ws = Some m \<Longrightarrow>
      \<exists>ms. find m t = Some ms \<and>
        set ms = {report w pos |w pos. w \<in> set ws \<and> occurs_at (pattern w) (runes_of t) pos}"
    and find_deterministic: "admissible ord \<Longrightarrow> admissible ord' \<Longrightarrow>
      build ord ws = Some m \<Longrightarrow> build ord' ws = Some m' \<Longrightarrow> find m t = find m' t"
    and size_exact: "admissible ord \<Longrightarrow> build ord ws = Some m \<Longrightarrow>
      size_of m = int (length (filter (\<lambda>w. pattern w \<noteq> []) ws))"
    and report_word: "mi_Word (report w pos) = we_Text w"
begin

lemma find_hit_iff:
  assumes "admissible ord" "build ord ws = Some m" "find m t = Some ms"
  shows "ms \<noteq> [] \<longleftrightarrow> (\<exists>w \<in> set ws. \<exists>pos. occurs_at (pattern w) (runes_of t) pos)"
proof -
  have "set ms = {report w pos |w pos. w \<in> set ws \<and> occurs_at (pattern w) (runes_of t) pos}"
    using find_exact [OF assms(1,2), of t] assms(3) by simp
  then have "set ms \<noteq> {} \<longleftrightarrow> (\<exists>w \<in> set ws. \<exists>pos. occurs_at (pattern w) (runes_of t) pos)"
    by auto
  then show ?thesis by simp
qed

lemma find_monotone:
  assumes "admissible ord" "build ord ws = Some m" "build ord ws' = Some m'" "set ws \<subseteq> set ws'"
    and "find m t = Some ms" "find m' t = Some ms'"
  shows "set ms \<subseteq> set ms'"
proof -
  have "set ms = {report w pos |w pos. w \<in> set ws \<and> occurs_at (pattern w) (runes_of t) pos}"
    "set ms' = {report w pos |w pos. w \<in> set ws' \<and> occurs_at (pattern w) (runes_of t) pos}"
    using find_exact [OF assms(1,2), of t] find_exact [OF assms(1,3), of t] assms(5,6) by simp_all
  with assms(4) show ?thesis by blast
qed

lemma find_only_listed:
  "admissible ord \<Longrightarrow> build ord ws = Some m \<Longrightarrow> find m t = Some ms \<Longrightarrow> x \<in> set ms \<Longrightarrow>
   mi_Word x \<in> we_Text ` set ws"
  using find_exact [of ord ws m t] report_word by fastforce

end

interpretation acm: word_matcher "NewAhoCorasick u" SearchNormalized ac_WordCount "pattern_of u"
  "occurrence u" "\<lambda>ord. \<forall>a. iteration_order (ord a)" for u
proof unfold_locales
  fix ord ord' :: range_order and ws m m' t
  assume o: "\<forall>a. iteration_order (ord a)"
  show "\<exists>m. NewAhoCorasick u ord ws = Some m" using NewAhoCorasick_ok [OF o, of u ws] by auto
  assume m: "NewAhoCorasick u ord ws = Some m"
  then have A: "automaton_for u ws m" using NewAhoCorasick_ok [OF o, of u ws] by auto
  then show "\<exists>ms. SearchNormalized m t = Some ms \<and>
      set ms = {occurrence u w pos |w pos. w \<in> set ws \<and> occurs_at (pattern_of u w) (runes_of t) pos}"
    by (simp add: automaton_for_def set_reference_search)
  show "ac_WordCount m = int (length (filter (\<lambda>w. pattern_of u w \<noteq> []) ws))"
    using A by (simp add: automaton_for_def)
  assume o': "\<forall>a. iteration_order (ord' a)" and m': "NewAhoCorasick u ord' ws = Some m'"
  then have "automaton_for u ws m'" using NewAhoCorasick_ok [OF o', of u ws] by auto
  with A show "SearchNormalized m t = SearchNormalized m' t" by (simp add: automaton_for_def)
qed (simp add: occurrence_def)

section \<open>Properties of the automaton\<close>

text \<open>Four words of the repository's own test, and the reference's answer on its text.\<close>

definition sample_entry :: "gostring \<Rightarrow> WordEntry" where
  "sample_entry t = \<lparr>we_Text = t, we_Category = CategoryCustom, we_Level = RiskMedium\<rparr>"

definition sample_words :: "WordEntry list" where
  "sample_words = map sample_entry [''he'', ''she'', ''his'', ''hers'']"

lemma sample_reference:
  "reference_search ascii_data sample_words (runes_of ''ushers'') =
   [occurrence ascii_data (sample_entry ''she'') 1, occurrence ascii_data (sample_entry ''he'') 2,
    occurrence ascii_data (sample_entry ''hers'') 2]"
  by code_simp

text \<open>
  Claim C1. The automaton is equivalent to the brute-force reference: for every word list and
  every order in which the runtime may range over the children maps, \<open>NewAhoCorasick\<close> finishes,
  and \<open>SearchNormalized\<close> on any text returns (no nil fail pointer is ever followed, no loop runs
  forever) exactly the reference's list of matches, in the reference's order.
\<close>

theorem ac_search_equals_reference:
  assumes "\<forall>a. iteration_order (ord a)"
  shows "\<exists>ac. NewAhoCorasick u ord words = Some ac \<and>
    (\<forall>normalized. SearchNormalized ac normalized =
       Some (reference_search u words (runes_of normalized)))"
  using NewAhoCorasick_ok [OF assms, of u words] by (auto simp: automaton_for_def)

theorem ac_search_equals_reference_witness:
  "\<exists>ac. NewAhoCorasick ascii_data (\<lambda>_. rev) sample_words = Some ac \<and>
     SearchNormalized ac ''ushers'' =
       Some [occurrence ascii_data (sample_entry ''she'') 1,
             occurrence ascii_data (sample_entry ''he'') 2,
             occurrence ascii_data (sample_entry ''hers'') 2]"
  using ac_search_equals_reference [of "\<lambda>_. rev" ascii_data sample_words]
  unfolding sample_reference [symmetric] by auto

text \<open>
  The search is sound and complete: \<open>Search\<close> on a text reports a match exactly for each
  word of the list and each rune position at which the word's normalised form occurs in the
  normalised text, with that position, the end position, and the word's own category and level;
  every reported interval is non-empty and lies inside the normalised text.
\<close>

theorem ac_search_sound_complete:
  assumes "\<forall>a. iteration_order (ord a)" and "NewAhoCorasick u ord words = Some ac"
  shows "\<exists>ms. Search u ac t = Some ms \<and>
    set ms = {occurrence u w pos |w pos.
      w \<in> set words \<and> occurs_at (pattern_of u w) (runes_of (Normalize u t)) pos} \<and>
    (\<forall>m \<in> set ms. match_within (RuneCountInString (Normalize u t)) m)"
proof -
  have "automaton_for u words ac" using NewAhoCorasick_ok [OF assms(1), of u words] assms(2) by auto
  then show ?thesis
    using reference_search_within [of _ u words "runes_of (Normalize u t)"]
    by (auto simp: automaton_for_def Search_def RuneCountInString_def set_reference_search)
qed

theorem ac_search_sound_complete_witness:
  "\<exists>ac ms. NewAhoCorasick ascii_data (\<lambda>_ xs. xs) sample_words = Some ac \<and>
     Search ascii_data ac ''hers'' = Some ms \<and>
     occurrence ascii_data (sample_entry ''hers'') 0 \<in> set ms"
proof -
  have o: "\<forall>a. iteration_order ((\<lambda>(_::addr) xs. xs) a)" by simp
  obtain ac where ac: "NewAhoCorasick ascii_data (\<lambda>_ xs. xs) sample_words = Some ac"
    using acm.build_total [OF o] by blast
  have "occurs_at (pattern_of ascii_data (sample_entry ''hers''))
      (runes_of (Normalize ascii_data ''hers'')) 0" by code_simp
  moreover have "sample_entry ''hers'' \<in> set sample_words" by (simp add: sample_words_def)
  ultimately show ?thesis using ac_search_sound_complete [OF o ac, of "''hers''"] ac by fastforce
qed

text \<open>
  Matches are reported by end position, and by start position (longest word first)
  where several end at the same rune; the strategies and the first-match consumers see them so.
\<close>

theorem ac_search_reports_in_order:
  assumes "\<forall>a. iteration_order (ord a)" and "NewAhoCorasick u ord words = Some ac"
    and "SearchNormalized ac normalized = Some ms"
  shows "sorted_wrt reported_before ms"
proof -
  have "automaton_for u words ac" using NewAhoCorasick_ok [OF assms(1), of u words] assms(2) by auto
  then show ?thesis using assms(3) by (auto simp: automaton_for_def intro: reference_search_sorted)
qed

theorem ac_search_reports_in_order_witness:
  "\<exists>ac ms. NewAhoCorasick ascii_data (\<lambda>_. rev) sample_words = Some ac \<and>
     SearchNormalized ac ''ushers'' = Some ms \<and> length ms = 3 \<and> sorted_wrt reported_before ms"
proof -
  have o: "\<forall>a. iteration_order ((\<lambda>_. rev) (a::addr))" by simp
  obtain ac where ac: "NewAhoCorasick ascii_data (\<lambda>_. rev) sample_words = Some ac"
    using acm.build_total [OF o] by blast
  then have "automaton_for ascii_data sample_words ac"
    using NewAhoCorasick_ok [OF o, of ascii_data sample_words] by auto
  then have s: "SearchNormalized ac ''ushers'' =
      Some (reference_search ascii_data sample_words (runes_of ''ushers''))"
    by (simp add: automaton_for_def)
  have "length (reference_search ascii_data sample_words (runes_of ''ushers'')) = 3"
    unfolding sample_reference by simp
  with ac s ac_search_reports_in_order [OF o ac s] show ?thesis by blast
qed

end
