(* ===== verification/FilterEngine.thy ===== *)
theory FilterEngine
  imports AhoCorasick
begin

text \<open>
  \<open>internal/infrastructure/algorithm/filter_engine.go\<close>, and the interface
  \<open>internal/domain/service/filter_engine.go\<close> it implements. \<open>current\<close> and \<open>version\<close> are two
  separate atomic cells: \<open>Rebuild\<close> stores the new automaton first and increments the version
  next, and a reader may run between the two, so the two stores are definitions of their own.
  The mutex only serialises rebuilds. \<open>None\<close> is not returning, as for the automaton.
\<close>

record ACFilterEngine =
  current :: AhoCorasick
  version :: "64 word"

record MatchResult =
  mr_Matches :: "MatchItem list"
  mr_NormalizedText :: gostring

definition NewACFilterEngine :: "unicode_data \<Rightarrow> range_order \<Rightarrow> ACFilterEngine option" where
  "NewACFilterEngine u ord =
     (case NewAhoCorasick u ord [] of
        None \<Rightarrow> None | Some ac \<Rightarrow> Some \<lparr>current = ac, version = 0\<rparr>)"

definition Match :: "unicode_data \<Rightarrow> ACFilterEngine \<Rightarrow> gostring \<Rightarrow> MatchResult option" where
  "Match u e text =
     (let ac = current e;
          normalized = Normalize u text
      in case SearchNormalized ac normalized of
           None \<Rightarrow> None
         | Some matches \<Rightarrow> Some \<lparr>mr_Matches = matches, mr_NormalizedText = normalized\<rparr>)"

text \<open>The loop of \<open>Rebuild\<close> that keeps the active words.\<close>

fun rebuild_entries :: "SensitiveWord list \<Rightarrow> WordEntry list" where
  "rebuild_entries [] = []"
| "rebuild_entries (w # ws) =
     (if \<not> IsActive w then rebuild_entries ws
      else \<lparr>we_Text = sw_Text w, we_Category = sw_Category w, we_Level = sw_Level w\<rparr>
           # rebuild_entries ws)"

definition Rebuild_store :: "AhoCorasick \<Rightarrow> ACFilterEngine \<Rightarrow> ACFilterEngine" where
  "Rebuild_store newAC e = e\<lparr>current := newAC\<rparr>"

definition Rebuild_bump :: "ACFilterEngine \<Rightarrow> ACFilterEngine" where
  "Rebuild_bump e = e\<lparr>version := version e + 1\<rparr>"

definition Rebuild ::
  "unicode_data \<Rightarrow> range_order \<Rightarrow> ACFilterEngine \<Rightarrow> SensitiveWord list \<Rightarrow> ACFilterEngine option" where
  "Rebuild u ord e words =
     (case NewAhoCorasick u ord (rebuild_entries words) of
        None \<Rightarrow> None
      | Some newAC \<Rightarrow> Some (Rebuild_bump (Rebuild_store newAC e)))"

definition WordCount :: "ACFilterEngine \<Rightarrow> int" where
  "WordCount e = ac_WordCount (current e)"

definition Version :: "ACFilterEngine \<Rightarrow> 64 word" where
  "Version e = version e"

section \<open>The contract of the engine\<close>

text \<open>A sequence of rebuilds, as the services issue them.\<close>

fun rebuilds :: "('e \<Rightarrow> 'w \<Rightarrow> 'e option) \<Rightarrow> 'e \<Rightarrow> 'w list \<Rightarrow> 'e option" where
  "rebuilds f e [] = Some e"
| "rebuilds f e (w # ws) = (case f e w of None \<Rightarrow> None | Some e' \<Rightarrow> rebuilds f e' ws)"

locale filter_engine =
  fixes rebuild :: "'o \<Rightarrow> 'e \<Rightarrow> SensitiveWord list \<Rightarrow> 'e option"
    and lookup :: "'e \<Rightarrow> gostring \<Rightarrow> MatchResult option"
    and ver :: "'e \<Rightarrow> 64 word"
    and holds :: "'e \<Rightarrow> SensitiveWord list \<Rightarrow> bool"
    and verdict :: "SensitiveWord list \<Rightarrow> gostring \<Rightarrow> MatchResult"
    and admissible :: "'o \<Rightarrow> bool"
  assumes rebuild_total: "admissible ord \<Longrightarrow> \<exists>e'. rebuild ord e ws = Some e'"
    and rebuild_holds: "admissible ord \<Longrightarrow> rebuild ord e ws = Some e' \<Longrightarrow> holds e' ws"
    and rebuild_version: "rebuild ord e ws = Some e' \<Longrightarrow> ver e' = ver e + 1"
    and lookup_holds: "holds e ws \<Longrightarrow> lookup e t = Some (verdict ws t)"
begin

lemma rebuilds_version: "rebuilds (rebuild ord) e wss = Some e' \<Longrightarrow> ver e' = ver e + of_nat (length wss)"
proof (induction wss arbitrary: e)
  case Nil
  then show ?case by simp
next
  case (Cons ws wss)
  then obtain e1 where e1: "rebuild ord e ws = Some e1" "rebuilds (rebuild ord) e1 wss = Some e'"
    by (auto split: option.splits)
  from Cons.IH [OF e1(2)] rebuild_version [OF e1(1)] show ?case by simp
qed

lemma rebuilds_last:
  assumes "admissible ord"
  shows "\<exists>e'. rebuilds (rebuild ord) e (wss @ [ws]) = Some e' \<and> holds e' ws
    \<and> (\<forall>t. lookup e' t = Some (verdict ws t))"
proof (induction wss arbitrary: e)
  case Nil
  obtain e' where "rebuild ord e ws = Some e'" using rebuild_total [OF assms] by blast
  then show ?case using rebuild_holds [OF assms] lookup_holds by auto
next
  case (Cons v wss)
  obtain e1 where "rebuild ord e v = Some e1" using rebuild_total [OF assms] by blast
  then show ?case using Cons.IH [of e1] by simp
qed

end

text \<open>The engine holds a word list when its automaton is the one of the list's active words.\<close>

definition engine_holds :: "unicode_data \<Rightarrow> ACFilterEngine \<Rightarrow> SensitiveWord list \<Rightarrow> bool" where
  "engine_holds u e ws \<longleftrightarrow> automaton_for u (rebuild_entries ws) (current e)"

definition engine_verdict :: "unicode_data \<Rightarrow> SensitiveWord list \<Rightarrow> gostring \<Rightarrow> MatchResult" where
  "engine_verdict u ws t =
     \<lparr>mr_Matches = reference_search u (rebuild_entries ws) (runes_of (Normalize u t)),
      mr_NormalizedText = Normalize u t\<rparr>"

lemma Rebuild_SomeD:
  assumes "Rebuild u ord e ws = Some e'"
  obtains ac where "NewAhoCorasick u ord (rebuild_entries ws) = Some ac"
    "e' = \<lparr>current = ac, version = version e + 1\<rparr>"
  using assms by (cases e) (auto simp: Rebuild_def Rebuild_bump_def Rebuild_store_def split: option.splits)

interpretation eng: filter_engine "Rebuild u" "Match u" Version "engine_holds u" "engine_verdict u"
  "\<lambda>ord. \<forall>a. iteration_order (ord a)" for u
proof unfold_locales
  fix ord :: range_order and e ws e'
  assume o: "\<forall>a. iteration_order (ord a)"
  show "\<exists>e'. Rebuild u ord e ws = Some e'"
    using acm.build_total [OF o, of u "rebuild_entries ws"] by (auto simp: Rebuild_def)
  assume "Rebuild u ord e ws = Some e'"
  then obtain ac where "NewAhoCorasick u ord (rebuild_entries ws) = Some ac" "current e' = ac"
    by (auto elim: Rebuild_SomeD)
  then show "engine_holds u e' ws"
    using NewAhoCorasick_ok [OF o, of u "rebuild_entries ws"] by (simp add: engine_holds_def)
next
  fix ord :: range_order and e ws e'
  assume "Rebuild u ord e ws = Some e'"
  then show "Version e' = Version e + 1" by (auto simp: Version_def elim: Rebuild_SomeD)
next
  fix e ws t
  assume "engine_holds u e ws"
  then show "Match u e t = Some (engine_verdict u ws t)"
    by (simp add: engine_holds_def automaton_for_def Match_def engine_verdict_def Let_def)
qed

section \<open>Properties of the engine\<close>

lemma set_rebuild_entries:
  "set (rebuild_entries ws) =
   {\<lparr>we_Text = sw_Text w, we_Category = sw_Category w, we_Level = sw_Level w\<rparr> |w.
      w \<in> set ws \<and> IsActive w}"
  by (induction ws) auto

text \<open>The normalised runes of a stored word.\<close>

definition word_pattern :: "unicode_data \<Rightarrow> SensitiveWord \<Rightarrow> rune list" where
  "word_pattern u w = runes_of (Normalize u (sw_Text w))"

lemma length_rebuild_patterns:
  "length (filter (\<lambda>w. pattern_of u w \<noteq> []) (rebuild_entries ws)) =
   length (filter (\<lambda>w. IsActive w \<and> word_pattern u w \<noteq> []) ws)"
  by (induction ws) (auto simp: pattern_of_def word_pattern_def)

lemma verdict_hit_iff:
  "mr_Matches (engine_verdict u ws t) \<noteq> [] \<longleftrightarrow>
   (\<exists>w \<in> set ws. IsActive w \<and> (\<exists>pos. occurs_at (word_pattern u w) (runes_of (Normalize u t)) pos))"
proof -
  have "mr_Matches (engine_verdict u ws t) \<noteq> [] \<longleftrightarrow> set (mr_Matches (engine_verdict u ws t)) \<noteq> {}"
    by simp
  also have "\<dots> \<longleftrightarrow> (\<exists>w \<in> set ws. IsActive w \<and>
      (\<exists>pos. occurs_at (word_pattern u w) (runes_of (Normalize u t)) pos))"
    unfolding engine_verdict_def
    by (force simp: set_reference_search set_rebuild_entries pattern_of_def word_pattern_def)
  finally show ?thesis .
qed

text \<open>A word as the repository's tests make it, and an active and an inactive one.\<close>

definition sample_word :: "gostring \<Rightarrow> WordStatus \<Rightarrow> SensitiveWord" where
  "sample_word t st =
     \<lparr>sw_ID = 1, sw_Text = t, sw_Category = CategoryCustom, sw_Level = RiskMedium,
      sw_Status = st, sw_Tag = [], sw_CreatedAt = 0, sw_UpdatedAt = 0\<rparr>"

text \<open>
  Claim C7. After any sequence of rebuilds, with the children maps ranged over in any order, the
  engine answers exactly by the last word list: \<open>Match\<close> returns, its matches are those of the
  reference matcher on the active words of that list, it hits if and only if the normalised
  form of an active word occurs in the normalised text, and nothing of an earlier list is left.
  The version has grown by the number of rebuilds, modulo \<open>2^64\<close>.
\<close>

theorem engine_match_after_rebuilds:
  assumes "\<forall>a. iteration_order (ord a)"
  shows "\<exists>e'. rebuilds (Rebuild u ord) e (wss @ [ws]) = Some e' \<and>
    Version e' = Version e + of_nat (length (wss @ [ws])) \<and>
    (\<forall>t. \<exists>r. Match u e' t = Some r \<and>
       mr_NormalizedText r = Normalize u t \<and>
       mr_Matches r = reference_search u (rebuild_entries ws) (runes_of (Normalize u t)) \<and>
       (mr_Matches r \<noteq> [] \<longleftrightarrow> (\<exists>w \<in> set ws. IsActive w \<and>
          (\<exists>pos. occurs_at (word_pattern u w) (runes_of (Normalize u t)) pos))))"
proof -
  obtain e' where e': "rebuilds (Rebuild u ord) e (wss @ [ws]) = Some e'"
    "\<forall>t. Match u e' t = Some (engine_verdict u ws t)"
    using eng.rebuilds_last [OF assms, of u e wss ws] by blast
  have "Version e' = Version e + of_nat (length (wss @ [ws]))"
    by (rule eng.rebuilds_version [OF e'(1)])
  with e' show ?thesis using verdict_hit_iff [of u ws] by (auto simp: engine_verdict_def)
qed

theorem engine_match_after_rebuilds_witness:
  "\<exists>e'. rebuilds (Rebuild ascii_data (\<lambda>_. rev))
      \<lparr>current = \<lparr>heap = [newACNode], wordCount = 0\<rparr>, version = 7\<rparr>
      ([[sample_word ''bad'' WordStatusActive]] @
       [[sample_word ''evil'' WordStatusActive, sample_word ''bad'' WordStatusInactive]]) = Some e' \<and>
    Version e' = 9 \<and>
    (\<exists>r. Match ascii_data e' ''a bad text'' = Some r \<and> mr_Matches r = [])"
proof -
  let ?ws = "[sample_word ''evil'' WordStatusActive, sample_word ''bad'' WordStatusInactive]"
  have o: "\<forall>a. iteration_order ((\<lambda>_. rev) (a::addr))" by simp
  have none: "reference_search ascii_data (rebuild_entries ?ws)
      (runes_of (Normalize ascii_data ''a bad text'')) = []" by code_simp
  show ?thesis
    using engine_match_after_rebuilds [OF o, of ascii_data
        "\<lparr>current = \<lparr>heap = [newACNode], wordCount = 0\<rparr>, version = 7\<rparr>"
        "[[sample_word ''bad'' WordStatusActive]]" ?ws] none
    by (fastforce simp: Version_def)
qed

text \<open>
  \<open>WordCount\<close> after a rebuild is the number of words that are active and whose normalised
  form is not empty: inactive words and words made of invisible characters are not loaded.
\<close>

theorem engine_word_count:
  assumes "\<forall>a. iteration_order (ord a)" and "Rebuild u ord e ws = Some e'"
  shows "WordCount e' = int (length (filter (\<lambda>w. IsActive w \<and> word_pattern u w \<noteq> []) ws))"
proof -
  obtain ac where ac: "NewAhoCorasick u ord (rebuild_entries ws) = Some ac" "current e' = ac"
    using assms(2) by (auto elim: Rebuild_SomeD)
  then show ?thesis
    using acm.size_exact [OF assms(1) ac(1)] by (simp add: WordCount_def length_rebuild_patterns)
qed

theorem engine_word_count_witness:
  "\<exists>e'. Rebuild ascii_data (\<lambda>_ xs. xs) \<lparr>current = \<lparr>heap = [newACNode], wordCount = 0\<rparr>, version = 0\<rparr>
      [sample_word ''bad'' WordStatusActive, sample_word ''evil'' WordStatusInactive,
       sample_word '''' WordStatusActive] = Some e' \<and> WordCount e' = 1"
proof -
  have o: "\<forall>a. iteration_order ((\<lambda>(_::addr) xs. xs) a)" by simp
  let ?e = "\<lparr>current = \<lparr>heap = [newACNode], wordCount = 0\<rparr>, version = 0\<rparr>"
  let ?ws = "[sample_word ''bad'' WordStatusActive, sample_word ''evil'' WordStatusInactive,
       sample_word '''' WordStatusActive]"
  have n: "length (filter (\<lambda>w. IsActive w \<and> word_pattern ascii_data w \<noteq> []) ?ws) = 1" by code_simp
  obtain e' where e': "Rebuild ascii_data (\<lambda>_ xs. xs) ?e ?ws = Some e'"
    using eng.rebuild_total [OF o] by blast
  show ?thesis using e' engine_word_count [OF o e'] n by auto
qed

end
