(* ===== verification/WordService.thy ===== *)
theory WordService
  imports WordRepo MultiLevelCache FilterEngine
begin

text \<open>
  The requests of \<open>internal/application/service/word_app_service.go\<close> on words, with the transfer
  objects of \<open>dto/word_dto.go\<close> and their assembler; the polling loop is in theory \<open>Reconcile\<close>.
  \<open>None\<close> is a request that does not return, as when Redis never ends a scan.
\<close>

section \<open>Transfer objects\<close>

record CreateWordRequest =
  cw_Text :: gostring
  cw_Category :: gostring
  cw_Level :: int
  cw_Tag :: gostring

record UpdateWordRequest =
  uw_Text :: "gostring option"
  uw_Category :: "gostring option"
  uw_Level :: "int option"
  uw_Status :: "int option"
  uw_Tag :: "gostring option"

record WordResponse =
  wr_ID :: "64 word"
  wr_Text :: gostring
  wr_Category :: gostring
  wr_Level :: int
  wr_Status :: int
  wr_Tag :: gostring
  wr_CreatedAt :: instant
  wr_UpdatedAt :: instant

record WordListRequest =
  lr_Category :: gostring
  lr_Level :: int
  lr_Status :: int
  lr_Keyword :: gostring
  lr_Page :: int
  lr_PageSize :: int

record WordListResponse =
  ls_Items :: "WordResponse list"
  ls_Total :: int
  ls_Page :: int
  ls_PageSize :: int

record ImportRequest =
  im_Words :: "CreateWordRequest list"

record ImportFailure =
  if_Index :: nat
  if_Word :: gostring
  if_Reason :: gostring

record ImportResponse =
  ir_Total :: int
  ir_Imported :: int
  ir_Skipped :: int
  ir_Failures :: "ImportFailure list"

text \<open>A new entity has the zero id and the zero times.\<close>

definition CreateDTOToEntity :: "unicode_data \<Rightarrow> CreateWordRequest \<Rightarrow> SensitiveWord" where
  "CreateDTOToEntity u req =
     \<lparr>sw_ID = 0, sw_Text = NormalizeForIndex u (cw_Text req), sw_Category = cw_Category req,
      sw_Level = cw_Level req, sw_Status = WordStatusActive, sw_Tag = cw_Tag req,
      sw_CreatedAt = 0, sw_UpdatedAt = 0\<rparr>"

definition EntityToDTO :: "SensitiveWord \<Rightarrow> WordResponse" where
  "EntityToDTO e =
     \<lparr>wr_ID = sw_ID e, wr_Text = sw_Text e, wr_Category = sw_Category e, wr_Level = sw_Level e,
      wr_Status = sw_Status e, wr_Tag = sw_Tag e, wr_CreatedAt = sw_CreatedAt e,
      wr_UpdatedAt = sw_UpdatedAt e\<rparr>"

definition EntitiesToDTOs :: "SensitiveWord list \<Rightarrow> WordResponse list" where
  "EntitiesToDTOs entities = map EntityToDTO entities"

section \<open>The service\<close>

text \<open>What the service is wired to, with the instants around its Redis commands.\<close>

record ('d, 'r) word_deps =
  dp_unicode :: unicode_data
  dp_gorm :: "'d gorm"
  dp_client :: "'r redis_client"
  dp_items_order :: "items \<Rightarrow> items"
  dp_now :: instant
  dp_later :: instant

record ('d, 'r) word_state =
  st_db :: 'd
  st_cache :: "'r MultiLevelCache option"

definition invalidatePrefix ::
  "('d, 'r) word_deps \<Rightarrow> gostring \<Rightarrow> ('d, 'r) word_state \<Rightarrow> ('d, 'r) word_state option" where
  "invalidatePrefix dp pfx s =
     (case st_cache s of
        None \<Rightarrow> Some s
      | Some c \<Rightarrow>
          (case InvalidateByPrefix (dp_client dp) (dp_items_order dp) (dp_now dp) (dp_later dp) pfx c of
             None \<Rightarrow> None
           | Some (_, c') \<Rightarrow> Some (s\<lparr>st_cache := Some c'\<rparr>)))"

definition then_invalidate ::
  "('d, 'r) word_deps \<Rightarrow> gostring \<Rightarrow> 'a \<Rightarrow> ('d, 'r) word_state \<Rightarrow> ('a \<times> ('d, 'r) word_state) option" where
  "then_invalidate dp pfx x s = map_option (\<lambda>s'. (x, s')) (invalidatePrefix dp pfx s)"

definition Word_Create ::
  "('d, 'r) word_deps \<Rightarrow> CreateWordRequest \<Rightarrow> ('d, 'r) word_state \<Rightarrow>
   (WordResponse result \<times> ('d, 'r) word_state) option" where
  "Word_Create dp req s =
     (let wd = CreateDTOToEntity (dp_unicode dp) req in
      case Validate wd of
        Some err \<Rightarrow> Some (Inl (BizErr (Wrap ErrInvalidRequest (error_text err))), s)
      | None \<Rightarrow>
          (case FindByText (dp_gorm dp) (sw_Text wd) (st_db s) of
             Inr existing \<Rightarrow> Some (Inl (BizErr ErrWordAlreadyExists), s)
           | Inl _ \<Rightarrow>
               (case Repo_Create (dp_gorm dp) wd (st_db s) of
                  (Inl err, d') \<Rightarrow> Some (Inl err, s\<lparr>st_db := d'\<rparr>)
                | (Inr wd', d') \<Rightarrow>
                    then_invalidate dp ''words:'' (Inr (EntityToDTO wd')) (s\<lparr>st_db := d'\<rparr>))))"

text \<open>\<open>err == gorm.ErrRecordNotFound\<close> becomes the business error.\<close>

definition not_found :: "error \<Rightarrow> error" where
  "not_found err = (if err = RecordNotFound then BizErr ErrWordNotFound else err)"

text \<open>The fields of the request that are present, in order; the first bad one ends the request.\<close>

definition apply_update :: "unicode_data \<Rightarrow> UpdateWordRequest \<Rightarrow> SensitiveWord \<Rightarrow> SensitiveWord result" where
  "apply_update u req w0 =
     (let w1 = (case uw_Text req of Some t \<Rightarrow> w0\<lparr>sw_Text := NormalizeForIndex u t\<rparr> | None \<Rightarrow> w0) in
      case (case uw_Category req of
              None \<Rightarrow> Inr w1
            | Some c \<Rightarrow> (case ParseCategory c of
                 Inl _ \<Rightarrow> Inl (BizErr ErrInvalidCategory) | Inr cat \<Rightarrow> Inr (w1\<lparr>sw_Category := cat\<rparr>))) of
        Inl err \<Rightarrow> Inl err
      | Inr w2 \<Rightarrow>
          (case (case uw_Level req of
                   None \<Rightarrow> Inr w2
                 | Some n \<Rightarrow> (case ParseRiskLevel n of
                      Inl _ \<Rightarrow> Inl (BizErr ErrInvalidRiskLevel) | Inr lv \<Rightarrow> Inr (w2\<lparr>sw_Level := lv\<rparr>))) of
             Inl err \<Rightarrow> Inl err
           | Inr w3 \<Rightarrow>
               (let w4 = (case uw_Status req of Some st \<Rightarrow> w3\<lparr>sw_Status := st\<rparr> | None \<Rightarrow> w3)
                in Inr (case uw_Tag req of Some t \<Rightarrow> w4\<lparr>sw_Tag := t\<rparr> | None \<Rightarrow> w4))))"

definition Word_Update ::
  "('d, 'r) word_deps \<Rightarrow> 64 word \<Rightarrow> UpdateWordRequest \<Rightarrow> ('d, 'r) word_state \<Rightarrow>
   (WordResponse result \<times> ('d, 'r) word_state) option" where
  "Word_Update dp i req s =
     (case FindByID (dp_gorm dp) i (st_db s) of
        Inl err \<Rightarrow> Some (Inl (not_found err), s)
      | Inr w0 \<Rightarrow>
          (case apply_update (dp_unicode dp) req w0 of
             Inl err \<Rightarrow> Some (Inl err, s)
           | Inr wd \<Rightarrow>
               (case Validate wd of
                  Some err \<Rightarrow> Some (Inl (BizErr (Wrap ErrInvalidRequest (error_text err))), s)
                | None \<Rightarrow>
                    (case Repo_Update (dp_gorm dp) wd (st_db s) of
                       (Some err, d') \<Rightarrow> Some (Inl err, s\<lparr>st_db := d'\<rparr>)
                     | (None, d') \<Rightarrow>
                         then_invalidate dp ''words:'' (Inr (EntityToDTO wd)) (s\<lparr>st_db := d'\<rparr>)))))"

definition Word_Delete ::
  "('d, 'r) word_deps \<Rightarrow> 64 word \<Rightarrow> ('d, 'r) word_state \<Rightarrow>
   (error option \<times> ('d, 'r) word_state) option" where
  "Word_Delete dp i s =
     (case FindByID (dp_gorm dp) i (st_db s) of
        Inl err \<Rightarrow> Some (Some (not_found err), s)
      | Inr _ \<Rightarrow>
          (case Repo_Delete (dp_gorm dp) i (st_db s) of
             (Some err, d') \<Rightarrow> Some (Some err, s\<lparr>st_db := d'\<rparr>)
           | (None, d') \<Rightarrow> then_invalidate dp ''words:'' None (s\<lparr>st_db := d'\<rparr>)))"

definition Word_Get :: "('d, 'r) word_deps \<Rightarrow> 64 word \<Rightarrow> ('d, 'r) word_state \<Rightarrow> WordResponse result" where
  "Word_Get dp i s =
     (case FindByID (dp_gorm dp) i (st_db s) of
        Inl err \<Rightarrow> Inl (not_found err) | Inr w \<Rightarrow> Inr (EntityToDTO w))"

definition Word_List ::
  "('d, 'r) word_deps \<Rightarrow> WordListRequest \<Rightarrow> ('d, 'r) word_state \<Rightarrow> WordListResponse result" where
  "Word_List dp req s =
     (let q = \<lparr>wq_Category = (if lr_Category req \<noteq> [] then Some (lr_Category req) else None),
               wq_Level = (if lr_Level req > 0 then Some (lr_Level req) else None),
               wq_Status = None, wq_Keyword = lr_Keyword req, wq_Page = lr_Page req,
               wq_PageSize = lr_PageSize req\<rparr>
      in case Repo_List (dp_gorm dp) q (st_db s) of
           Inl err \<Rightarrow> Inl err
         | Inr (wds, cnt) \<Rightarrow>
             Inr \<lparr>ls_Items = EntitiesToDTOs wds, ls_Total = cnt, ls_Page = lr_Page req,
                  ls_PageSize = lr_PageSize req\<rparr>)"

text \<open>The loop of \<open>Import\<close>: the words to create, and the failures with their index.\<close>

fun import_loop ::
  "unicode_data \<Rightarrow> nat \<Rightarrow> CreateWordRequest list \<Rightarrow> SensitiveWord list \<times> ImportFailure list" where
  "import_loop u i [] = ([], [])"
| "import_loop u i (w # ws) =
     (let wd = CreateDTOToEntity u w; (wds, fs) = import_loop u (Suc i) ws in
      case Validate wd of
        Some err \<Rightarrow> (wds, \<lparr>if_Index = i, if_Word = cw_Text w, if_Reason = error_text err\<rparr> # fs)
      | None \<Rightarrow> (wd # wds, fs))"

definition Word_Import ::
  "('d, 'r) word_deps \<Rightarrow> ImportRequest \<Rightarrow> ('d, 'r) word_state \<Rightarrow>
   (ImportResponse result \<times> ('d, 'r) word_state) option" where
  "Word_Import dp req s =
     (let (wds, failures) = import_loop (dp_unicode dp) 0 (im_Words req) in
      case BatchCreate (dp_gorm dp) wds (st_db s) of
        (Inl err, d') \<Rightarrow> Some (Inl (BizErr (Wrap ErrImportFailed (error_text err))), s\<lparr>st_db := d'\<rparr>)
      | (Inr imported, d') \<Rightarrow>
          then_invalidate dp ''words:''
            (Inr \<lparr>ir_Total = int (length (im_Words req)), ir_Imported = imported,
                  ir_Skipped = int (length failures), ir_Failures = failures\<rparr>)
            (s\<lparr>st_db := d'\<rparr>))"

section \<open>Export\<close>

text \<open>
  Package \<open>encoding/csv\<close> as it is used: a field is quoted if it is \<open>\.\<close>, contains a comma, a quote
  or a line break, or begins with a space; in quotes a quote is doubled. \<open>io_write\<close> is the
  writer the export is given; the csv writer keeps its first error. When it hands over a full
  buffer before \<open>Flush\<close> is not modelled: what is written is the same.
\<close>

definition field_needs_quotes :: "gostring \<Rightarrow> bool" where
  "field_needs_quotes f \<longleftrightarrow> f \<noteq> [] \<and>
     (f = [CHR 0x5C, CHR ''.''] \<or>
      (\<exists>c \<in> set f. c = CHR '','' \<or> c = CHR 0x22 \<or> c = CHR 0x0D \<or> c = CHR 0x0A) \<or>
      IsSpace (hd (runes_of f)))"

definition csv_field :: "gostring \<Rightarrow> gostring" where
  "csv_field f =
     (if field_needs_quotes f
      then CHR 0x22 # concat (map (\<lambda>c. if c = CHR 0x22 then [c, c] else [c]) f) @ [CHR 0x22]
      else f)"

fun csv_join :: "gostring list \<Rightarrow> gostring" where
  "csv_join [] = []"
| "csv_join [f] = csv_field f"
| "csv_join (f # g # fs) = csv_field f @ CHR '','' # csv_join (g # fs)"

definition csv_record :: "gostring list \<Rightarrow> gostring" where
  "csv_record fs = csv_join fs @ [CHR 0x0A]"

record 'w csv_writer =
  cv_out :: 'w
  cv_buffer :: gostring
  cv_err :: "error option"

definition csv_Write :: "gostring list \<Rightarrow> 'w csv_writer \<Rightarrow> 'w csv_writer" where
  "csv_Write fs w = w\<lparr>cv_buffer := cv_buffer w @ csv_record fs\<rparr>"

definition csv_Flush :: "(gostring \<Rightarrow> 'w \<Rightarrow> error option \<times> 'w) \<Rightarrow> 'w csv_writer \<Rightarrow> 'w csv_writer" where
  "csv_Flush io_write w =
     (case cv_err w of
        Some _ \<Rightarrow> w
      | None \<Rightarrow>
          (let (err, out) = io_write (cv_buffer w) (cv_out w)
           in w\<lparr>cv_out := out, cv_buffer := (if err = None then [] else cv_buffer w), cv_err := err\<rparr>))"

definition export_record :: "SensitiveWord \<Rightarrow> gostring list" where
  "export_record w = [sw_Text w, sw_Category w, RiskLevel_String (sw_Level w), sw_Tag w]"

definition export_batch ::
  "(gostring \<Rightarrow> 'w \<Rightarrow> error option \<times> 'w) \<Rightarrow> SensitiveWord list \<Rightarrow> 'w csv_writer \<Rightarrow>
   error option \<times> 'w csv_writer" where
  "export_batch io_write wds w =
     (let w' = csv_Flush io_write (fold (\<lambda>wd. csv_Write (export_record wd)) wds w) in (cv_err w', w'))"

definition ExportToWriter ::
  "('d, 'r) word_deps \<Rightarrow> (gostring \<Rightarrow> 'w \<Rightarrow> error option \<times> 'w) \<Rightarrow> gostring \<Rightarrow> 'w \<Rightarrow>
   ('d, 'r) word_state \<Rightarrow> error option \<times> 'w" where
  "ExportToWriter dp io_write category out s =
     (let w0 = csv_Write [''text'', ''category'', ''level'', ''tag'']
            \<lparr>cv_out = out, cv_buffer = [], cv_err = None\<rparr>;
          cat = (if category \<noteq> [] then Some category else None);
          (err, w1) = FindInBatches (dp_gorm dp) cat 1000 (export_batch io_write) (st_db s) w0
      in case err of
           Some e \<Rightarrow> (Some e, cv_out w1)
         | None \<Rightarrow> (let w2 = csv_Flush io_write w1 in (cv_err w2, cv_out w2)))"

section \<open>What requests do to the table\<close>

lemma entity_ids [simp]: "md_ID (FromEntity e) = sw_ID e" "sw_ID (ToEntity m) = md_ID m"
  by (simp_all add: FromEntity_def ToEntity_def)

lemma then_invalidate_db:
  "then_invalidate dp pfx x s = Some (y, s') \<Longrightarrow> y = x \<and> st_db s' = st_db s"
  by (auto simp: then_invalidate_def invalidatePrefix_def split: option.splits prod.splits)

lemma FindByID_ok:
  assumes "read_ok g like rows"
  shows "FindByID g i d = Inr w \<Longrightarrow> FromEntity w \<in> set (rows d) \<and> sw_ID w = i"
    "FindByID g i d = Inl RecordNotFound \<Longrightarrow> i \<notin> row_ids (rows d)"
proof -
  have r: "g_first_id g i d = Inr m \<Longrightarrow> m \<in> set (rows d) \<and> md_ID m = i"
    "g_first_id g i d = Inl RecordNotFound \<Longrightarrow> i \<notin> row_ids (rows d)" for m
    using assms unfolding read_ok_def by simp_all
  have id: "sw_ID (ToEntity m) = md_ID m" for m by (simp add: ToEntity_def)
  show "FindByID g i d = Inr w \<Longrightarrow> FromEntity w \<in> set (rows d) \<and> sw_ID w = i"
    using r(1) by (auto simp: FindByID_def id split: sum.splits)
  show "FindByID g i d = Inl RecordNotFound \<Longrightarrow> i \<notin> row_ids (rows d)"
    using r(2) by (auto simp: FindByID_def split: sum.splits)
qed

lemma Create_cases:
  assumes "Word_Create dp req s = Some (x, s')"
  obtains err where "Validate (CreateDTOToEntity (dp_unicode dp) req) = Some err"
      "x = Inl (BizErr (Wrap ErrInvalidRequest (error_text err)))" "s' = s"
  | w where "Validate (CreateDTOToEntity (dp_unicode dp) req) = None"
      "FindByText (dp_gorm dp) (sw_Text (CreateDTOToEntity (dp_unicode dp) req)) (st_db s) = Inr w"
      "x = Inl (BizErr ErrWordAlreadyExists)" "s' = s"
  | err where "Validate (CreateDTOToEntity (dp_unicode dp) req) = None" "x = Inl err"
      "g_create (dp_gorm dp) (FromEntity (CreateDTOToEntity (dp_unicode dp) req)) (st_db s) = (Inl err, st_db s')"
  | m where "Validate (CreateDTOToEntity (dp_unicode dp) req) = None"
      "g_create (dp_gorm dp) (FromEntity (CreateDTOToEntity (dp_unicode dp) req)) (st_db s) = (Inr m, st_db s')"
      "x = Inr (EntityToDTO ((CreateDTOToEntity (dp_unicode dp) req)
         \<lparr>sw_ID := md_ID m, sw_CreatedAt := md_CreatedAt m, sw_UpdatedAt := md_UpdatedAt m\<rparr>))"
proof (cases "Validate (CreateDTOToEntity (dp_unicode dp) req)")
  case (Some err)
  with assms have "x = Inl (BizErr (Wrap ErrInvalidRequest (error_text err)))" "s' = s"
    by (simp_all add: Word_Create_def)
  then show ?thesis by (rule that(1) [OF Some])
next
  case None
  let ?wd = "CreateDTOToEntity (dp_unicode dp) req"
  show ?thesis
  proof (cases "FindByText (dp_gorm dp) (sw_Text ?wd) (st_db s)")
    case (Inr w)
    with assms None have "x = Inl (BizErr ErrWordAlreadyExists)" "s' = s"
      by (simp_all add: Word_Create_def)
    then show ?thesis by (rule that(2) [OF None Inr])
  next
    case (Inl e)
    obtain y d' where c: "g_create (dp_gorm dp) (FromEntity ?wd) (st_db s) = (y, d')" by force
    show ?thesis
    proof (cases y)
      case (Inl err)
      with assms None c \<open>FindByText _ _ _ = Inl e\<close>
      have "x = Inl err" "s' = s\<lparr>st_db := d'\<rparr>"
        by (simp_all add: Word_Create_def Repo_Create_def)
      with c Inl show ?thesis by (intro that(3) [OF None]) simp_all
    next
      case (Inr m)
      with assms None c Inl
      have "then_invalidate dp ''words:'' (Inr (EntityToDTO (?wd\<lparr>sw_ID := md_ID m,
          sw_CreatedAt := md_CreatedAt m, sw_UpdatedAt := md_UpdatedAt m\<rparr>))) (s\<lparr>st_db := d'\<rparr>) = Some (x, s')"
        by (simp add: Word_Create_def Repo_Create_def)
      from then_invalidate_db [OF this] c Inr show ?thesis by (intro that(4) [OF None]) simp_all
    qed
  qed
qed

lemma Update_cases:
  assumes "Word_Update dp i req s = Some (x, s')"
  obtains err where "x = Inl err" "s' = s"
  | w wd err where "x = Inl err" "FindByID (dp_gorm dp) i (st_db s) = Inr w"
      "g_save (dp_gorm dp) (FromEntity wd) (st_db s) = (Some err, st_db s')"
  | w wd where "FindByID (dp_gorm dp) i (st_db s) = Inr w"
      "apply_update (dp_unicode dp) req w = Inr wd" "Validate wd = None" "x = Inr (EntityToDTO wd)"
      "g_save (dp_gorm dp) (FromEntity wd) (st_db s) = (None, st_db s')"
  using assms
  by (auto simp: Word_Update_def Repo_Update_def split: sum.splits option.splits prod.splits
      dest: then_invalidate_db)

lemma Delete_cases:
  assumes "Word_Delete dp i s = Some (x, s')"
  obtains err where "FindByID (dp_gorm dp) i (st_db s) = Inl err" "x = Some (not_found err)" "s' = s"
  | w err where "FindByID (dp_gorm dp) i (st_db s) = Inr w" "x = Some err"
      "g_delete (dp_gorm dp) i (st_db s) = (Some err, st_db s')"
  | w where "FindByID (dp_gorm dp) i (st_db s) = Inr w" "x = None"
      "g_delete (dp_gorm dp) i (st_db s) = (None, st_db s')"
  using assms
  by (auto simp: Word_Delete_def Repo_Delete_def split: sum.splits option.splits prod.splits
      dest: then_invalidate_db)

lemma Import_cases:
  assumes "Word_Import dp req s = Some (x, s')" "import_loop (dp_unicode dp) 0 (im_Words req) = (wds, fs)"
  obtains "wds = []" "st_db s' = st_db s" "x = Inr \<lparr>ir_Total = int (length (im_Words req)), ir_Imported = 0,
      ir_Skipped = int (length fs), ir_Failures = fs\<rparr>"
  | err where "x = Inl (BizErr (Wrap ErrImportFailed (error_text err)))" "wds \<noteq> []"
      "g_create_batches (dp_gorm dp) (map FromEntity wds) 500 (st_db s) = (Inl err, st_db s')"
  | n where "wds \<noteq> []"
      "g_create_batches (dp_gorm dp) (map FromEntity wds) 500 (st_db s) = (Inr n, st_db s')"
      "x = Inr \<lparr>ir_Total = int (length (im_Words req)), ir_Imported = n,
        ir_Skipped = int (length fs), ir_Failures = fs\<rparr>"
  using assms
  by (auto simp: Word_Import_def BatchCreate_def split: sum.splits option.splits prod.splits if_splits
      dest: then_invalidate_db)

section \<open>The invariant of the table\<close>

definition row_valid :: "unicode_data \<Rightarrow> SensitiveWordModel \<Rightarrow> bool" where
  "row_valid u m \<longleftrightarrow> Validate (ToEntity m) = None \<and> (\<exists>t. md_Text m = NormalizeForIndex u t)"

definition table_valid :: "unicode_data \<Rightarrow> SensitiveWordModel list \<Rightarrow> bool" where
  "table_valid u rows \<longleftrightarrow> (\<forall>m \<in> set rows. row_valid u m) \<and> distinct (map md_ID rows)"

lemma row_valid_iff:
  "row_valid u m \<longleftrightarrow> md_Text m \<noteq> [] \<and> length (runes_of (md_Text m)) \<le> 255 \<and>
     md_Category m \<in> set AllCategories \<and> 1 \<le> md_Level m \<and> md_Level m \<le> 4 \<and>
     (\<exists>t. md_Text m = NormalizeForIndex u t)"
  by (simp add: row_valid_def Validate_None_iff) (simp add: ToEntity_def)

lemma row_valid_filled: "filled m m' \<Longrightarrow> row_valid u m \<Longrightarrow> row_valid u m'"
  by (auto simp: filled_def with_defaults_def row_valid_iff)

lemma row_valid_with_defaults: "row_valid u m \<Longrightarrow> row_valid u (with_defaults m)"
  by (auto simp: with_defaults_def row_valid_iff)

lemma row_valid_stamp [simp]: "row_valid u (m\<lparr>md_UpdatedAt := t\<rparr>) = row_valid u m"
  by (simp add: row_valid_iff)

lemma row_valid_created: "Validate (CreateDTOToEntity u req) = None \<Longrightarrow> row_valid u (FromEntity (CreateDTOToEntity u req))"
  by (auto simp: row_valid_def) (auto simp: FromEntity_def CreateDTOToEntity_def)

lemma table_valid_append:
  "table_valid u rows \<Longrightarrow> row_valid u m \<Longrightarrow> md_ID m \<notin> row_ids rows \<Longrightarrow> table_valid u (rows @ [m])"
  by (auto simp: table_valid_def row_ids_def)

lemma table_valid_app:
  assumes "table_valid u rows" "\<forall>m \<in> set new. row_valid u m" "distinct (map md_ID new)"
    and "\<forall>m \<in> set new. md_ID m \<notin> row_ids rows"
  shows "table_valid u (rows @ new)"
proof -
  have "row_ids rows \<inter> md_ID ` set new = {}" using assms(4) by blast
  then have "set (map md_ID rows) \<inter> set (map md_ID new) = {}" by (simp add: row_ids_def)
  with assms(1,3) have "distinct (map md_ID (rows @ new))" by (simp add: table_valid_def)
  with assms(1,2) show ?thesis by (auto simp: table_valid_def)
qed

lemma saved_ids:
  assumes "md_ID m \<in> row_ids rows"
  shows "map md_ID (saved m rows) = map md_ID rows"
proof -
  have "map md_ID (map (\<lambda>r. if md_ID r = md_ID m then m else r) xs) = map md_ID xs" for xs
    by (induction xs) auto
  with assms show ?thesis by (simp only: saved_def if_True)
qed

lemma table_valid_saved:
  assumes "table_valid u rows" "row_valid u m"
  shows "table_valid u (saved m rows)"
proof (cases "md_ID m \<in> row_ids rows")
  case True
  then have "set (saved m rows) \<subseteq> insert m (set rows)" by (auto simp: saved_def)
  with assms saved_ids [OF True] show ?thesis by (auto simp: table_valid_def)
next
  case False
  then have "md_ID (with_defaults m) \<notin> row_ids rows" by (simp add: with_defaults_def)
  with assms row_valid_with_defaults table_valid_append False show ?thesis by (simp add: saved_def)
qed

lemma table_valid_filter: "table_valid u rows \<Longrightarrow> table_valid u (filter P rows)"
  by (auto simp: table_valid_def distinct_map_filter)

lemma apply_update_keeps:
  "apply_update u req w = Inr wd \<Longrightarrow>
   sw_ID wd = sw_ID w \<and> sw_CreatedAt wd = sw_CreatedAt w \<and> sw_UpdatedAt wd = sw_UpdatedAt w \<and>
   (sw_Text wd = sw_Text w \<or> (\<exists>t. sw_Text wd = NormalizeForIndex u t))"
  by (auto simp: apply_update_def Let_def split: option.splits sum.splits)

text \<open>What the failures of an import should be: one per refused word, with its index.\<close>

definition refused :: "unicode_data \<Rightarrow> CreateWordRequest \<Rightarrow> bool" where
  "refused u w \<longleftrightarrow> Validate (CreateDTOToEntity u w) \<noteq> None"

definition failure_at :: "unicode_data \<Rightarrow> nat \<Rightarrow> CreateWordRequest \<Rightarrow> ImportFailure" where
  "failure_at u i w =
     \<lparr>if_Index = i, if_Word = cw_Text w, if_Reason = error_text (the (Validate (CreateDTOToEntity u w)))\<rparr>"

lemma import_loop_ok:
  "import_loop u i ws =
     (map (CreateDTOToEntity u) (filter (\<lambda>w. \<not> refused u w) ws),
      map (\<lambda>(k, w). failure_at u k w) (filter (\<lambda>(k, w). refused u w) (enumerate i ws)))"
proof (induction ws arbitrary: i)
  case Nil
  then show ?case by simp
next
  case (Cons w ws)
  show ?case
    by (cases "Validate (CreateDTOToEntity u w)") (simp_all add: Cons.IH refused_def failure_at_def)
qed

text \<open>Valid rows with new ids, as an import adds them.\<close>

definition fresh_rows :: "unicode_data \<Rightarrow> SensitiveWordModel list \<Rightarrow> SensitiveWordModel list \<Rightarrow> bool" where
  "fresh_rows u rs new \<longleftrightarrow>
     (\<forall>m \<in> set new. row_valid u m \<and> md_ID m \<notin> row_ids rs) \<and> distinct (map md_ID new)"

lemma table_valid_fresh: "table_valid u rs \<Longrightarrow> fresh_rows u rs new \<Longrightarrow> table_valid u (rs @ new)"
  by (auto simp: fresh_rows_def intro: table_valid_app)

lemma rows_of_import:
  assumes "write_ok (dp_gorm dp) rows" "import_loop (dp_unicode dp) i ws = (wds, fs)"
    and "g_create_batches (dp_gorm dp) (map FromEntity wds) k d = (Inr n, d')"
  obtains new where "rows d' = rows d @ new" "fresh_rows (dp_unicode dp) (rows d) new"
proof -
  obtain new where n: "rows d' = rows d @ new" "distinct (map md_ID new)"
    "\<forall>m' \<in> set new. md_ID m' \<notin> row_ids (rows d) \<and> (\<exists>m \<in> set (map FromEntity wds). filled m m')"
    using write_okD(8) [OF assms(1,3)] by blast
  have wds: "\<forall>w \<in> set wds. \<exists>r. w = CreateDTOToEntity (dp_unicode dp) r \<and> Validate w = None"
    using assms(2) by (auto simp: import_loop_ok refused_def)
  have "row_valid (dp_unicode dp) m'" if new: "m' \<in> set new" for m'
  proof -
    obtain w where w: "w \<in> set wds" "filled (FromEntity w) m'" using n(3) new by auto
    with wds row_valid_created row_valid_filled show ?thesis by metis
  qed
  with n show ?thesis by (intro that [of new]) (auto simp: fresh_rows_def)
qed

inductive word_request :: "('d, 'r) word_deps \<Rightarrow> ('d, 'r) word_state \<Rightarrow> ('d, 'r) word_state \<Rightarrow> bool" for dp where
  create: "Word_Create dp req s = Some (x, s') \<Longrightarrow> word_request dp s s'"
| update: "Word_Update dp i req s = Some (x, s') \<Longrightarrow> word_request dp s s'"
| delete: "Word_Delete dp i s = Some (y, s') \<Longrightarrow> word_request dp s s'"
| import_words: "Word_Import dp req s = Some (z, s') \<Longrightarrow> word_request dp s s'"

lemma word_request_valid:
  assumes "write_ok (dp_gorm dp) rows" "read_ok (dp_gorm dp) like rows"
    and "word_request dp s s'" "table_valid (dp_unicode dp) (rows (st_db s))"
  shows "table_valid (dp_unicode dp) (rows (st_db s'))"
  using assms(3,4)
proof (induction rule: word_request.induct)
  case (create req s x s')
  note W = write_okD [OF assms(1)]
  from create.hyps show ?case
  proof (cases rule: Create_cases)
    case (3 err)
    with W(1) create.prems show ?thesis by metis
  next
    case (4 m)
    from W(2) [OF 4(2)] row_valid_filled [OF _ row_valid_created [OF 4(1)]] create.prems
    show ?thesis by (simp add: table_valid_append)
  qed (use create.prems in simp_all)
next
  case (update i req s x s')
  note W = write_okD [OF assms(1)]
  from update.hyps show ?case
  proof (cases rule: Update_cases)
    case (2 w wd err)
    with W(3) update.prems show ?thesis by metis
  next
    case (3 w wd)
    obtain t where t: "rows (st_db s') = saved ((FromEntity wd)\<lparr>md_UpdatedAt := t\<rparr>) (rows (st_db s))"
      using W(4) [OF 3(5)] by blast
    have "row_valid (dp_unicode dp) (FromEntity w)"
      using FindByID_ok(1) [OF assms(2) 3(1)] update.prems by (simp add: table_valid_def)
    then have "row_valid (dp_unicode dp) (FromEntity wd)"
      using 3(3) apply_update_keeps [OF 3(2)] by (auto simp: row_valid_def) (auto simp: FromEntity_def)
    with t update.prems table_valid_saved show ?thesis by simp
  qed (use update.prems in simp)
next
  case (delete i s y s')
  note W = write_okD [OF assms(1)]
  from delete.hyps show ?case
  proof (cases rule: Delete_cases)
    case (2 w err)
    with W(5) delete.prems show ?thesis by metis
  next
    case (3 w)
    with W(6) [OF 3(3)] delete.prems table_valid_filter show ?thesis by simp
  qed (use delete.prems in simp)
next
  case (import_words req s z s')
  note W = write_okD [OF assms(1)]
  obtain wds fs where l: "import_loop (dp_unicode dp) 0 (im_Words req) = (wds, fs)" by force
  from import_words.hyps l show ?case
  proof (cases rule: Import_cases)
    case (2 err)
    with W(7) import_words.prems show ?thesis by metis
  next
    case (3 n)
    obtain new where "rows (st_db s') = rows (st_db s) @ new" "fresh_rows (dp_unicode dp) (rows (st_db s)) new"
      by (rule rows_of_import [OF assms(1) l 3(2)])
    with import_words.prems table_valid_fresh show ?thesis by simp
  qed (use import_words.prems in simp)
qed

lemma word_requests_valid:
  assumes "write_ok (dp_gorm dp) rows" "read_ok (dp_gorm dp) like rows"
    and "(word_request dp)\<^sup>*\<^sup>* s s'" "table_valid (dp_unicode dp) (rows (st_db s))"
  shows "table_valid (dp_unicode dp) (rows (st_db s'))"
  using assms(3,4) by induction (auto intro: word_request_valid [OF assms(1,2)])

section \<open>Reading after writing\<close>

definition reads_back :: "('d, 'r) word_deps \<Rightarrow> ('d, 'r) word_state \<Rightarrow> 64 word \<Rightarrow> WordResponse \<Rightarrow> bool" where
  "reads_back dp s i r \<longleftrightarrow>
     (\<forall>r'. Word_Get dp i s = Inr r' \<longrightarrow> r' = r) \<and> FindByID (dp_gorm dp) i (st_db s) \<noteq> Inl RecordNotFound"

lemma row_is_read_back:
  assumes "read_ok (dp_gorm dp) like rows" "distinct (map md_ID (rows (st_db s)))" "m \<in> set (rows (st_db s))"
  shows "reads_back dp s (md_ID m) (EntityToDTO (ToEntity m))"
proof -
  have "r' = EntityToDTO (ToEntity m)" if get: "Word_Get dp (md_ID m) s = Inr r'" for r'
  proof -
    from get obtain w where w: "FindByID (dp_gorm dp) (md_ID m) (st_db s) = Inr w" "r' = EntityToDTO w"
      by (auto simp: Word_Get_def split: sum.splits)
    have "FromEntity w \<in> set (rows (st_db s))" "md_ID (FromEntity w) = md_ID m"
      using FindByID_ok(1) [OF assms(1) w(1)] by simp_all
    with assms(2,3) have "FromEntity w = m"
      using inj_onD [of md_ID "set (rows (st_db s))" "FromEntity w" m] by (simp add: distinct_map)
    with w(2) show ?thesis by auto
  qed
  moreover have "md_ID m \<in> row_ids (rows (st_db s))" using assms(3) by (simp add: row_ids_def)
  ultimately show ?thesis using FindByID_ok(2) [OF assms(1)] by (auto simp: reads_back_def)
qed

lemma created_response:
  assumes "filled (FromEntity w) m" "sw_Level w \<noteq> 0" "sw_Status w \<noteq> 0"
  shows "w\<lparr>sw_ID := md_ID m, sw_CreatedAt := md_CreatedAt m, sw_UpdatedAt := md_UpdatedAt m\<rparr> = ToEntity m"
  using assms by (auto simp: filled_def with_defaults_def FromEntity_def ToEntity_def)

lemma created_row:
  assumes "write_ok (dp_gorm dp) rows" "Word_Create dp req s = Some (Inr r, s')"
  obtains m where "rows (st_db s') = rows (st_db s) @ [m]" "md_ID m \<notin> row_ids (rows (st_db s))"
    "r = EntityToDTO (ToEntity m)" "filled (FromEntity (CreateDTOToEntity (dp_unicode dp) req)) m"
    "Validate (CreateDTOToEntity (dp_unicode dp) req) = None"
  using assms(2)
proof (cases rule: Create_cases)
  case (4 m)
  have "sw_Level (CreateDTOToEntity (dp_unicode dp) req) \<noteq> 0"
    "sw_Status (CreateDTOToEntity (dp_unicode dp) req) \<noteq> 0"
    using 4(1) by (auto simp: Validate_None_iff CreateDTOToEntity_def WordStatusActive_def)
  from created_response [OF _ this] write_okD(2) [OF assms(1) 4(2)] 4 that show ?thesis by simp
qed simp_all

lemma updated_row:
  assumes "write_ok (dp_gorm dp) rows" "read_ok (dp_gorm dp) like rows"
    and "Word_Update dp i req s = Some (Inr r, s')"
  obtains m wd t where "m \<in> set (rows (st_db s))" "md_ID m = i"
    "apply_update (dp_unicode dp) req (ToEntity m) = Inr wd" "Validate wd = None" "r = EntityToDTO wd"
    "rows (st_db s') = map (\<lambda>k. if md_ID k = i then (FromEntity wd)\<lparr>md_UpdatedAt := t\<rparr> else k) (rows (st_db s))"
  using assms(3)
proof (cases rule: Update_cases)
  case (3 w wd)
  note w = FindByID_ok(1) [OF assms(2) 3(1)]
  then have "i \<in> row_ids (rows (st_db s))" unfolding row_ids_def by force
  with w have i: "md_ID (FromEntity w) = i" "md_ID (FromEntity wd) = i" "i \<in> row_ids (rows (st_db s))"
    using apply_update_keeps [OF 3(2)] by simp_all
  obtain t where "rows (st_db s') = saved ((FromEntity wd)\<lparr>md_UpdatedAt := t\<rparr>) (rows (st_db s))"
    using write_okD(4) [OF assms(1) 3(5)] by blast
  then have "rows (st_db s') = map (\<lambda>k. if md_ID k = i then (FromEntity wd)\<lparr>md_UpdatedAt := t\<rparr> else k) (rows (st_db s))"
    using i by (simp add: saved_def)
  with w i 3 show ?thesis by (intro that [of "FromEntity w" wd t]) simp_all
qed simp_all

lemma imported_rows:
  assumes "write_ok (dp_gorm dp) rows" "Word_Import dp req s = Some (x, s')"
  shows "case x of
      Inl e \<Rightarrow> rows (st_db s') = rows (st_db s)
    | Inr r \<Rightarrow> ir_Total r = int (length (im_Words req)) \<and>
        ir_Skipped r = int (length (filter (refused (dp_unicode dp)) (im_Words req))) \<and>
        ir_Failures r = map (\<lambda>(i, w). failure_at (dp_unicode dp) i w)
          (filter (\<lambda>(i, w). refused (dp_unicode dp) w) (enumerate 0 (im_Words req))) \<and>
        (\<exists>new. rows (st_db s') = rows (st_db s) @ new \<and> ir_Imported r = int (length new) \<and>
           length new \<le> length (filter (\<lambda>w. \<not> refused (dp_unicode dp) w) (im_Words req)) \<and>
           (\<forall>m \<in> set new. \<exists>w \<in> set (im_Words req). \<not> refused (dp_unicode dp) w \<and>
              filled (FromEntity (CreateDTOToEntity (dp_unicode dp) w)) m))"
proof -
  let ?u = "dp_unicode dp" and ?ws = "im_Words req"
  let ?fs = "map (\<lambda>(i, w). failure_at ?u i w) (filter (\<lambda>(i, w). refused ?u w) (enumerate 0 ?ws))"
  have fs: "length ?fs = length (filter (refused ?u) ?ws)"
  proof -
    have "filter (\<lambda>(i, w). refused ?u w) (enumerate 0 ?ws) = filter (refused ?u \<circ> snd) (enumerate 0 ?ws)"
      by (simp add: case_prod_unfold comp_def)
    then have "length ?fs = length (map snd (filter (refused ?u \<circ> snd) (enumerate 0 ?ws)))" by simp
    also have "\<dots> = length (filter (refused ?u) (map snd (enumerate 0 ?ws)))" by (simp only: filter_map)
    finally show ?thesis by simp
  qed
  note W = write_okD [OF assms(1)]
  from assms(2) import_loop_ok [of ?u 0 ?ws] show ?thesis
  proof (cases rule: Import_cases)
    case 1
    with fs show ?thesis by simp
  next
    case (2 err)
    with W(7) show ?thesis by simp
  next
    case (3 n)
    obtain new where new: "rows (st_db s') = rows (st_db s) @ new" "n = int (length new)"
      "length new \<le> length (filter (\<lambda>w. \<not> refused ?u w) ?ws)"
      "\<forall>m' \<in> set new. \<exists>m \<in> set (map FromEntity (map (CreateDTOToEntity ?u) (filter (\<lambda>w. \<not> refused ?u w) ?ws))). filled m m'"
      using W(8) [OF 3(2)] by auto
    then have "\<forall>m \<in> set new. \<exists>w \<in> set ?ws. \<not> refused ?u w \<and> filled (FromEntity (CreateDTOToEntity ?u w)) m"
      by fastforce
    with 3(3) new(1-3) fs show ?thesis by auto
  qed
qed

section \<open>Reading an export\<close>

text \<open>A reader of comma-separated values after RFC 4180, with the line breaks of the writer.\<close>

datatype csv_mode = Start | Plain | Quoted | QuoteSeen

fun csv_read :: "csv_mode \<Rightarrow> gostring \<Rightarrow> gostring list \<Rightarrow> gostring \<Rightarrow> gostring list list option" where
  "csv_read md f fs [] = (if md = Start \<and> fs = [] then Some [] else None)"
| "csv_read Start f fs (c # cs) =
     (if c = CHR 0x22 then csv_read Quoted [] fs cs
      else if c = CHR '','' then csv_read Start [] (fs @ [[]]) cs
      else if c = CHR 0x0A then map_option ((#) (fs @ [[]])) (csv_read Start [] [] cs)
      else csv_read Plain [c] fs cs)"
| "csv_read Plain f fs (c # cs) =
     (if c = CHR 0x22 then None
      else if c = CHR '','' then csv_read Start [] (fs @ [f]) cs
      else if c = CHR 0x0A then map_option ((#) (fs @ [f])) (csv_read Start [] [] cs)
      else csv_read Plain (f @ [c]) fs cs)"
| "csv_read Quoted f fs (c # cs) =
     (if c = CHR 0x22 then csv_read QuoteSeen f fs cs else csv_read Quoted (f @ [c]) fs cs)"
| "csv_read QuoteSeen f fs (c # cs) =
     (if c = CHR 0x22 then csv_read Quoted (f @ [c]) fs cs
      else if c = CHR '','' then csv_read Start [] (fs @ [f]) cs
      else if c = CHR 0x0A then map_option ((#) (fs @ [f])) (csv_read Start [] [] cs)
      else None)"

definition csv_parse :: "gostring \<Rightarrow> gostring list list option" where
  "csv_parse cs = csv_read Start [] [] cs"

abbreviation plain_char :: "char \<Rightarrow> bool" where
  "plain_char c \<equiv> c \<noteq> CHR 0x22 \<and> c \<noteq> CHR '','' \<and> c \<noteq> CHR 0x0A"

lemma csv_read_plain:
  "\<forall>c \<in> set x. plain_char c \<Longrightarrow> csv_read Plain f fs (x @ rest) = csv_read Plain (f @ x) fs rest"
  by (induction x arbitrary: f) simp_all

lemma csv_read_quoted:
  "csv_read Quoted f fs (concat (map (\<lambda>c. if c = CHR 0x22 then [c, c] else [c]) x) @ CHR 0x22 # rest) =
   csv_read QuoteSeen (f @ x) fs rest"
  by (induction x arbitrary: f) simp_all

lemma csv_read_field:
  "csv_read Start g fs (csv_field x @ CHR '','' # rest) = csv_read Start [] (fs @ [x]) rest"
  "csv_read Start g fs (csv_field x @ CHR 0x0A # rest) = map_option ((#) (fs @ [x])) (csv_read Start [] [] rest)"
proof -
  have start: "csv_read Start g fs (csv_field x @ sep # rest) =
      csv_read (if x = [] then Start else if field_needs_quotes x then QuoteSeen else Plain) x fs (sep # rest)"
    if sep: "sep = CHR '','' \<or> sep = CHR 0x0A" for sep
  proof (cases x)
    case Nil
    then show ?thesis using sep by (auto simp: csv_field_def field_needs_quotes_def)
  next
    case (Cons c cs)
    show ?thesis
    proof (cases "field_needs_quotes x")
      case True
      then show ?thesis
        using csv_read_quoted [of "[]" fs x "sep # rest"] Cons by (simp add: csv_field_def)
    next
      case False
      then have "\<forall>c \<in> set x. plain_char c" using Cons by (auto simp: field_needs_quotes_def)
      then show ?thesis
        using csv_read_plain [of cs "[c]" fs "sep # rest"] Cons False by (simp add: csv_field_def)
    qed
  qed
  show "csv_read Start g fs (csv_field x @ CHR '','' # rest) = csv_read Start [] (fs @ [x]) rest"
    by (subst start) simp_all
  show "csv_read Start g fs (csv_field x @ CHR 0x0A # rest) = map_option ((#) (fs @ [x])) (csv_read Start [] [] rest)"
    by (subst start) simp_all
qed

lemma csv_read_record:
  "xs \<noteq> [] \<Longrightarrow> csv_read Start [] fs (csv_record xs @ rest) = map_option ((#) (fs @ xs)) (csv_read Start [] [] rest)"
  by (induction xs arbitrary: fs rule: csv_join.induct) (simp_all add: csv_record_def csv_read_field)

lemma csv_parse_records:
  "\<forall>r \<in> set recs. r \<noteq> [] \<Longrightarrow> csv_parse (concat (map csv_record recs)) = Some recs"
  unfolding csv_parse_def by (induction recs) (simp_all add: csv_read_record)

text \<open>What is relied on of the writer: it appends what it accepts.\<close>

definition writer_ok :: "(gostring \<Rightarrow> 'w \<Rightarrow> error option \<times> 'w) \<Rightarrow> ('w \<Rightarrow> gostring) \<Rightarrow> bool" where
  "writer_ok io_write content \<longleftrightarrow>
     (\<forall>b w w'. io_write b w = (None, w') \<longrightarrow> content w' = content w @ b)"

definition written :: "('w \<Rightarrow> gostring) \<Rightarrow> 'w csv_writer \<Rightarrow> gostring" where
  "written content w = content (cv_out w) @ cv_buffer w"

lemma csv_Flush_ok:
  assumes "writer_ok io_write content" "cv_err (csv_Flush io_write w) = None"
  shows "cv_err w = None" "written content (csv_Flush io_write w) = written content w"
    "cv_buffer (csv_Flush io_write w) = []"
  using assms
  by (auto simp: csv_Flush_def written_def writer_ok_def Let_def split: option.splits prod.splits)

lemma csv_Write_all:
  "written content (fold (\<lambda>x. csv_Write (export_record x)) xs w) =
     written content w @ concat (map (\<lambda>x. csv_record (export_record x)) xs)"
  by (induction xs arbitrary: w) (simp_all add: csv_Write_def written_def)

lemma export_batch_ok:
  assumes "writer_ok io_write content" "export_batch io_write xs w = (None, w')"
  shows "written content w' = written content w @ concat (map (\<lambda>x. csv_record (export_record x)) xs)"
  using assms csv_Flush_ok [OF assms(1)] by (auto simp: export_batch_def Let_def csv_Write_all)

lemma run_batches_written:
  assumes "writer_ok io_write content" "run_batches (export_batch io_write) bs final w = (None, w')"
  shows "final = None \<and>
    written content w' = written content w @ concat (map (\<lambda>m. csv_record (export_record (ToEntity m))) (concat bs))"
  using assms(2)
proof (induction bs arbitrary: w)
  case Nil
  then show ?case by simp
next
  case (Cons b bs)
  then obtain w1 where b: "export_batch io_write (map ToEntity b) w = (None, w1)"
    "run_batches (export_batch io_write) bs final w1 = (None, w')"
    by (auto split: prod.splits option.splits)
  from Cons.IH [OF b(2)] export_batch_ok [OF assms(1) b(1)] show ?case by (simp add: comp_def)
qed

definition export_header :: "gostring list" where
  "export_header = [''text'', ''category'', ''level'', ''tag'']"

lemma ExportToWriter_ok:
  assumes "read_ok (dp_gorm dp) like rows" "writer_ok io_write content" "content out = []"
    and "ExportToWriter dp io_write category out s = (None, out')"
  shows "csv_parse (content out') =
    Some (export_header # map (export_record \<circ> ToEntity)
      (sort_key md_ID (selected like [if category \<noteq> [] then CategoryIs category else StatusIs 1] (rows (st_db s)))))"
proof -
  let ?conds = "[if category \<noteq> [] then CategoryIs category else StatusIs 1]"
  let ?w0 = "csv_Write export_header \<lparr>cv_out = out, cv_buffer = [], cv_err = None\<rparr>"
  obtain bs final where b: "g_batches (dp_gorm dp) ?conds 1000 (st_db s) = (bs, final)" by force
  obtain err w1 where r: "run_batches (export_batch io_write) bs final ?w0 = (err, w1)" by force
  have "FindInBatches (dp_gorm dp) (if category \<noteq> [] then Some category else None) 1000
      (export_batch io_write) (st_db s) ?w0 = (err, w1)"
    using b r by (simp add: FindInBatches_def split: if_splits)
  with assms(4) have e: "err = None" "cv_err (csv_Flush io_write w1) = None" "out' = cv_out (csv_Flush io_write w1)"
    by (auto simp: ExportToWriter_def export_header_def Let_def split: option.splits if_splits)
  note w = run_batches_written [OF assms(2) r [unfolded e(1)]]
  have cat: "concat bs = sort_key md_ID (selected like ?conds (rows (st_db s)))"
    using assms(1) b w unfolding read_ok_def by blast
  have "content out' = written content w1"
    using csv_Flush_ok [OF assms(2) e(2)] e(3) by (simp add: written_def)
  also have "\<dots> = concat (map csv_record (export_header # map (export_record \<circ> ToEntity)
      (sort_key md_ID (selected like ?conds (rows (st_db s))))))"
    using w cat assms(3) by (simp add: written_def csv_Write_def comp_def)
  finally show ?thesis
    by (simp only:) (rule csv_parse_records, auto simp: export_header_def export_record_def)
qed

section \<open>Properties\<close>

definition sample_deps :: "(table, (gostring, bytes) gomap) word_deps" where
  "sample_deps =
     \<lparr>dp_unicode = ascii_data, dp_gorm = table_gorm, dp_client = map_client, dp_items_order = (\<lambda>x. x),
      dp_now = 0, dp_later = 0\<rparr>"

definition sample_state :: "SensitiveWordModel list \<Rightarrow> 64 word \<Rightarrow> (table, (gostring, bytes) gomap) word_state" where
  "sample_state rows nxt = \<lparr>st_db = \<lparr>tb_rows = rows, tb_next = nxt, tb_clock = 5000\<rparr>, st_cache = None\<rparr>"

definition sample_create :: "gostring \<Rightarrow> CreateWordRequest" where
  "sample_create t = \<lparr>cw_Text = t, cw_Category = CategoryAd, cw_Level = 2, cw_Tag = []\<rparr>"

text \<open>A request that returned without an error, and what it returned.\<close>

definition succeeds :: "('a result \<times> 's) option \<Rightarrow> ('a \<Rightarrow> 's \<Rightarrow> bool) \<Rightarrow> bool" where
  "succeeds x P \<longleftrightarrow> (case x of Some (Inr r, s) \<Rightarrow> P r s | _ \<Rightarrow> False)"

lemma succeedsE:
  assumes "succeeds x P"
  obtains r s where "x = Some (Inr r, s)" "P r s"
  using assms by (auto simp: succeeds_def split: option.splits prod.splits sum.splits)

lemma sample_gorm [simp]: "dp_gorm sample_deps = table_gorm" "dp_unicode sample_deps = ascii_data"
  by (simp_all add: sample_deps_def)

text \<open>
  The requests on words keep the table valid: however many \<open>Create\<close>, \<open>Update\<close>, \<open>Delete\<close>
  and \<open>Import\<close> requests run, and whether or not they succeed, every row holds a word that passes
  \<open>Validate\<close> and whose text is the normal form of some text, and no two rows share an id.
\<close>

theorem requests_keep_table_valid:
  assumes "write_ok (dp_gorm dp) rows" and "read_ok (dp_gorm dp) like rows"
    and "(word_request dp)\<^sup>*\<^sup>* s s'" and "table_valid (dp_unicode dp) (rows (st_db s))"
  shows "table_valid (dp_unicode dp) (rows (st_db s'))"
  by (rule word_requests_valid [OF assms])

theorem requests_keep_table_valid_witness:
  "\<exists>s'. (word_request sample_deps)\<^sup>*\<^sup>* (sample_state [] 1) s' \<and> map md_Text (tb_rows (st_db s')) = [''spam''] \<and>
     table_valid ascii_data (tb_rows (st_db s'))"
proof -
  let ?s = "sample_state [] 1"
  let ?x = "Word_Create sample_deps (sample_create '' SPAM '') ?s"
  have c: "map_option (\<lambda>(x, s'). map md_Text (tb_rows (st_db s'))) ?x = Some [''spam'']" by code_simp
  then obtain x s' where s': "?x = Some (x, s')" "map md_Text (tb_rows (st_db s')) = [''spam'']" by auto
  then have r: "(word_request sample_deps)\<^sup>*\<^sup>* ?s s'" by (intro r_into_rtranclp word_request.create)
  have "table_valid (dp_unicode sample_deps) (tb_rows (st_db s'))"
    by (rule requests_keep_table_valid [where like = contains, OF _ _ r])
      (simp_all add: table_write_ok table_read_ok sample_state_def table_valid_def)
  with r s'(2) show ?thesis by auto
qed

text \<open>
  Claim C20. \<open>Create\<close> on every branch: a request that does not validate is refused with the reason, one
  whose normalised text is found is refused as existing, any error leaves the table as it was,
  and success appends exactly one row, with a fresh id, the normalised text, the category, level
  and tag asked for and the active status, and returns that row.
\<close>

theorem create_outcome:
  assumes "write_ok (dp_gorm dp) rows" and "Word_Create dp req s = Some (x, s')"
  shows "(\<forall>err. Validate (CreateDTOToEntity (dp_unicode dp) req) = Some err \<longrightarrow>
      x = Inl (BizErr (Wrap ErrInvalidRequest (error_text err)))) \<and>
    (\<forall>w. Validate (CreateDTOToEntity (dp_unicode dp) req) = None \<and>
      FindByText (dp_gorm dp) (NormalizeForIndex (dp_unicode dp) (cw_Text req)) (st_db s) = Inr w \<longrightarrow>
      x = Inl (BizErr ErrWordAlreadyExists)) \<and>
    (\<forall>err. x = Inl err \<longrightarrow> rows (st_db s') = rows (st_db s)) \<and>
    (\<forall>r. x = Inr r \<longrightarrow>
      (\<exists>m. rows (st_db s') = rows (st_db s) @ [m] \<and> md_ID m \<notin> row_ids (rows (st_db s)) \<and>
         r = EntityToDTO (ToEntity m) \<and> md_Text m = NormalizeForIndex (dp_unicode dp) (cw_Text req) \<and>
         md_Category m = cw_Category req \<and> md_Level m = cw_Level req \<and> md_Status m = 1 \<and>
         md_Tag m = cw_Tag req \<and> row_valid (dp_unicode dp) m))"
proof -
  let ?wd = "CreateDTOToEntity (dp_unicode dp) req"
  note W = write_okD [OF assms(1)]
  have norm: "sw_Text ?wd = NormalizeForIndex (dp_unicode dp) (cw_Text req)" by (simp add: CreateDTOToEntity_def)
  have "rows (st_db s') = rows (st_db s)" if "x = Inl err" for err
    using assms(2) by (cases rule: Create_cases) (use that W(1) in auto)
  moreover have "\<exists>m. rows (st_db s') = rows (st_db s) @ [m] \<and> md_ID m \<notin> row_ids (rows (st_db s)) \<and>
      r = EntityToDTO (ToEntity m) \<and> md_Text m = NormalizeForIndex (dp_unicode dp) (cw_Text req) \<and>
      md_Category m = cw_Category req \<and> md_Level m = cw_Level req \<and> md_Status m = 1 \<and>
      md_Tag m = cw_Tag req \<and> row_valid (dp_unicode dp) m" if ok: "x = Inr r" for r
  proof -
    have c: "Word_Create dp req s = Some (Inr r, s')" using assms(2) ok by simp
    obtain m where m: "rows (st_db s') = rows (st_db s) @ [m]" "md_ID m \<notin> row_ids (rows (st_db s))"
      "r = EntityToDTO (ToEntity m)" "filled (FromEntity ?wd) m" "Validate ?wd = None"
      by (rule created_row [OF assms(1) c])
    have "row_valid (dp_unicode dp) m" using m(4) row_valid_filled row_valid_created [OF m(5)] by blast
    moreover have "md_Text m = sw_Text ?wd \<and> md_Category m = cw_Category req \<and> md_Level m = cw_Level req \<and>
        md_Status m = 1 \<and> md_Tag m = cw_Tag req"
      using m(4,5) by (auto simp: filled_def with_defaults_def FromEntity_def CreateDTOToEntity_def
          Validate_None_iff WordStatusActive_def)
    ultimately show ?thesis using m norm by auto
  qed
  ultimately show ?thesis using assms(2) norm by (auto simp: Word_Create_def)
qed

theorem create_outcome_witness:
  "\<exists>r s'. Word_Create sample_deps (sample_create ''spam'') (sample_state [sample_row 4 ''spam'' 7] 5) = Some (Inl r, s') \<and>
     tb_rows (st_db s') = [sample_row 4 ''spam'' 7]"
proof -
  let ?s = "sample_state [sample_row 4 ''spam'' 7] 5"
  have c: "map_option (\<lambda>(x, s'). x) (Word_Create sample_deps (sample_create ''spam'') ?s) =
      Some (Inl (BizErr ErrWordAlreadyExists))" by code_simp
  then obtain s' where s': "Word_Create sample_deps (sample_create ''spam'') ?s =
      Some (Inl (BizErr ErrWordAlreadyExists), s')" by auto
  have w: "write_ok (dp_gorm sample_deps) tb_rows" by (simp add: table_write_ok)
  from create_outcome [OF w s'] s' show ?thesis by (simp add: sample_state_def)
qed

text \<open>
  Claim C21. \<open>Update\<close> and \<open>Delete\<close> on every branch: an id that is not in the table is answered with
  \<open>ErrWordNotFound\<close>, any error leaves the table as it was, \<open>Delete\<close> removes exactly the rows with the id,
  and \<open>Update\<close> changes exactly the row with the id, to a valid word with the fields of the request
  that are present; what it returns still carries the time of the previous update.
\<close>

theorem update_delete_outcome:
  assumes "write_ok (dp_gorm dp) rows" and "read_ok (dp_gorm dp) like rows"
    and "Word_Update dp i req s = Some (x, s')" and "Word_Delete dp i s = Some (y, s'')"
  shows "(FindByID (dp_gorm dp) i (st_db s) = Inl RecordNotFound \<longrightarrow>
      x = Inl (BizErr ErrWordNotFound) \<and> y = Some (BizErr ErrWordNotFound)) \<and>
    (\<forall>err. x = Inl err \<longrightarrow> rows (st_db s') = rows (st_db s)) \<and>
    (\<forall>r. x = Inr r \<longrightarrow>
      (\<exists>m wd t. m \<in> set (rows (st_db s)) \<and> md_ID m = i \<and>
         apply_update (dp_unicode dp) req (ToEntity m) = Inr wd \<and> Validate wd = None \<and>
         r = EntityToDTO wd \<and> wr_UpdatedAt r = md_UpdatedAt m \<and>
         rows (st_db s') =
           map (\<lambda>k. if md_ID k = i then (FromEntity wd)\<lparr>md_UpdatedAt := t\<rparr> else k) (rows (st_db s)))) \<and>
    (y = None \<longrightarrow> rows (st_db s'') = filter (\<lambda>m. md_ID m \<noteq> i) (rows (st_db s))) \<and>
    (y \<noteq> None \<longrightarrow> rows (st_db s'') = rows (st_db s))"
proof -
  note W = write_okD [OF assms(1)]
  have "FindByID (dp_gorm dp) i (st_db s) = Inl RecordNotFound \<Longrightarrow>
      x = Inl (BizErr ErrWordNotFound) \<and> y = Some (BizErr ErrWordNotFound)"
    using assms(3,4) by (simp add: Word_Update_def Word_Delete_def not_found_def)
  moreover have "rows (st_db s') = rows (st_db s)" if "x = Inl err" for err
    using assms(3) by (cases rule: Update_cases) (use that W(3) in auto)
  moreover have "\<exists>m wd t. m \<in> set (rows (st_db s)) \<and> md_ID m = i \<and>
         apply_update (dp_unicode dp) req (ToEntity m) = Inr wd \<and> Validate wd = None \<and>
         r = EntityToDTO wd \<and> wr_UpdatedAt r = md_UpdatedAt m \<and>
         rows (st_db s') =
           map (\<lambda>k. if md_ID k = i then (FromEntity wd)\<lparr>md_UpdatedAt := t\<rparr> else k) (rows (st_db s))"
    if ok: "x = Inr r" for r
  proof -
    have u: "Word_Update dp i req s = Some (Inr r, s')" using assms(3) ok by simp
    obtain m wd t where m: "m \<in> set (rows (st_db s))" "md_ID m = i"
      "apply_update (dp_unicode dp) req (ToEntity m) = Inr wd" "Validate wd = None" "r = EntityToDTO wd"
      "rows (st_db s') = map (\<lambda>k. if md_ID k = i then (FromEntity wd)\<lparr>md_UpdatedAt := t\<rparr> else k) (rows (st_db s))"
      by (rule updated_row [OF assms(1,2) u])
    have "wr_UpdatedAt r = md_UpdatedAt m"
      using apply_update_keeps [OF m(3)] m(5) by (simp add: EntityToDTO_def ToEntity_def)
    with m show ?thesis by blast
  qed
  moreover have "(y = None \<longrightarrow> rows (st_db s'') = filter (\<lambda>m. md_ID m \<noteq> i) (rows (st_db s))) \<and>
      (y \<noteq> None \<longrightarrow> rows (st_db s'') = rows (st_db s))"
    using assms(4) by (cases rule: Delete_cases) (use W(5,6) in auto)
  ultimately show ?thesis by blast
qed

definition retag :: "gostring \<Rightarrow> UpdateWordRequest" where
  "retag t = \<lparr>uw_Text = None, uw_Category = None, uw_Level = None, uw_Status = None, uw_Tag = Some t\<rparr>"

theorem update_delete_outcome_witness:
  "\<exists>r s' s''. Word_Update sample_deps 4 (retag ''x'') (sample_state [sample_row 4 ''spam'' 7] 5) = Some (Inr r, s') \<and>
     wr_Tag r = ''x'' \<and> wr_UpdatedAt r = 7 \<and> map md_UpdatedAt (tb_rows (st_db s')) = [5000] \<and>
     Word_Delete sample_deps 4 (sample_state [sample_row 4 ''spam'' 7] 5) = Some (None, s'') \<and>
     tb_rows (st_db s'') = []"
proof -
  let ?s = "sample_state [sample_row 4 ''spam'' 7] 5"
  have "succeeds (Word_Update sample_deps 4 (retag ''x'') ?s)
      (\<lambda>r s'. wr_Tag r = ''x'' \<and> map md_UpdatedAt (tb_rows (st_db s')) = [5000])" by code_simp
  then obtain r s' where u: "Word_Update sample_deps 4 (retag ''x'') ?s = Some (Inr r, s')" "wr_Tag r = ''x''"
    "map md_UpdatedAt (tb_rows (st_db s')) = [5000]" by (auto elim: succeedsE)
  have "map_option fst (Word_Delete sample_deps 4 ?s) = Some None" by code_simp
  then obtain s'' where d: "Word_Delete sample_deps 4 ?s = Some (None, s'')" by auto
  have w: "write_ok (dp_gorm sample_deps) tb_rows" "read_ok (dp_gorm sample_deps) contains tb_rows"
    by (simp_all add: table_write_ok table_read_ok)
  from update_delete_outcome [OF w u(1) d] u d show ?thesis
    by (auto simp: sample_state_def sample_row_def)
qed

text \<open>
  What was written is what is read: in a valid table, \<open>Get\<close> on the id that \<open>Create\<close> returned
  answers with the word \<open>Create\<close> returned; after \<open>Update\<close> with the word it returned, but for the time
  of the update; and after \<open>Delete\<close> never with a word. In the first two the repository never
  reports the id as missing.
\<close>

theorem word_read_after_write:
  assumes "write_ok (dp_gorm dp) rows" and "read_ok (dp_gorm dp) like rows"
    and "table_valid (dp_unicode dp) (rows (st_db s))"
    and "Word_Create dp creq s = Some (Inr r1, s1)" and "Word_Update dp i ureq s = Some (Inr r2, s2)"
    and "Word_Delete dp j s = Some (None, s3)"
  shows "reads_back dp s1 (wr_ID r1) r1 \<and> (\<exists>t. reads_back dp s2 i (r2\<lparr>wr_UpdatedAt := t\<rparr>)) \<and>
    (\<forall>r. Word_Get dp j s3 \<noteq> Inr r)"
proof (intro conjI)
  note valid = word_request_valid [OF assms(1,2) _ assms(3)]
  obtain m where m: "rows (st_db s1) = rows (st_db s) @ [m]" "r1 = EntityToDTO (ToEntity m)"
    by (rule created_row [OF assms(1,4)])
  have "distinct (map md_ID (rows (st_db s1)))"
    using valid [OF word_request.create [OF assms(4)]] by (simp add: table_valid_def)
  from row_is_read_back [OF assms(2) this, of m] m show "reads_back dp s1 (wr_ID r1) r1"
    by (simp add: EntityToDTO_def)
  obtain m wd t where u: "m \<in> set (rows (st_db s))" "md_ID m = i"
    "apply_update (dp_unicode dp) ureq (ToEntity m) = Inr wd" "r2 = EntityToDTO wd"
    "rows (st_db s2) = map (\<lambda>k. if md_ID k = i then (FromEntity wd)\<lparr>md_UpdatedAt := t\<rparr> else k) (rows (st_db s))"
    by (rule updated_row [OF assms(1,2,5)])
  have "distinct (map md_ID (rows (st_db s2)))"
    using valid [OF word_request.update [OF assms(5)]] by (simp add: table_valid_def)
  moreover have "(FromEntity wd)\<lparr>md_UpdatedAt := t\<rparr> \<in> set (rows (st_db s2))" using u(1,2,5) by force
  moreover have "sw_ID wd = i" using apply_update_keeps [OF u(3)] u(2) by simp
  ultimately have "reads_back dp s2 i (EntityToDTO (ToEntity ((FromEntity wd)\<lparr>md_UpdatedAt := t\<rparr>)))"
    using row_is_read_back [OF assms(2), of s2 "(FromEntity wd)\<lparr>md_UpdatedAt := t\<rparr>"] by simp
  then show "\<exists>t. reads_back dp s2 i (r2\<lparr>wr_UpdatedAt := t\<rparr>)"
    using u(4) by (intro exI [of _ t]) (simp add: EntityToDTO_def ToEntity_def FromEntity_def)
  have "rows (st_db s3) = filter (\<lambda>m. md_ID m \<noteq> j) (rows (st_db s))"
    using assms(6) by (cases rule: Delete_cases) (use write_okD(6) [OF assms(1)] in auto)
  then have "\<nexists>w. FindByID (dp_gorm dp) j (st_db s3) = Inr w"
    using FindByID_ok(1) [OF assms(2), of j "st_db s3"] by auto
  then show "\<forall>r. Word_Get dp j s3 \<noteq> Inr r" by (auto simp: Word_Get_def split: sum.splits)
qed

theorem word_read_after_write_witness:
  "\<exists>r1 s1. Word_Create sample_deps (sample_create ''ham'') (sample_state [sample_row 4 ''spam'' 7] 5) = Some (Inr r1, s1) \<and>
     reads_back sample_deps s1 (wr_ID r1) r1"
proof -
  let ?s = "sample_state [sample_row 4 ''spam'' 7] 5"
  have "succeeds (Word_Create sample_deps (sample_create ''ham'') ?s) (\<lambda>r s'. True)" by code_simp
  then obtain r1 s1 where c: "Word_Create sample_deps (sample_create ''ham'') ?s = Some (Inr r1, s1)"
    by (rule succeedsE)
  have "succeeds (Word_Update sample_deps 4 (retag ''x'') ?s) (\<lambda>r s'. True)" by code_simp
  then obtain r2 s2 where u: "Word_Update sample_deps 4 (retag ''x'') ?s = Some (Inr r2, s2)"
    by (rule succeedsE)
  have "map_option fst (Word_Delete sample_deps 4 ?s) = Some None" by code_simp
  then obtain s3 where d: "Word_Delete sample_deps 4 ?s = Some (None, s3)" by auto
  have "NormalizeForIndex ascii_data ''spam'' = ''spam''" by code_simp
  then have v: "table_valid (dp_unicode sample_deps) (tb_rows (st_db ?s))"
    by (auto simp: table_valid_def sample_state_def row_valid_def sample_row_def ToEntity_def
        intro: exI [of _ "''spam''"])
       code_simp
  have w: "write_ok (dp_gorm sample_deps) tb_rows" "read_ok (dp_gorm sample_deps) contains tb_rows"
    by (simp_all add: table_write_ok table_read_ok)
  from word_read_after_write [OF w v c u d] c show ?thesis by blast
qed

text \<open>
  Claim C22. \<open>Import\<close> accounts for every word: the total is what was sent; the failures are, in order
  and with index, text and reason, exactly the words that do not validate, and \<open>Skipped\<close> is their
  number; \<open>Imported\<close> is the number of rows appended, each the row of a word that was accepted. If it
  fails the table is as it was. What is neither imported nor skipped was a duplicate.
\<close>

theorem import_accounting:
  assumes "write_ok (dp_gorm dp) rows" and "Word_Import dp req s = Some (x, s')"
  shows "case x of
      Inl e \<Rightarrow> rows (st_db s') = rows (st_db s)
    | Inr r \<Rightarrow> ir_Total r = int (length (im_Words req)) \<and>
        ir_Skipped r = int (length (filter (refused (dp_unicode dp)) (im_Words req))) \<and>
        ir_Failures r = map (\<lambda>(i, w). failure_at (dp_unicode dp) i w)
          (filter (\<lambda>(i, w). refused (dp_unicode dp) w) (enumerate 0 (im_Words req))) \<and>
        (\<exists>new. rows (st_db s') = rows (st_db s) @ new \<and> ir_Imported r = int (length new) \<and>
           length new \<le> length (filter (\<lambda>w. \<not> refused (dp_unicode dp) w) (im_Words req)) \<and>
           (\<forall>m \<in> set new. \<exists>w \<in> set (im_Words req). \<not> refused (dp_unicode dp) w \<and>
              filled (FromEntity (CreateDTOToEntity (dp_unicode dp) w)) m))"
  by (rule imported_rows [OF assms])

theorem import_accounting_witness:
  "\<exists>r s'. Word_Import sample_deps \<lparr>im_Words = [sample_create ''ham'', sample_create '' '', sample_create ''spam'']\<rparr>
      (sample_state [sample_row 4 ''spam'' 7] 5) = Some (Inr r, s') \<and>
    ir_Total r = 3 \<and> ir_Skipped r = 1 \<and> ir_Imported r = 1 \<and> map if_Index (ir_Failures r) = [1]"
proof -
  let ?s = "sample_state [sample_row 4 ''spam'' 7] 5"
  let ?req = "\<lparr>im_Words = [sample_create ''ham'', sample_create '' '', sample_create ''spam'']\<rparr>"
  have "succeeds (Word_Import sample_deps ?req ?s) (\<lambda>r s'. length (tb_rows (st_db s')) = 2)" by code_simp
  then obtain r s' where i: "Word_Import sample_deps ?req ?s = Some (Inr r, s')" "length (tb_rows (st_db s')) = 2"
    by (rule succeedsE)
  have f: "refused ascii_data (sample_create '' '')" "\<not> refused ascii_data (sample_create ''ham'')"
    "\<not> refused ascii_data (sample_create ''spam'')" by code_simp+
  have w: "write_ok (dp_gorm sample_deps) tb_rows" by (simp add: table_write_ok)
  from import_accounting [OF w i(1)] i f show ?thesis
    by (auto simp: sample_state_def failure_at_def)
qed

text \<open>
  Claim C23. An export that reports no error can be read back: the bytes written parse, as
  comma-separated values, into the header and one record per exported row in the order of the
  ids, whatever the texts and tags contain; the rows are the active ones, or with a category all
  rows of that category, active or not.
\<close>

theorem export_reads_back:
  assumes "read_ok (dp_gorm dp) like rows" and "writer_ok io_write content" and "content out = []"
    and "ExportToWriter dp io_write category out s = (None, out')"
  shows "csv_parse (content out') =
    Some (export_header # map (export_record \<circ> ToEntity)
      (sort_key md_ID (selected like [if category \<noteq> [] then CategoryIs category else StatusIs 1] (rows (st_db s)))))"
  by (rule ExportToWriter_ok [OF assms])

theorem export_reads_back_witness:
  "csv_parse (snd (ExportToWriter sample_deps (\<lambda>b out. (None, out @ b)) [] []
      (sample_state [sample_row 4 ''a,b'' 7, sample_row 2 [CHR 0x22] 7] 5))) =
   Some [export_header, [[CHR 0x22], ''ad'', ''low'', []], [''a,b'', ''ad'', ''low'', []]]"
proof -
  let ?s = "sample_state [sample_row 4 ''a,b'' 7, sample_row 2 [CHR 0x22] 7] 5"
  let ?x = "ExportToWriter sample_deps (\<lambda>b out. (None, out @ b)) [] [] ?s"
  have "fst ?x = None" by code_simp
  then have x: "?x = (None, snd ?x)" by (metis prod.collapse)
  have ok: "writer_ok (\<lambda>b out. (None, out @ b)) (\<lambda>out. out)" by (simp add: writer_ok_def)
  have r: "read_ok (dp_gorm sample_deps) contains tb_rows" by (simp add: table_read_ok)
  have v: "map (export_record \<circ> ToEntity) (sort_key md_ID (selected contains
      [if ([]::gostring) \<noteq> [] then CategoryIs [] else StatusIs 1] (tb_rows (st_db ?s)))) =
      [[[CHR 0x22], ''ad'', ''low'', []], [''a,b'', ''ad'', ''low'', []]]" by code_simp
  from export_reads_back [OF r ok _ x] v show ?thesis by simp
qed

end
