(* ===== verification/Strategies.thy ===== *)
theory Strategies
  imports AhoCorasick
begin

text \<open>
  The three filter strategies of \<open>internal/infrastructure/algorithm\<close>: \<open>strategy_detect.go\<close>,
  \<open>strategy_replace.go\<close> and \<open>strategy_highlight.go\<close>. \<open>time.Now()\<close> is an argument. An index out of
  range is a panic, \<open>None\<close>; the properties show when there is none. \<open>sort.Slice\<close> is not stable:
  the model sorts stably, and \<open>merge_sorted_ties\<close> and \<open>mark_all_perm\<close> show that any other order
  of equal positions gives the same result.
\<close>

definition sort_slice :: "MatchItem list \<Rightarrow> MatchItem list" where
  "sort_slice ms = sort_key mi_Position ms"

lemma sort_slice_perm [simp]: "mset (sort_slice ms) = mset ms" "set (sort_slice ms) = set ms"
  "sort_slice ms = [] \<longleftrightarrow> ms = []"
  by (simp_all add: sort_slice_def)
    (metis mset_sort mset_zero_iff_right)

lemma sort_slice_sorted: "sorted (map mi_Position (sort_slice ms))"
  by (simp add: sort_slice_def)

section \<open>Detect\<close>

definition Detect_Name :: FilterStrategyType where
  "Detect_Name = StrategyDetect"

definition Detect_Apply ::
  "instant \<Rightarrow> gostring \<Rightarrow> gostring \<Rightarrow> MatchItem list \<Rightarrow> FilterResult option" where
  "Detect_Apply now original normalized matches = Some
     \<lparr>fr_Original = original, fr_Filtered = original, fr_IsHit = length matches > 0,
      fr_HitCount = int (length matches), fr_Matches = matches,
      fr_RiskLevel = MaxRiskLevel matches, fr_ProcessedAt = now, fr_CostMs = 0\<rparr>"

section \<open>Replace\<close>

text \<open>\<open>for i := m.Position; i < m.EndPos && i < len(masked); i++ { masked[i] = true }\<close>\<close>

function mark_range :: "bool list \<Rightarrow> int \<Rightarrow> int \<Rightarrow> bool list option" where
  "mark_range masked i e =
     (if i < e \<and> i < int (length masked) then
        (if i < 0 then None else mark_range (masked[nat i := True]) (i + 1) e)
      else Some masked)"
  by pat_completeness auto
termination
  by (relation "measure (\<lambda>(masked, i, e). nat (int (length masked) - i))") auto

declare mark_range.simps [simp del]

fun mark_all :: "bool list \<Rightarrow> MatchItem list \<Rightarrow> bool list option" where
  "mark_all masked [] = Some masked"
| "mark_all masked (m # ms) =
     (case mark_range masked (mi_Position m) (mi_EndPos m) of
        None \<Rightarrow> None | Some masked' \<Rightarrow> mark_all masked' ms)"

text \<open>\<open>for i, r := range runes { if masked[i] ... }\<close>\<close>

fun write_masked :: "bool list \<Rightarrow> rune \<Rightarrow> nat \<Rightarrow> rune list \<Rightarrow> gostring option" where
  "write_masked masked msk i [] = Some []"
| "write_masked masked msk i (r # rs) =
     (if i < length masked then
        (case write_masked masked msk (Suc i) rs of
           None \<Rightarrow> None
         | Some out \<Rightarrow> Some (encode_rune (if masked ! i then msk else r) @ out))
      else None)"

definition replaceMatches ::
  "gostring \<Rightarrow> gostring \<Rightarrow> MatchItem list \<Rightarrow> rune \<Rightarrow> gostring option" where
  "replaceMatches original normalized matches msk =
     (if length matches = 0 then Some original
      else
        let runes = runes_of original;
            normalizedRunes = runes_of normalized;
            sorted_matches = sort_slice matches
        in case mark_all (replicate (length normalizedRunes) False) sorted_matches of
             None \<Rightarrow> None
           | Some masked \<Rightarrow>
               if length runes = length normalizedRunes
               then write_masked masked msk 0 runes
               else write_masked masked msk 0 normalizedRunes)"

definition Replace_Name :: FilterStrategyType where
  "Replace_Name = StrategyReplace"

definition Replace_Apply ::
  "instant \<Rightarrow> gostring \<Rightarrow> gostring \<Rightarrow> MatchItem list \<Rightarrow> FilterResult option" where
  "Replace_Apply now original normalized matches =
     (case replaceMatches original normalized matches 0x2A of
        None \<Rightarrow> None
      | Some filtered \<Rightarrow> Some
          \<lparr>fr_Original = original, fr_Filtered = filtered, fr_IsHit = length matches > 0,
           fr_HitCount = int (length matches), fr_Matches = matches,
           fr_RiskLevel = MaxRiskLevel matches, fr_ProcessedAt = now, fr_CostMs = 0\<rparr>)"

section \<open>Highlight\<close>

record interval =
  iv_start :: int
  iv_end :: int

text \<open>
  The loop of \<open>mergeIntervals\<close>: \<open>last\<close> is the interval at the end of the slice, \<open>done\<close> the ones
  before it.
\<close>

fun merge_loop :: "interval list \<Rightarrow> interval \<Rightarrow> MatchItem list \<Rightarrow> interval list" where
  "merge_loop acc lst [] = acc @ [lst]"
| "merge_loop acc lst (m # ms) =
     (if mi_Position m \<le> iv_end lst then
        (if mi_EndPos m > iv_end lst then merge_loop acc (lst\<lparr>iv_end := mi_EndPos m\<rparr>) ms
         else merge_loop acc lst ms)
      else merge_loop (acc @ [lst]) \<lparr>iv_start = mi_Position m, iv_end = mi_EndPos m\<rparr> ms)"

fun merge_sorted :: "MatchItem list \<Rightarrow> interval list" where
  "merge_sorted [] = []"
| "merge_sorted (m # ms) =
     merge_loop [] \<lparr>iv_start = mi_Position m, iv_end = mi_EndPos m\<rparr> ms"

definition mergeIntervals :: "MatchItem list \<Rightarrow> interval list" where
  "mergeIntervals matches =
     (if length matches = 0 then [] else merge_sorted (sort_slice matches))"

text \<open>\<open>for ; i < stop && i < len(targetRunes); i++ { b.WriteString(html.EscapeString(...)) }\<close>\<close>

function write_escaped :: "rune list \<Rightarrow> int \<Rightarrow> int \<Rightarrow> gostring option" where
  "write_escaped ts i stop =
     (if i < stop \<and> i < int (length ts) then
        (if i < 0 then None
         else case write_escaped ts (i + 1) stop of
                None \<Rightarrow> None
              | Some out \<Rightarrow> Some (EscapeString (encode_rune (ts ! nat i)) @ out))
      else Some [])"
  by pat_completeness auto
termination
  by (relation "measure (\<lambda>(ts, i, stop). nat (int (length ts) - i))") auto

declare write_escaped.simps [simp del]

definition open_mark :: gostring where "open_mark = ''<mark>''"
definition close_mark :: gostring where "close_mark = ''</mark>''"

fun write_intervals :: "rune list \<Rightarrow> int \<Rightarrow> interval list \<Rightarrow> gostring option" where
  "write_intervals ts idx [] = write_escaped ts idx (int (length ts))"
| "write_intervals ts idx (iv # ivs) =
     (case write_escaped ts idx (iv_start iv) of None \<Rightarrow> None
      | Some before \<Rightarrow>
          (case write_escaped ts (iv_start iv) (iv_end iv) of None \<Rightarrow> None
           | Some inside \<Rightarrow>
               (case write_intervals ts (iv_end iv) ivs of None \<Rightarrow> None
                | Some rest \<Rightarrow> Some (before @ open_mark @ inside @ close_mark @ rest))))"

definition highlightMatches ::
  "gostring \<Rightarrow> gostring \<Rightarrow> MatchItem list \<Rightarrow> gostring option" where
  "highlightMatches original normalized matches =
     (if length matches = 0 then Some original
      else
        let runes = runes_of original;
            normalizedRunes = runes_of normalized;
            intervals = mergeIntervals matches;
            targetRunes = (if length runes \<noteq> length normalizedRunes then normalizedRunes else runes)
        in write_intervals targetRunes 0 intervals)"

definition Highlight_Name :: FilterStrategyType where
  "Highlight_Name = StrategyHighlight"

definition Highlight_Apply ::
  "instant \<Rightarrow> gostring \<Rightarrow> gostring \<Rightarrow> MatchItem list \<Rightarrow> FilterResult option" where
  "Highlight_Apply now original normalized matches =
     (case highlightMatches original normalized matches of
        None \<Rightarrow> None
      | Some filtered \<Rightarrow> Some
          \<lparr>fr_Original = original, fr_Filtered = filtered, fr_IsHit = length matches > 0,
           fr_HitCount = int (length matches), fr_Matches = matches,
           fr_RiskLevel = MaxRiskLevel matches, fr_ProcessedAt = now, fr_CostMs = 0\<rparr>)"

section \<open>Coverage: which positions the matches cover\<close>

definition covered :: "MatchItem list \<Rightarrow> int \<Rightarrow> bool" where
  "covered ms i \<longleftrightarrow> (\<exists>m \<in> set ms. mi_Position m \<le> i \<and> i < mi_EndPos m)"

lemma covered_sort_slice [simp]: "covered (sort_slice ms) = covered ms"
  by (simp add: covered_def fun_eq_iff)

lemma mark_range_ok:
  "0 \<le> i \<Longrightarrow> \<exists>masked'. mark_range masked i e = Some masked' \<and> length masked' = length masked \<and>
     (\<forall>k < length masked. masked' ! k \<longleftrightarrow> masked ! k \<or> i \<le> int k \<and> int k < e)"
proof (induction masked i e rule: mark_range.induct)
  case (1 masked i e)
  show ?case
  proof (cases "i < e \<and> i < int (length masked)")
    case True
    then have i: "nat i < length masked" "\<not> i < 0" using "1.prems" by auto
    obtain masked' where m: "mark_range (masked[nat i := True]) (i + 1) e = Some masked'"
      "length masked' = length masked"
      "\<forall>k < length masked. masked' ! k \<longleftrightarrow> masked[nat i := True] ! k \<or> i + 1 \<le> int k \<and> int k < e"
      using "1.IH" [OF True] "1.prems" by auto
    have "masked' ! k \<longleftrightarrow> masked ! k \<or> i \<le> int k \<and> int k < e" if "k < length masked" for k
      using m(3) that i True by (cases "int k = i") (auto simp: nth_list_update)
    with m True i show ?thesis by (simp add: mark_range.simps [of masked i e])
  next
    case False
    then show ?thesis by (auto simp: mark_range.simps [of masked i e])
  qed
qed

lemma mark_all_ok:
  "\<forall>m \<in> set ms. 0 \<le> mi_Position m \<Longrightarrow>
   \<exists>masked'. mark_all masked ms = Some masked' \<and> length masked' = length masked \<and>
     (\<forall>k < length masked. masked' ! k \<longleftrightarrow> masked ! k \<or> covered ms (int k))"
proof (induction ms arbitrary: masked)
  case Nil
  then show ?case by (simp add: covered_def)
next
  case (Cons m ms)
  obtain masked1 where m1: "mark_range masked (mi_Position m) (mi_EndPos m) = Some masked1"
    "length masked1 = length masked"
    "\<forall>k < length masked. masked1 ! k \<longleftrightarrow> masked ! k \<or> mi_Position m \<le> int k \<and> int k < mi_EndPos m"
    using mark_range_ok [of "mi_Position m" masked "mi_EndPos m"] Cons.prems by auto
  obtain masked2 where "mark_all masked1 ms = Some masked2" "length masked2 = length masked1"
    "\<forall>k < length masked1. masked2 ! k \<longleftrightarrow> masked1 ! k \<or> covered ms (int k)"
    using Cons.IH [of masked1] Cons.prems by auto
  with m1 show ?case by (auto simp: covered_def)
qed

lemma mark_all_perm:
  assumes "mset ms = mset ms'" "\<forall>m \<in> set ms. 0 \<le> mi_Position m"
  shows "mark_all masked ms = mark_all masked ms'"
proof -
  have "set ms = set ms'" using assms(1) mset_eq_setD by blast
  then have c: "covered ms = covered ms'" "\<forall>m \<in> set ms'. 0 \<le> mi_Position m"
    using assms(2) by (simp_all add: covered_def fun_eq_iff)
  show ?thesis
    using mark_all_ok [OF assms(2), of masked] mark_all_ok [OF c(2), of masked] c(1)
    by (auto intro!: nth_equalityI)
qed

lemma write_masked_ok:
  "i + length rs \<le> length masked \<Longrightarrow>
   write_masked masked msk i rs =
     Some (string_of (map (\<lambda>k. if masked ! (i + k) then msk else rs ! k) [0 ..< length rs]))"
proof (induction rs arbitrary: i)
  case Nil
  then show ?case by simp
next
  case (Cons r rs)
  then have "write_masked masked msk (Suc i) rs =
      Some (string_of (map (\<lambda>k. if masked ! (Suc i + k) then msk else rs ! k) [0 ..< length rs]))"
    by simp
  moreover have "[0 ..< length (r # rs)] = 0 # map Suc [0 ..< length rs]"
    by (simp add: map_Suc_upt upt_conv_Cons del: upt_Suc)
  ultimately show ?case using Cons.prems by (simp add: comp_def cong: if_cong del: upt_Suc)
qed

text \<open>The runes a strategy writes: the original's if normalising kept the length.\<close>

definition target_runes :: "gostring \<Rightarrow> gostring \<Rightarrow> rune list" where
  "target_runes original normalized =
     (if length (runes_of original) \<noteq> length (runes_of normalized) then runes_of normalized
      else runes_of original)"

lemma length_target_runes [simp]:
  "length (target_runes original normalized) = length (runes_of normalized)"
  by (simp add: target_runes_def)

lemma target_runes_valid: "r \<in> set (target_runes original normalized) \<Longrightarrow> valid_rune r"
  by (auto simp: target_runes_def runes_of_valid split: if_splits)

lemma replaceMatches_eq:
  assumes "\<forall>m \<in> set matches. 0 \<le> mi_Position m" "matches \<noteq> []"
  shows "replaceMatches original normalized matches msk =
    Some (string_of (map (\<lambda>k. if covered matches (int k) then msk
      else target_runes original normalized ! k) [0 ..< length (runes_of normalized)]))"
proof -
  let ?n = "length (runes_of normalized)"
  obtain masked where m: "mark_all (replicate ?n False) (sort_slice matches) = Some masked"
    "length masked = ?n" "\<forall>k < ?n. masked ! k \<longleftrightarrow> covered matches (int k)"
    using mark_all_ok [of "sort_slice matches" "replicate ?n False"] assms(1) by auto
  have "replaceMatches original normalized matches msk =
      write_masked masked msk 0 (target_runes original normalized)"
    using m(1) assms(2) by (simp add: replaceMatches_def target_runes_def Let_def)
  also have "\<dots> = Some (string_of (map (\<lambda>k. if masked ! k then msk
      else target_runes original normalized ! k) [0 ..< ?n]))"
    using write_masked_ok [of 0 "target_runes original normalized" masked msk] m(2) by simp
  also have "map (\<lambda>k. if masked ! k then msk else target_runes original normalized ! k) [0 ..< ?n] =
      map (\<lambda>k. if covered matches (int k) then msk
      else target_runes original normalized ! k) [0 ..< ?n]"
    using m(3) by simp
  finally show ?thesis .
qed

lemma star_valid [simp]: "valid_rune 0x2A"
  by (simp add: valid_rune_def)

section \<open>Merged intervals\<close>

definition iv_cov :: "interval list \<Rightarrow> int \<Rightarrow> bool" where
  "iv_cov ivs i \<longleftrightarrow> (\<exists>iv \<in> set ivs. iv_start iv \<le> i \<and> i < iv_end iv)"

text \<open>Non-empty, in order, and with a gap between one and the next.\<close>

definition separated :: "interval list \<Rightarrow> bool" where
  "separated ivs \<longleftrightarrow>
     sorted_wrt (\<lambda>a b. iv_end a < iv_start b) ivs \<and> (\<forall>iv \<in> set ivs. iv_start iv < iv_end iv)"

lemma iv_cov_Nil [simp]: "\<not> iv_cov [] i"
  by (simp add: iv_cov_def)

lemma iv_cov_Cons [simp]: "iv_cov (iv # ivs) i \<longleftrightarrow> iv_start iv \<le> i \<and> i < iv_end iv \<or> iv_cov ivs i"
  by (auto simp: iv_cov_def)

lemma iv_cov_append [simp]: "iv_cov (xs @ ys) i \<longleftrightarrow> iv_cov xs i \<or> iv_cov ys i"
  by (auto simp: iv_cov_def)

lemma covered_Cons [simp]:
  "covered (m # ms) i \<longleftrightarrow> mi_Position m \<le> i \<and> i < mi_EndPos m \<or> covered ms i"
  by (auto simp: covered_def)

lemma separated_Cons:
  "separated (iv # ivs) \<longleftrightarrow>
   iv_start iv < iv_end iv \<and> (\<forall>jv \<in> set ivs. iv_end iv < iv_start jv) \<and> separated ivs"
  by (auto simp: separated_def)

lemma separated_after:
  "separated (iv # ivs) \<Longrightarrow> iv_cov ivs i \<Longrightarrow> iv_end iv < i"
  by (auto simp: separated_Cons iv_cov_def)

lemma merge_loop_ok:
  assumes "separated acc" "\<forall>iv \<in> set acc. iv_end iv < iv_start lst" "iv_start lst < iv_end lst"
    and "sorted (map mi_Position ms)" "\<forall>m \<in> set ms. iv_start lst \<le> mi_Position m"
    and "\<forall>m \<in> set ms. mi_Position m < mi_EndPos m"
  shows "separated (merge_loop acc lst ms) \<and>
    (\<forall>i. iv_cov (merge_loop acc lst ms) i \<longleftrightarrow>
       iv_cov acc i \<or> iv_start lst \<le> i \<and> i < iv_end lst \<or> covered ms i)"
  using assms
proof (induction acc lst ms rule: merge_loop.induct)
  case (1 acc lst)
  then show ?case by (auto simp: separated_def sorted_wrt_append covered_def)
next
  case (2 acc lst m ms)
  let ?ext = "lst\<lparr>iv_end := mi_EndPos m\<rparr>"
  let ?new = "\<lparr>iv_start = mi_Position m, iv_end = mi_EndPos m\<rparr>"
  have pm: "iv_start lst \<le> mi_Position m" "mi_Position m < mi_EndPos m" using "2.prems" by auto
  have ord: "sorted (map mi_Position ms)" "\<forall>n \<in> set ms. mi_Position m \<le> mi_Position n"
    "\<forall>n \<in> set ms. iv_start lst \<le> mi_Position n" "\<forall>n \<in> set ms. mi_Position n < mi_EndPos n"
    using "2.prems"(4-6) by simp_all
  show ?case
  proof (cases "mi_Position m \<le> iv_end lst")
    case close: True
    show ?thesis
    proof (cases "mi_EndPos m > iv_end lst")
      case True
      have step: "merge_loop acc lst (m # ms) = merge_loop acc ?ext ms" using close True by simp
      have c: "iv_start ?ext \<le> i \<and> i < iv_end ?ext \<longleftrightarrow>
          iv_start lst \<le> i \<and> i < iv_end lst \<or> mi_Position m \<le> i \<and> i < mi_EndPos m" for i
        using close True pm by auto
      have e: "\<forall>iv \<in> set acc. iv_end iv < iv_start ?ext" "iv_start ?ext < iv_end ?ext"
        "\<forall>n \<in> set ms. iv_start ?ext \<le> mi_Position n"
        using "2.prems"(2,3) ord(3) True by simp_all
      note ih = "2.IH"(1) [OF close True "2.prems"(1) e(1,2) ord(1) e(3) ord(4)]
      show ?thesis unfolding step using ih by (simp only: c covered_Cons disj_assoc simp_thms)
    next
      case False
      have step: "merge_loop acc lst (m # ms) = merge_loop acc lst ms" using close False by simp
      have c: "iv_start lst \<le> i \<and> i < iv_end lst \<longleftrightarrow>
          iv_start lst \<le> i \<and> i < iv_end lst \<or> mi_Position m \<le> i \<and> i < mi_EndPos m" for i
        using False pm by auto
      note ih = "2.IH"(2) [OF close False "2.prems"(1-3) ord(1) ord(3) ord(4)]
      show ?thesis unfolding step using ih c by (metis covered_Cons)
    qed
  next
    case far: False
    have step: "merge_loop acc lst (m # ms) = merge_loop (acc @ [lst]) ?new ms" using far by simp
    have e: "separated (acc @ [lst])" "\<forall>iv \<in> set (acc @ [lst]). iv_end iv < iv_start ?new"
      "iv_start ?new < iv_end ?new" "\<forall>n \<in> set ms. iv_start ?new \<le> mi_Position n"
      using "2.prems"(1-3) far pm ord(2) by (auto simp: separated_def sorted_wrt_append)
    note ih = "2.IH"(3) [OF far e(1-3) ord(1) e(4) ord(4)]
    show ?thesis unfolding step using ih by (simp add: disj_assoc)
  qed
qed

lemma merge_sorted_ok:
  assumes "sorted (map mi_Position ms)" "\<forall>m \<in> set ms. mi_Position m < mi_EndPos m"
  shows "separated (merge_sorted ms)" "iv_cov (merge_sorted ms) = covered ms"
proof -
  have "separated (merge_sorted ms) \<and> (\<forall>i. iv_cov (merge_sorted ms) i \<longleftrightarrow> covered ms i)"
  proof (cases ms)
    case Nil
    then show ?thesis by (simp add: separated_def covered_def)
  next
    case (Cons m ms')
    then show ?thesis
      using merge_loop_ok [of "[]" "\<lparr>iv_start = mi_Position m, iv_end = mi_EndPos m\<rparr>" ms'] assms
      by (auto simp: separated_def)
  qed
  then show "separated (merge_sorted ms)" "iv_cov (merge_sorted ms) = covered ms" by auto
qed

lemma mergeIntervals_ok:
  assumes "\<forall>m \<in> set ms. mi_Position m < mi_EndPos m"
  shows "separated (mergeIntervals ms)" "iv_cov (mergeIntervals ms) = covered ms"
  using merge_sorted_ok [OF sort_slice_sorted, of ms] assms
  by (auto simp: mergeIntervals_def separated_def covered_def fun_eq_iff)

text \<open>Separated intervals are determined by what they cover.\<close>

lemma separated_unique:
  "separated xs \<Longrightarrow> separated ys \<Longrightarrow> iv_cov xs = iv_cov ys \<Longrightarrow> xs = ys"
proof (induction xs arbitrary: ys)
  case Nil
  show ?case
  proof (cases ys)
    case (Cons b ys')
    with Nil(2,3) have "iv_cov ys (iv_start b)" by (simp add: separated_Cons)
    with Nil(3) show ?thesis by (metis iv_cov_Nil)
  qed simp
next
  case (Cons a xs)
  have eq: "\<And>i. iv_cov (a # xs) i = iv_cov ys i"
    by (rule fun_cong [OF Cons.prems(3)])
  have sa: "separated (a # xs)" by (rule Cons.prems(1))
  then have na: "iv_start a < iv_end a" by (simp add: separated_Cons)
  then have "iv_cov ys (iv_start a)" using eq [of "iv_start a"] by simp
  then obtain b ys' where ys: "ys = b # ys'" by (cases ys) auto
  have sb: "separated (b # ys')" using Cons.prems(2) ys by simp
  then have nb: "iv_start b < iv_end b" by (simp add: separated_Cons)
  have lo: "iv_start v \<le> i" if "separated (v # vs)" "iv_cov (v # vs) i" for v vs i
    using that separated_after [OF that(1), of i] by (simp add: separated_Cons) linarith
  have "iv_start b \<le> iv_start a" using lo [OF sb] eq [of "iv_start a"] ys na by auto
  moreover have "iv_start a \<le> iv_start b" using lo [OF sa] eq [of "iv_start b"] ys nb by auto
  ultimately have start: "iv_start a = iv_start b" by simp
  have out: "\<not> iv_cov (v # vs) (iv_end v)" if "separated (v # vs)" for v vs
    using separated_after [OF that] by auto
  have "iv_end a = iv_end b"
  proof (rule ccontr)
    assume "iv_end a \<noteq> iv_end b"
    then consider "iv_end a < iv_end b" | "iv_end b < iv_end a" by linarith
    then show False
      using eq [of "iv_end a"] eq [of "iv_end b"] out [OF sa] out [OF sb] ys start na nb
      by cases auto
  qed
  with start have ab: "a = b" by simp
  have "iv_cov xs i \<longleftrightarrow> iv_cov ys' i" for i
    using eq [of i] separated_after [OF sa, of i] separated_after [OF sb, of i] ys ab by auto
  then have "xs = ys'"
    using Cons.IH [of ys'] sa sb by (auto simp: separated_Cons)
  with ab ys show ?case by simp
qed

text \<open>The order in which an unstable sort leaves equal positions does not matter.\<close>

lemma merge_sorted_ties:
  assumes "mset ms' = mset ms" "sorted (map mi_Position ms')"
    and "\<forall>m \<in> set ms. mi_Position m < mi_EndPos m"
  shows "merge_sorted ms' = mergeIntervals ms"
proof (rule separated_unique)
  have e: "set ms' = set ms" using assms(1) by (rule mset_eq_setD)
  then have "\<forall>m \<in> set ms'. mi_Position m < mi_EndPos m" using assms(3) by simp
  from merge_sorted_ok [OF assms(2) this] mergeIntervals_ok [OF assms(3)] e
  show "separated (merge_sorted ms')" "separated (mergeIntervals ms)"
    "iv_cov (merge_sorted ms') = iv_cov (mergeIntervals ms)"
    by (simp_all add: covered_def fun_eq_iff)
qed

section \<open>What highlighting writes\<close>

lemma upt_split: "i \<le> j \<Longrightarrow> j \<le> k \<Longrightarrow> [i ..< k] = [i ..< j] @ [j ..< k]"
  by (metis le_add_diff_inverse upt_add_eq_append)

definition escaped :: "rune \<Rightarrow> gostring" where
  "escaped r = EscapeString (encode_rune r)"

text \<open>
  The reference: position by position, a tag opens where coverage begins and closes where it
  ends.
\<close>

definition highlight_piece :: "rune list \<Rightarrow> (int \<Rightarrow> bool) \<Rightarrow> nat \<Rightarrow> gostring" where
  "highlight_piece ts cov k =
     (if cov (int k) \<and> \<not> cov (int k - 1) then open_mark else []) @ escaped (ts ! k) @
     (if cov (int k) \<and> \<not> cov (int k + 1) then close_mark else [])"

definition highlight_reference :: "rune list \<Rightarrow> (int \<Rightarrow> bool) \<Rightarrow> gostring" where
  "highlight_reference ts cov = concat (map (highlight_piece ts cov) [0 ..< length ts])"

lemma write_escaped_ok:
  "0 \<le> i \<Longrightarrow> i \<le> stop \<Longrightarrow> stop \<le> int (length ts) \<Longrightarrow>
   write_escaped ts i stop = Some (concat (map (\<lambda>k. escaped (ts ! k)) [nat i ..< nat stop]))"
proof (induction ts i stop rule: write_escaped.induct)
  case (1 ts i stop)
  show ?case
  proof (cases "i < stop")
    case True
    then have t: "i < stop \<and> i < int (length ts)" "\<not> i < 0" using "1.prems" by auto
    have "write_escaped ts (i + 1) stop =
        Some (concat (map (\<lambda>k. escaped (ts ! k)) [nat (i + 1) ..< nat stop]))"
      by (rule "1.IH" [OF t]) (use "1.prems" True in auto)
    moreover have "[nat i ..< nat stop] = nat i # [nat (i + 1) ..< nat stop]"
      using True "1.prems" by (simp add: upt_conv_Cons nat_add_distrib)
    ultimately show ?thesis using t by (simp add: write_escaped.simps [of ts i stop] escaped_def)
  next
    case False
    then show ?thesis using "1.prems" by (subst write_escaped.simps) simp
  qed
qed

lemma plain_pieces:
  assumes "\<forall>k \<in> {a ..< b}. \<not> cov (int k)"
  shows "concat (map (highlight_piece ts cov) [a ..< b]) = concat (map (\<lambda>k. escaped (ts ! k)) [a ..< b])"
proof -
  have "map (highlight_piece ts cov) [a ..< b] = map (\<lambda>k. escaped (ts ! k)) [a ..< b]"
    by (rule map_cong) (use assms in \<open>auto simp: highlight_piece_def\<close>)
  then show ?thesis by (simp only:)
qed

lemma marked_pieces:
  "\<forall>k \<in> {a ..< a + Suc d}. cov (int k) \<Longrightarrow> \<not> cov (int (a + Suc d)) \<Longrightarrow>
   concat (map (highlight_piece ts cov) [a ..< a + Suc d]) =
     (if \<not> cov (int a - 1) then open_mark else []) @
     concat (map (\<lambda>k. escaped (ts ! k)) [a ..< a + Suc d]) @ close_mark"
proof (induction d arbitrary: a)
  case 0
  then show ?case by (simp add: highlight_piece_def add.commute)
next
  case (Suc d)
  have up: "[a ..< a + Suc (Suc d)] = a # [Suc a ..< Suc a + Suc d]"
    by (simp add: upt_conv_Cons del: upt_Suc)
  have c: "cov (int a)" "cov (int a + 1)" "cov (int (Suc a) - 1)"
    using Suc.prems(1) [rule_format, of a] Suc.prems(1) [rule_format, of "Suc a"]
    by (simp_all add: add.commute)
  have head: "highlight_piece ts cov a =
      (if \<not> cov (int a - 1) then open_mark else []) @ escaped (ts ! a)"
    using c by (simp add: highlight_piece_def)
  have ih: "concat (map (highlight_piece ts cov) [Suc a ..< Suc a + Suc d]) =
      (if \<not> cov (int (Suc a) - 1) then open_mark else []) @
      concat (map (\<lambda>k. escaped (ts ! k)) [Suc a ..< Suc a + Suc d]) @ close_mark"
    by (rule Suc.IH) (use Suc.prems in auto)
  show ?case
    unfolding up list.map concat.simps head ih using c(3)
    by (simp only: append.assoc if_False not_True_eq_False append_Nil)
qed

lemma write_intervals_ok:
  assumes "separated ivs" "0 \<le> idx" "idx \<le> int (length ts)"
    and "\<forall>iv \<in> set ivs. idx \<le> iv_start iv \<and> iv_end iv \<le> int (length ts)"
    and "\<forall>k \<ge> idx. cov k \<longleftrightarrow> iv_cov ivs k" "cov idx \<longrightarrow> \<not> cov (idx - 1)"
  shows "write_intervals ts idx ivs =
    Some (concat (map (highlight_piece ts cov) [nat idx ..< length ts]))"
  using assms
proof (induction ivs arbitrary: idx)
  case Nil
  then have "\<forall>k \<in> {nat idx ..< length ts}. \<not> cov (int k)" by auto
  from plain_pieces [OF this] Nil show ?case by (simp add: write_escaped_ok)
next
  case (Cons iv ivs)
  let ?s = "iv_start iv"
  let ?e = "iv_end iv"
  have se: "?s < ?e" "idx \<le> ?s" "?e \<le> int (length ts)" "0 \<le> ?s" "0 \<le> ?e"
    using Cons.prems by (auto simp: separated_Cons)
  have gap: "\<And>k. iv_cov ivs k \<Longrightarrow> ?e < k" using separated_after [OF Cons.prems(1)] by blast
  have cov: "cov k \<longleftrightarrow> ?s \<le> k \<and> k < ?e \<or> iv_cov ivs k" if "idx \<le> k" for k
    using Cons.prems(5) that by simp
  have rest: "write_intervals ts ?e ivs =
      Some (concat (map (highlight_piece ts cov) [nat ?e ..< length ts]))"
  proof (rule Cons.IH)
    show "separated ivs" "0 \<le> ?e" "?e \<le> int (length ts)"
      using Cons.prems(1) se by (simp_all add: separated_Cons)
    show "\<forall>jv \<in> set ivs. ?e \<le> iv_start jv \<and> iv_end jv \<le> int (length ts)"
      using Cons.prems(1,4) by (auto simp: separated_Cons)
    show "\<forall>k \<ge> ?e. cov k \<longleftrightarrow> iv_cov ivs k" using cov se by auto
    show "cov ?e \<longrightarrow> \<not> cov (?e - 1)" using cov [of ?e] gap [of ?e] se by auto
  qed
  have "\<forall>k \<in> {nat idx ..< nat ?s}. \<not> cov (int k)"
    using cov gap se by fastforce
  note before = plain_pieces [OF this, of ts]
  have before_start: "\<not> cov (?s - 1)"
  proof (cases "idx = ?s")
    case True
    then show ?thesis using Cons.prems(6) cov [of ?s] se by auto
  next
    case False
    then show ?thesis using cov [of "?s - 1"] gap [of "?s - 1"] se by auto
  qed
  define a d where "a = nat ?s" and "d = nat ?e - Suc (nat ?s)"
  have ad: "nat ?e = a + Suc d" "int a = ?s" "int (a + Suc d) = ?e"
    using se by (auto simp: a_def d_def)
  have in_cov: "\<forall>k \<in> {a ..< a + Suc d}. cov (int k)"
  proof
    fix k assume "k \<in> {a ..< a + Suc d}"
    then have "int a \<le> int k" "int k < int (a + Suc d)" by simp_all
    then show "cov (int k)" using cov [of "int k"] se ad(2,3) by simp
  qed
  have out_cov: "\<not> cov (int (a + Suc d))"
    unfolding ad(3) using cov [of ?e] gap [of ?e] se by auto
  from marked_pieces [OF in_cov out_cov, of ts] have inside:
    "concat (map (highlight_piece ts cov) [nat ?s ..< nat ?e]) =
     open_mark @ concat (map (\<lambda>k. escaped (ts ! k)) [nat ?s ..< nat ?e]) @ close_mark"
    unfolding ad(1) a_def [symmetric] using before_start ad(2) by simp
  have le: "nat idx \<le> nat ?s" "nat ?s \<le> nat ?e" "nat ?s \<le> length ts" "nat ?e \<le> length ts"
    using se by simp_all
  have all: "[nat idx ..< length ts] =
      [nat idx ..< nat ?s] @ [nat ?s ..< nat ?e] @ [nat ?e ..< length ts]"
    unfolding upt_split [of "nat idx" "nat ?s" "length ts", OF le(1,3)]
      upt_split [of "nat ?s" "nat ?e" "length ts", OF le(2,4)] ..
  show ?case
    unfolding all map_append concat_append
    using rest inside before se Cons.prems(2) by (simp add: write_escaped_ok)
qed

lemma highlightMatches_eq:
  assumes "\<forall>m \<in> set matches. match_within (int (length (runes_of normalized))) m" "matches \<noteq> []"
  shows "highlightMatches original normalized matches =
    Some (highlight_reference (target_runes original normalized) (covered matches))"
proof -
  let ?ts = "target_runes original normalized"
  have pos: "\<forall>m \<in> set matches. mi_Position m < mi_EndPos m"
    using assms(1) by (auto simp: match_within_def)
  note I = mergeIntervals_ok [OF pos]
  have within: "0 \<le> iv_start iv \<and> iv_end iv \<le> int (length ?ts)" if "iv \<in> set (mergeIntervals matches)" for iv
  proof -
    have ne: "iv_start iv < iv_end iv" using I(1) that by (simp add: separated_def)
    then have "iv_cov (mergeIntervals matches) (iv_start iv)"
      "iv_cov (mergeIntervals matches) (iv_end iv - 1)" using that by (auto simp: iv_cov_def)
    then have "covered matches (iv_start iv)" "covered matches (iv_end iv - 1)" using I(2) by simp_all
    then show ?thesis using assms(1) by (force simp: covered_def match_within_def)
  qed
  have neg: "\<not> covered matches (- 1)"
    using assms(1) by (auto simp: covered_def match_within_def)
  have "write_intervals ?ts 0 (mergeIntervals matches) =
      Some (concat (map (highlight_piece ?ts (covered matches)) [nat 0 ..< length ?ts]))"
    by (rule write_intervals_ok) (use I within neg in auto)
  then show ?thesis
    using assms(2) by (simp add: highlightMatches_def highlight_reference_def target_runes_def Let_def)
qed

section \<open>The interface of the strategies\<close>

text \<open>
  \<open>valueobject.FilterStrategy\<close>: whatever a strategy writes, the verdict beside it is the one the
  matches give, a text without matches comes back as it is, and \<open>Apply\<close> returns on all matches
  that lie in the normalised text.
\<close>

definition verdict_of :: "gostring \<Rightarrow> MatchItem list \<Rightarrow> FilterResult \<Rightarrow> bool" where
  "verdict_of original ms r \<longleftrightarrow>
     fr_Original r = original \<and> fr_Matches r = ms \<and> fr_HitCount r = int (length ms) \<and>
     (fr_IsHit r \<longleftrightarrow> ms \<noteq> []) \<and> fr_RiskLevel r = MaxRiskLevel ms"

definition matches_in :: "gostring \<Rightarrow> MatchItem list \<Rightarrow> bool" where
  "matches_in normalized ms \<longleftrightarrow>
     (\<forall>m \<in> set ms. match_within (int (length (runes_of normalized))) m)"

locale filter_strategy =
  fixes strategy :: "instant \<Rightarrow> gostring \<Rightarrow> gostring \<Rightarrow> MatchItem list \<Rightarrow> FilterResult option"
  assumes returns: "matches_in normalized ms \<Longrightarrow> \<exists>r. strategy now original normalized ms = Some r"
    and verdict: "strategy now original normalized ms = Some r \<Longrightarrow> verdict_of original ms r"
    and clean: "strategy now original normalized [] = Some r \<Longrightarrow> fr_Filtered r = original"
begin

lemma level_bounds:
  assumes "strategy now original normalized ms = Some r"
  shows "0 \<le> fr_RiskLevel r" "m \<in> set ms \<Longrightarrow> mi_Level m \<le> fr_RiskLevel r"
    "0 < fr_RiskLevel r \<Longrightarrow> \<exists>m \<in> set ms. mi_Level m = fr_RiskLevel r"
proof -
  let ?L = "insert 0 (mi_Level ` set ms)"
  have r: "fr_RiskLevel r = Max ?L"
    using verdict [OF assms] by (simp add: verdict_of_def MaxRiskLevel_def max_level_loop_Max)
  then show "0 \<le> fr_RiskLevel r" "m \<in> set ms \<Longrightarrow> mi_Level m \<le> fr_RiskLevel r" by simp_all
  have "Max ?L \<in> ?L" by (rule Max_in) auto
  with r show "0 < fr_RiskLevel r \<Longrightarrow> \<exists>m \<in> set ms. mi_Level m = fr_RiskLevel r" by auto
qed

lemma no_hit:
  "strategy now original normalized [] = Some r \<Longrightarrow>
   \<not> fr_IsHit r \<and> fr_HitCount r = 0 \<and> fr_RiskLevel r = 0 \<and> fr_Filtered r = original"
  using verdict clean by (fastforce simp: verdict_of_def MaxRiskLevel_def)

end

interpretation detect: filter_strategy Detect_Apply
  by unfold_locales (auto simp: Detect_Apply_def verdict_of_def)

interpretation replace: filter_strategy Replace_Apply
proof unfold_locales
  fix now original normalized ms
  assume "matches_in normalized ms"
  then have "\<forall>m \<in> set ms. 0 \<le> mi_Position m" by (auto simp: matches_in_def match_within_def)
  from replaceMatches_eq [OF this]
  show "\<exists>r. Replace_Apply now original normalized ms = Some r"
    by (cases "ms = []") (auto simp: Replace_Apply_def replaceMatches_def)
qed (auto simp: Replace_Apply_def verdict_of_def replaceMatches_def split: option.splits)

interpretation highlight: filter_strategy Highlight_Apply
proof unfold_locales
  fix now original normalized ms
  assume "matches_in normalized ms"
  then show "\<exists>r. Highlight_Apply now original normalized ms = Some r"
    using highlightMatches_eq [of ms normalized original]
    by (cases "ms = []") (auto simp: Highlight_Apply_def highlightMatches_def matches_in_def)
qed (auto simp: Highlight_Apply_def verdict_of_def highlightMatches_def split: option.splits)

section \<open>Properties\<close>

text \<open>An example: two overlapping matches, a third apart, in a text of nine runes.\<close>

definition sample_match :: "int \<Rightarrow> int \<Rightarrow> RiskLevel \<Rightarrow> MatchItem" where
  "sample_match s e lv =
     \<lparr>mi_Word = ''w'', mi_Position = s, mi_EndPos = e, mi_Category = CategoryAd, mi_Level = lv\<rparr>"

definition sample_matches :: "MatchItem list" where
  "sample_matches = [sample_match 6 8 1, sample_match 1 3 2, sample_match 2 4 3]"

text \<open>
  Every strategy returns on matches that lie in the normalised text, and whatever it
  writes, its verdict is that of the matches: hit exactly if there is one, counted, all of them
  listed, and the risk level is the least level (0 at least) that bounds theirs.
\<close>

theorem strategies_agree_on_verdict:
  assumes "apply_s \<in> {Detect_Apply, Replace_Apply, Highlight_Apply}" and "matches_in normalized ms"
  shows "\<exists>r. apply_s now original normalized ms = Some r \<and> fr_Original r = original \<and>
    fr_Matches r = ms \<and> fr_HitCount r = int (length ms) \<and> (fr_IsHit r \<longleftrightarrow> ms \<noteq> []) \<and>
    (\<forall>m \<in> set ms. mi_Level m \<le> fr_RiskLevel r) \<and> 0 \<le> fr_RiskLevel r \<and>
    (0 < fr_RiskLevel r \<longrightarrow> (\<exists>m \<in> set ms. mi_Level m = fr_RiskLevel r)) \<and>
    (ms = [] \<longrightarrow> fr_Filtered r = original)"
proof -
  have S: "filter_strategy apply_s"
    using assms(1) detect.filter_strategy_axioms replace.filter_strategy_axioms
      highlight.filter_strategy_axioms by auto
  obtain r where r: "apply_s now original normalized ms = Some r"
    using filter_strategy.returns [OF S assms(2)] by blast
  then show ?thesis
    using filter_strategy.verdict [OF S r] filter_strategy.level_bounds [OF S r]
      filter_strategy.clean [OF S] by (auto simp: verdict_of_def)
qed

theorem strategies_agree_on_verdict_witness:
  "\<exists>r. Highlight_Apply 5 ''abcdefghi'' ''abcdefghi'' sample_matches = Some r \<and>
    fr_HitCount r = 3 \<and> fr_IsHit r \<and> 3 \<le> fr_RiskLevel r"
proof -
  have "matches_in ''abcdefghi'' sample_matches" by code_simp
  from strategies_agree_on_verdict [OF _ this, of Highlight_Apply 5 "''abcdefghi''"]
  show ?thesis by (auto simp: sample_matches_def sample_match_def)
qed

text \<open>
  Claim C15. Replacing writes as many runes as the normalised text has: a \<open>*\<close> at every position
  that a match covers, overlapping matches included, and elsewhere the rune of the original, or
  of the normalised text when normalising changed the number of runes. It never panics, whatever
  the order and the overlaps of the matches.
\<close>

theorem replace_masks_exactly_the_matches:
  assumes "matches_in normalized ms" and "ms \<noteq> []"
  shows "\<exists>r. Replace_Apply now original normalized ms = Some r \<and>
    length (runes_of (fr_Filtered r)) = length (runes_of normalized) \<and>
    (\<forall>k < length (runes_of normalized). runes_of (fr_Filtered r) ! k =
       (if \<exists>m \<in> set ms. mi_Position m \<le> int k \<and> int k < mi_EndPos m then 0x2A
        else if length (runes_of original) = length (runes_of normalized) then runes_of original ! k
        else runes_of normalized ! k))"
proof -
  let ?out = "map (\<lambda>k. if covered ms (int k) then 0x2A else target_runes original normalized ! k)
      [0 ..< length (runes_of normalized)]"
  have pos: "\<forall>m \<in> set ms. 0 \<le> mi_Position m"
    using assms(1) by (auto simp: matches_in_def match_within_def)
  have "valid_rune (target_runes original normalized ! k)" if "k < length (runes_of normalized)" for k
    by (rule target_runes_valid [of _ original normalized]) (use that in simp)
  then have "\<forall>r \<in> set ?out. valid_rune r" by auto
  then have "runes_of (string_of ?out) = ?out" by (rule runes_of_string_of)
  then show ?thesis
    using replaceMatches_eq [OF pos assms(2), of original normalized "0x2A"]
    by (auto simp: Replace_Apply_def covered_def target_runes_def)
qed

theorem replace_masks_exactly_the_matches_witness:
  "\<exists>r. Replace_Apply 5 ''abcdefghi'' ''abcdefghi'' sample_matches = Some r \<and>
    length (runes_of (fr_Filtered r)) = 9 \<and> runes_of (fr_Filtered r) ! 3 = 0x2A \<and>
    runes_of (fr_Filtered r) ! 4 = 0x65"
proof -
  have m: "matches_in ''abcdefghi'' sample_matches" "sample_matches \<noteq> []" by code_simp+
  have n: "length (runes_of ''abcdefghi'') = 9" "runes_of ''abcdefghi'' ! 4 = 0x65" by code_simp+
  have c: "\<exists>m \<in> set sample_matches. mi_Position m \<le> int 3 \<and> int 3 < mi_EndPos m"
    "\<not> (\<exists>m \<in> set sample_matches. mi_Position m \<le> int 4 \<and> int 4 < mi_EndPos m)"
    by (simp_all add: sample_matches_def sample_match_def)
  obtain r where r: "Replace_Apply 5 ''abcdefghi'' ''abcdefghi'' sample_matches = Some r"
    "length (runes_of (fr_Filtered r)) = 9"
    "\<forall>k < 9. runes_of (fr_Filtered r) ! k =
       (if \<exists>m \<in> set sample_matches. mi_Position m \<le> int k \<and> int k < mi_EndPos m then 0x2A
        else if length (runes_of ''abcdefghi'') = length (runes_of ''abcdefghi'')
        then runes_of ''abcdefghi'' ! k else runes_of ''abcdefghi'' ! k)"
    using replace_masks_exactly_the_matches [OF m, of 5 "''abcdefghi''"] unfolding n(1) by blast
  then show ?thesis using c n(2) r(3) [rule_format, of 3] r(3) [rule_format, of 4] by auto
qed

text \<open>
  \<open>mergeIntervals\<close> computes the one list of non-empty intervals in order, with a gap
  between neighbours, that covers exactly the positions the matches cover; and it does so in
  whatever order an unstable sort leaves matches with equal positions.
\<close>

theorem mergeIntervals_canonical:
  assumes "\<forall>m \<in> set ms. mi_Position m < mi_EndPos m"
  shows "(separated ivs \<and> (\<forall>i. iv_cov ivs i \<longleftrightarrow> covered ms i) \<longleftrightarrow> ivs = mergeIntervals ms) \<and>
    (mset ms' = mset ms \<and> sorted (map mi_Position ms') \<longrightarrow> merge_sorted ms' = mergeIntervals ms)"
proof -
  note I = mergeIntervals_ok [OF assms]
  have "separated ivs \<and> (\<forall>i. iv_cov ivs i \<longleftrightarrow> covered ms i) \<longleftrightarrow> ivs = mergeIntervals ms"
    using separated_unique [OF _ I(1), of ivs] I by (auto simp: fun_eq_iff)
  then show ?thesis using merge_sorted_ties [OF _ _ assms, of ms'] by blast
qed

theorem mergeIntervals_canonical_witness:
  "mergeIntervals sample_matches = [\<lparr>iv_start = 1, iv_end = 4\<rparr>, \<lparr>iv_start = 6, iv_end = 8\<rparr>]"
proof -
  let ?ivs = "[\<lparr>iv_start = 1, iv_end = 4\<rparr>, \<lparr>iv_start = 6, iv_end = 8\<rparr>]"
  have pos: "\<forall>m \<in> set sample_matches. mi_Position m < mi_EndPos m" by code_simp
  have "separated ?ivs" by (simp add: separated_def)
  moreover have "\<forall>i. iv_cov ?ivs i \<longleftrightarrow> covered sample_matches i"
    by (auto simp: sample_matches_def sample_match_def covered_def)
  ultimately show ?thesis using conjunct1 [OF mergeIntervals_canonical [OF pos, of ?ivs]] by auto
qed



text \<open>
  A highlighted text without a match is the original, character for character: the
  escaping that protects a page is skipped there, and a tag in the text stays one.
\<close>

theorem highlight_without_match_is_not_escaped:
  "\<exists>r. Highlight_Apply now ''<b>'' normalized [] = Some r \<and> fr_Filtered r = ''<b>'' \<and>
     \<not> markup_free (fr_Filtered r)"
  by (simp add: Highlight_Apply_def highlightMatches_def markup_free_def)

end
