(* ===== verification/FilterService.thy ===== *)
theory FilterService
  imports FilterEngine Strategies MultiLevelCache
begin

text \<open>
  \<open>internal/application/service/filter_app_service.go\<close>, with the transfer objects of
  \<open>internal/application/dto/filter_dto.go\<close> and their assembler. The JSON codec \<open>sonic\<close> is a
  library and a parameter. \<open>Filter\<close> reads the engine's version first and matches later, and the
  engine may be rebuilt in between: it takes the engine as it is at each of the two moments, and
  a clock with the instants at which it reads the time. \<open>None\<close> is a panic.
\<close>

section \<open>Transfer objects\<close>

record FilterRequest =
  rq_Text :: gostring
  rq_Strategy :: gostring

record MatchDTO =
  md_Word :: gostring
  md_Position :: int
  md_EndPos :: int
  md_Category :: gostring
  md_Level :: int

record FilterResponse =
  rp_Original :: gostring
  rp_Filtered :: gostring
  rp_IsHit :: bool
  rp_HitCount :: int
  rp_Matches :: "MatchDTO list"
  rp_RiskLevel :: int
  rp_CostMs :: int

record BatchFilterRequest =
  bq_Texts :: "gostring list"
  bq_Strategy :: gostring

text \<open>A nil pointer among the results is \<open>None\<close>.\<close>

record BatchFilterResponse =
  br_Results :: "FilterResponse option list"
  br_Total :: int
  br_HitNum :: int

definition match_dto :: "MatchItem \<Rightarrow> MatchDTO" where
  "match_dto m =
     \<lparr>md_Word = mi_Word m, md_Position = mi_Position m, md_EndPos = mi_EndPos m,
      md_Category = mi_Category m, md_Level = mi_Level m\<rparr>"

definition FilterResultToDTO :: "FilterResult \<Rightarrow> FilterResponse" where
  "FilterResultToDTO res =
     \<lparr>rp_Original = fr_Original res, rp_Filtered = fr_Filtered res, rp_IsHit = fr_IsHit res,
      rp_HitCount = fr_HitCount res, rp_Matches = map match_dto (fr_Matches res),
      rp_RiskLevel = fr_RiskLevel res, rp_CostMs = fr_CostMs res\<rparr>"

section \<open>The cache key\<close>

definition filterCacheKey :: "gostring \<Rightarrow> gostring \<Rightarrow> 64 word \<Rightarrow> gostring" where
  "filterCacheKey text strat engineVersion =
     (let h = fnv64a text in
      ''filter:'' @ strat @ '':v'' @ FormatUint36 engineVersion @ '':'' @ FormatUint36 h)"

section \<open>The service\<close>

type_synonym strategy_fun = "instant \<Rightarrow> gostring \<Rightarrow> gostring \<Rightarrow> MatchItem list \<Rightarrow> FilterResult option"

record codec =
  marshal :: "FilterResponse \<Rightarrow> bytes option"
  unmarshal :: "bytes \<Rightarrow> FilterResponse option"

text \<open>\<open>fa_hits\<close> is the counter \<open>FilterHitsTotal\<close>: the labels of every increment.\<close>

record 'r FilterAppService =
  fa_engine :: ACFilterEngine
  fa_strategies :: "(FilterStrategyType, strategy_fun) gomap"
  fa_cache :: "'r MultiLevelCache option"
  fa_hits :: "(gostring \<times> bool) list"

text \<open>The map that \<open>cmd/server/main.go\<close> builds.\<close>

definition main_strategies :: "(FilterStrategyType, strategy_fun) gomap" where
  "main_strategies =
     [(StrategyDetect, Detect_Apply), (StrategyReplace, Replace_Apply),
      (StrategyHighlight, Highlight_Apply)]"

record filter_clock =
  ck_start :: instant
  ck_get :: instant
  ck_get_later :: instant
  ck_apply :: instant
  ck_cost :: instant
  ck_set :: instant
  ck_set_later :: instant

definition Milliseconds :: "duration \<Rightarrow> int" where
  "Milliseconds d = (if d < 0 then - (- d div millisecond) else d div millisecond)"

definition choose_strategy :: "gostring \<Rightarrow> FilterStrategyType" where
  "choose_strategy requested =
     (if requested \<noteq> [] then
        (let st = requested in if FilterStrategyType_IsValid st then st else StrategyDetect)
      else StrategyDetect)"

text \<open>The first half: the version, the key, and the cached answer if there is one.\<close>

definition Filter_lookup ::
  "'r redis_client \<Rightarrow> codec \<Rightarrow> filter_clock \<Rightarrow> gostring \<Rightarrow> 'r MultiLevelCache option \<Rightarrow>
   FilterResponse option \<times> 'r MultiLevelCache option" where
  "Filter_lookup client js ck cacheKey c =
     (case c of
        None \<Rightarrow> (None, None)
      | Some cache \<Rightarrow>
          (case Cache_Get client (ck_get ck) (ck_get_later ck) cacheKey cache of
             (Inl err, cache') \<Rightarrow> (None, Some cache')
           | (Inr data, cache') \<Rightarrow>
               (case unmarshal js data of
                  None \<Rightarrow> (None, Some cache')
                | Some cached \<Rightarrow>
                    (Some (cached\<lparr>rp_CostMs := Milliseconds (ck_cost ck - ck_start ck)\<rparr>),
                     Some cache'))))"

text \<open>The second half: match, apply the strategy, convert.\<close>

definition Filter_compute ::
  "unicode_data \<Rightarrow> (FilterStrategyType, strategy_fun) gomap \<Rightarrow> filter_clock \<Rightarrow> ACFilterEngine \<Rightarrow>
   FilterStrategyType \<Rightarrow> gostring \<Rightarrow> FilterResponse option" where
  "Filter_compute u strats ck e strategyType text =
     (case Match u e text of
        None \<Rightarrow> None
      | Some matchResult \<Rightarrow>
          (case (case map_of strats strategyType of
                   Some f \<Rightarrow> Some f | None \<Rightarrow> map_of strats StrategyDetect) of
             None \<Rightarrow> None
           | Some apply_f \<Rightarrow>
               (case apply_f (ck_apply ck) text (mr_NormalizedText matchResult) (mr_Matches matchResult) of
                  None \<Rightarrow> None
                | Some res \<Rightarrow>
                    Some (FilterResultToDTO
                      (res\<lparr>fr_CostMs := Milliseconds (ck_cost ck - ck_start ck)\<rparr>)))))"

text \<open>The write to the cache; its error is dropped.\<close>

definition Filter_store ::
  "'r redis_client \<Rightarrow> codec \<Rightarrow> filter_clock \<Rightarrow> gostring \<Rightarrow> FilterResponse \<Rightarrow>
   'r MultiLevelCache option \<Rightarrow> 'r MultiLevelCache option" where
  "Filter_store client js ck cacheKey resp c =
     (case c of
        None \<Rightarrow> None
      | Some cache \<Rightarrow>
          (case marshal js resp of
             None \<Rightarrow> Some cache
           | Some data \<Rightarrow>
               Some (snd (Cache_Set client (ck_set ck) (ck_set_later ck) cacheKey data cache))))"

text \<open>
  \<open>Filter\<close> with the engine as it is when the version is read, \<open>e_version\<close>, and as it is at the
  match, \<open>e_match\<close>.
\<close>

definition Filter_at ::
  "unicode_data \<Rightarrow> 'r redis_client \<Rightarrow> codec \<Rightarrow> filter_clock \<Rightarrow> ACFilterEngine \<Rightarrow> ACFilterEngine \<Rightarrow>
   'r FilterAppService \<Rightarrow> FilterRequest \<Rightarrow> (FilterResponse result \<times> 'r FilterAppService) option" where
  "Filter_at u client js ck e_version e_match s req =
     (let strategyType = choose_strategy (rq_Strategy req);
          engineVersion = Version e_version;
          cacheKey = filterCacheKey (rq_Text req) strategyType engineVersion
      in case Filter_lookup client js ck cacheKey (fa_cache s) of
           (Some cached, c1) \<Rightarrow> Some (Inr cached, s\<lparr>fa_cache := c1\<rparr>)
         | (None, c1) \<Rightarrow>
             (case Filter_compute u (fa_strategies s) ck e_match strategyType (rq_Text req) of
                None \<Rightarrow> None
              | Some resp \<Rightarrow>
                  Some (Inr resp,
                    s\<lparr>fa_cache := Filter_store client js ck cacheKey resp c1,
                      fa_hits := (strategyType, rp_IsHit resp) # fa_hits s\<rparr>)))"

definition Filter ::
  "unicode_data \<Rightarrow> 'r redis_client \<Rightarrow> codec \<Rightarrow> filter_clock \<Rightarrow> 'r FilterAppService \<Rightarrow> FilterRequest \<Rightarrow>
   (FilterResponse result \<times> 'r FilterAppService) option" where
  "Filter u client js ck s req = Filter_at u client js ck (fa_engine s) (fa_engine s) s req"

definition Service_Detect where
  "Service_Detect u client js ck s req = Filter u client js ck s (req\<lparr>rq_Strategy := StrategyDetect\<rparr>)"

definition Service_Replace where
  "Service_Replace u client js ck s req = Filter u client js ck s (req\<lparr>rq_Strategy := StrategyReplace\<rparr>)"

definition Service_Highlight where
  "Service_Highlight u client js ck s req =
     Filter u client js ck s (req\<lparr>rq_Strategy := StrategyHighlight\<rparr>)"

definition EngineWordCount :: "'r FilterAppService \<Rightarrow> int" where
  "EngineWordCount s = WordCount (fa_engine s)"

section \<open>The key determines strategy, version and hash\<close>

lemma FormatUint36_split:
  assumes "FormatUint36 a @ CHR '':'' # s = FormatUint36 b @ CHR '':'' # t"
  shows "a = b \<and> s = t"
proof -
  have "takeWhile (\<lambda>c. c \<noteq> CHR '':'') (FormatUint36 a @ CHR '':'' # s) = FormatUint36 a"
    "takeWhile (\<lambda>c. c \<noteq> CHR '':'') (FormatUint36 b @ CHR '':'' # t) = FormatUint36 b"
    using FormatUint36_no_colon by (auto simp: takeWhile_append)
  then have "FormatUint36 a = FormatUint36 b" using assms by metis
  then show ?thesis using assms FormatUint36_inj by auto
qed

lemma valid_strategy_no_colon: "FilterStrategyType_IsValid s \<Longrightarrow> CHR '':'' \<notin> set s"
  by (auto simp: FilterStrategyType_IsValid_def strategy_defs)

lemma filterCacheKey_eq_iff:
  assumes "FilterStrategyType_IsValid s" "FilterStrategyType_IsValid s'"
  shows "filterCacheKey t s v = filterCacheKey t' s' v' \<longleftrightarrow>
    s = s' \<and> v = v' \<and> fnv64a t = fnv64a t'"
proof
  assume e: "filterCacheKey t s v = filterCacheKey t' s' v'"
  then have eq: "s @ CHR '':'' # (''v'' @ FormatUint36 v @ CHR '':'' # FormatUint36 (fnv64a t)) =
      s' @ CHR '':'' # (''v'' @ FormatUint36 v' @ CHR '':'' # FormatUint36 (fnv64a t'))"
    by (simp add: filterCacheKey_def Let_def)
  have "takeWhile (\<lambda>c. c \<noteq> CHR '':'') (s @ CHR '':'' # x) = s"
    "takeWhile (\<lambda>c. c \<noteq> CHR '':'') (s' @ CHR '':'' # x) = s'" for x
    using assms valid_strategy_no_colon by (auto simp: takeWhile_append)
  then have s: "s = s'" using eq by metis
  with eq have "FormatUint36 v @ CHR '':'' # FormatUint36 (fnv64a t) =
      FormatUint36 v' @ CHR '':'' # FormatUint36 (fnv64a t')" by simp
  with FormatUint36_split [OF this] s FormatUint36_inj show "s = s' \<and> v = v' \<and> fnv64a t = fnv64a t'"
    by auto
qed (auto simp: filterCacheKey_def)

lemma choose_strategy_valid: "FilterStrategyType_IsValid (choose_strategy r)"
  by (auto simp: choose_strategy_def FilterStrategyType_IsValid_def Let_def)

end
