(* ===== verification/Freshness.thy ===== *)
theory Freshness
  imports FilterService
begin

text \<open>
  Requests, rebuilds and the shared cache together. A rebuild takes two steps under the engine's
  mutex, the store of the automaton and the increment of the version; a request takes four, the
  read of the version, the cache lookup, the match, and the write to the cache. The steps of any
  number of requests and of the rebuilds interleave freely, and the cache may be invalidated
  or lose entries between any two of them.
\<close>

section \<open>The reference answer\<close>

text \<open>What a request should get when the engine holds \<open>ws\<close>, up to the measured time.\<close>

definition reference_result ::
  "unicode_data \<Rightarrow> SensitiveWord list \<Rightarrow> FilterStrategyType \<Rightarrow> gostring \<Rightarrow> FilterResult option" where
  "reference_result u ws strat text =
     (case map_of main_strategies strat of
        None \<Rightarrow> None
      | Some f \<Rightarrow> f 0 text (Normalize u text)
          (reference_search u (rebuild_entries ws) (runes_of (Normalize u text))))"

definition answers ::
  "unicode_data \<Rightarrow> SensitiveWord list \<Rightarrow> FilterStrategyType \<Rightarrow> gostring \<Rightarrow> FilterResponse \<Rightarrow> bool" where
  "answers u ws strat text resp \<longleftrightarrow>
     (\<exists>res. reference_result u ws strat text = Some res \<and>
        resp\<lparr>rp_CostMs := 0\<rparr> = (FilterResultToDTO res)\<lparr>rp_CostMs := 0\<rparr>)"

lemma answers_cost [simp]: "answers u ws strat text (resp\<lparr>rp_CostMs := n\<rparr>) = answers u ws strat text resp"
  by (simp add: answers_def)

lemma main_strategies_cases:
  assumes "FilterStrategyType_IsValid s"
  obtains f where "map_of main_strategies s = Some f" "f \<in> {Detect_Apply, Replace_Apply, Highlight_Apply}"
  using assms by (auto simp: FilterStrategyType_IsValid_def main_strategies_def strategy_defs)

lemma strategy_clock:
  assumes "f \<in> {Detect_Apply, Replace_Apply, Highlight_Apply}"
  shows "f t original normalized ms = map_option (fr_ProcessedAt_update (\<lambda>_. t)) (f 0 original normalized ms)"
  using assms by (auto simp: Detect_Apply_def Replace_Apply_def Highlight_Apply_def split: option.splits)

lemma strategy_returns:
  assumes "f \<in> {Detect_Apply, Replace_Apply, Highlight_Apply}" "matches_in n ms"
  shows "\<exists>r. f t orig n ms = Some r"
  using assms detect.returns replace.returns highlight.returns by auto

lemma reference_matches_in: "matches_in (Normalize u text)
   (reference_search u ws (runes_of (Normalize u text)))"
  by (simp add: matches_in_def reference_search_within)

lemma Filter_compute_ok:
  assumes "engine_holds u e ws" "FilterStrategyType_IsValid s"
  shows "\<exists>resp. Filter_compute u main_strategies ck e s text = Some resp \<and> answers u ws s text resp"
proof -
  obtain f where f: "map_of main_strategies s = Some f" "f \<in> {Detect_Apply, Replace_Apply, Highlight_Apply}"
    by (rule main_strategies_cases [OF assms(2)])
  let ?n = "Normalize u text"
  let ?ms = "reference_search u (rebuild_entries ws) (runes_of ?n)"
  obtain r where r: "f 0 text ?n ?ms = Some r"
    using strategy_returns [OF f(2) reference_matches_in] by blast
  then have "f (ck_apply ck) text ?n ?ms = Some (r\<lparr>fr_ProcessedAt := ck_apply ck\<rparr>)"
    using strategy_clock [OF f(2), of "ck_apply ck"] by simp
  moreover have "Match u e text = Some (engine_verdict u ws text)"
    by (rule eng.lookup_holds [OF assms(1)])
  ultimately show ?thesis
    using f(1) r
    by (simp add: Filter_compute_def engine_verdict_def answers_def reference_result_def
        FilterResultToDTO_def)
qed

section \<open>The steps\<close>

datatype request =
    Arrived gostring FilterStrategyType "64 word" nat
  | Missed gostring FilterStrategyType "64 word" nat
  | Computed gostring FilterStrategyType "64 word" nat FilterResponse

text \<open>
  \<open>w_lists\<close> are the word lists stored so far, \<open>w_done\<close> counts the rebuilds that are complete,
  \<open>w_asked\<close> the texts of the requests and \<open>w_answered\<close> the answers, each with the number of
  rebuilds complete when its request arrived; they are not part of the program's state.
\<close>

record 'r world =
  w_engine :: ACFilterEngine
  w_mid :: bool
  w_cache :: "'r MultiLevelCache option"
  w_flight :: "request list"
  w_lists :: "SensitiveWord list list"
  w_done :: nat
  w_asked :: "gostring list"
  w_answered :: "(gostring \<times> FilterStrategyType \<times> nat \<times> FilterResponse) list"

inductive world_step ::
  "unicode_data \<Rightarrow> 'r redis_client \<Rightarrow> codec \<Rightarrow> 'r world \<Rightarrow> 'r world \<Rightarrow> bool"
  for u client js where
  store: "\<not> w_mid w \<Longrightarrow> \<forall>a. iteration_order (ord a) \<Longrightarrow>
    NewAhoCorasick u ord (rebuild_entries ws) = Some ac \<Longrightarrow>
    world_step u client js w (w\<lparr>w_engine := Rebuild_store ac (w_engine w), w_mid := True,
      w_lists := w_lists w @ [ws]\<rparr>)"
| bump: "w_mid w \<Longrightarrow>
    world_step u client js w (w\<lparr>w_engine := Rebuild_bump (w_engine w), w_mid := False,
      w_done := Suc (w_done w)\<rparr>)"
| arrive: "world_step u client js w (w\<lparr>
      w_flight := Arrived text (choose_strategy requested) (Version (w_engine w)) (w_done w) # w_flight w,
      w_asked := text # w_asked w\<rparr>)"
| hit: "Arrived text s v n \<in> set (w_flight w) \<Longrightarrow>
    Filter_lookup client js ck (filterCacheKey text s v) (w_cache w) = (Some resp, c) \<Longrightarrow>
    world_step u client js w (w\<lparr>w_cache := c, w_flight := remove1 (Arrived text s v n) (w_flight w),
      w_answered := (text, s, n, resp) # w_answered w\<rparr>)"
| miss: "Arrived text s v n \<in> set (w_flight w) \<Longrightarrow>
    Filter_lookup client js ck (filterCacheKey text s v) (w_cache w) = (None, c) \<Longrightarrow>
    world_step u client js w (w\<lparr>w_cache := c,
      w_flight := Missed text s v n # remove1 (Arrived text s v n) (w_flight w)\<rparr>)"
| compute: "Missed text s v n \<in> set (w_flight w) \<Longrightarrow>
    Filter_compute u main_strategies ck (w_engine w) s text = Some resp \<Longrightarrow>
    world_step u client js w (w\<lparr>
      w_flight := Computed text s v n resp # remove1 (Missed text s v n) (w_flight w)\<rparr>)"
| put: "Computed text s v n resp \<in> set (w_flight w) \<Longrightarrow>
    world_step u client js w (w\<lparr>
      w_cache := Filter_store client js ck (filterCacheKey text s v) resp (w_cache w),
      w_flight := remove1 (Computed text s v n resp) (w_flight w),
      w_answered := (text, s, n, resp) # w_answered w\<rparr>)"
| invalidate: "w_cache w = Some c \<Longrightarrow> iteration_order ord \<Longrightarrow>
    InvalidateByPrefix client ord now later p c = Some (e, c') \<Longrightarrow>
    world_step u client js w (w\<lparr>w_cache := Some c'\<rparr>)"
| tick: "w_cache w = Some c \<Longrightarrow> iteration_order ord \<Longrightarrow>
    world_step u client js w (w\<lparr>w_cache := Some (c\<lparr>ml_local := evictExpired ord now (ml_local c)\<rparr>)\<rparr>)"

definition initial_world :: "ACFilterEngine \<Rightarrow> 'r MultiLevelCache option \<Rightarrow> 'r world" where
  "initial_world e c =
     \<lparr>w_engine = e, w_mid = False, w_cache = c, w_flight = [], w_lists = [[]], w_done = 0,
      w_asked = [], w_answered = []\<rparr>"

section \<open>The invariant\<close>

text \<open>
  A response answers its text, or one asked before with the same hash, by a word list that was
  stored no earlier than the last rebuild complete when its request came.
\<close>

definition fresh_since ::
  "unicode_data \<Rightarrow> 'r world \<Rightarrow> nat \<Rightarrow> FilterStrategyType \<Rightarrow> gostring \<Rightarrow> FilterResponse \<Rightarrow> bool" where
  "fresh_since u w n s text resp \<longleftrightarrow>
     (\<exists>t g. t \<in> set (w_asked w) \<and> fnv64a t = fnv64a text \<and> n \<le> g \<and> g < length (w_lists w) \<and>
        answers u (w_lists w ! g) s t resp)"

definition entry_ok :: "unicode_data \<Rightarrow> codec \<Rightarrow> 'r world \<Rightarrow> gostring \<Rightarrow> bytes \<Rightarrow> bool" where
  "entry_ok u js w k data \<longleftrightarrow>
     (\<exists>t s n resp. k = filterCacheKey t s (of_nat n) \<and> n \<le> w_done w \<and>
        FilterStrategyType_IsValid s \<and> unmarshal js data = Some resp \<and> fresh_since u w n s t resp)"

definition engine_ok :: "unicode_data \<Rightarrow> 'r world \<Rightarrow> bool" where
  "engine_ok u w \<longleftrightarrow> w_lists w \<noteq> [] \<and> engine_holds u (w_engine w) (last (w_lists w)) \<and>
     Version (w_engine w) = of_nat (w_done w) \<and>
     length (w_lists w) = Suc (w_done w) + (if w_mid w then 1 else 0)"

text \<open>A cache in which every entry satisfies \<open>K\<close>.\<close>

definition cache_within ::
  "'r redis_client \<Rightarrow> ('r \<Rightarrow> gostring \<Rightarrow> bytes \<Rightarrow> bool) \<Rightarrow> (gostring \<Rightarrow> bytes \<Rightarrow> bool) \<Rightarrow>
   'r MultiLevelCache option \<Rightarrow> bool" where
  "cache_within client stored K cache \<longleftrightarrow>
     (\<forall>c. cache = Some c \<longrightarrow> ml_inv client stored c \<and> (\<forall>k data. ml_holds stored c k data \<longrightarrow> K k data))"

definition cache_ok ::
  "unicode_data \<Rightarrow> 'r redis_client \<Rightarrow> codec \<Rightarrow> ('r \<Rightarrow> gostring \<Rightarrow> bytes \<Rightarrow> bool) \<Rightarrow> 'r world \<Rightarrow> bool" where
  "cache_ok u client js stored w \<longleftrightarrow> cache_within client stored (entry_ok u js w) (w_cache w)"

fun request_ok :: "unicode_data \<Rightarrow> 'r world \<Rightarrow> request \<Rightarrow> bool" where
  "request_ok u w (Arrived text s v n) \<longleftrightarrow>
     v = of_nat n \<and> n \<le> w_done w \<and> FilterStrategyType_IsValid s \<and> text \<in> set (w_asked w)"
| "request_ok u w (Missed text s v n) \<longleftrightarrow>
     v = of_nat n \<and> n \<le> w_done w \<and> FilterStrategyType_IsValid s \<and> text \<in> set (w_asked w)"
| "request_ok u w (Computed text s v n resp) \<longleftrightarrow>
     v = of_nat n \<and> n \<le> w_done w \<and> FilterStrategyType_IsValid s \<and> fresh_since u w n s text resp"

definition answers_ok :: "unicode_data \<Rightarrow> 'r world \<Rightarrow> bool" where
  "answers_ok u w \<longleftrightarrow> (\<forall>(text, s, n, resp) \<in> set (w_answered w). fresh_since u w n s text resp)"

definition world_inv ::
  "unicode_data \<Rightarrow> 'r redis_client \<Rightarrow> codec \<Rightarrow> ('r \<Rightarrow> gostring \<Rightarrow> bytes \<Rightarrow> bool) \<Rightarrow> 'r world \<Rightarrow> bool" where
  "world_inv u client js stored w \<longleftrightarrow>
     engine_ok u w \<and> cache_ok u client js stored w \<and> (\<forall>r \<in> set (w_flight w). request_ok u w r) \<and>
     answers_ok u w"

text \<open>What is known of responses only grows.\<close>

definition extends :: "'r world \<Rightarrow> 'r world \<Rightarrow> bool" where
  "extends w w' \<longleftrightarrow> set (w_asked w) \<subseteq> set (w_asked w') \<and> w_done w \<le> w_done w' \<and>
     (\<exists>more. w_lists w' = w_lists w @ more)"

lemma fresh_since_extends:
  "extends w w' \<Longrightarrow> fresh_since u w n s t resp \<Longrightarrow> fresh_since u w' n s t resp"
  unfolding fresh_since_def extends_def
  by (metis (no_types, lifting) subsetD length_append nth_append trans_less_add1)

lemma entry_ok_extends: "extends w w' \<Longrightarrow> entry_ok u js w k d \<Longrightarrow> entry_ok u js w' k d"
  unfolding entry_ok_def using fresh_since_extends extends_def by (metis order_trans)

lemma request_ok_extends: "extends w w' \<Longrightarrow> request_ok u w r \<Longrightarrow> request_ok u w' r"
  using fresh_since_extends [of w w'] by (cases r) (auto simp: extends_def)

text \<open>The version of a key is the number of rebuilds as long as that fits in 64 bits.\<close>

lemma entry_ok_key:
  assumes "entry_ok u js w (filterCacheKey text s (of_nat n)) data" "unmarshal js data = Some resp"
    and "FilterStrategyType_IsValid s" "n < 2 ^ 64" "w_done w < 2 ^ 64"
  shows "fresh_since u w n s text resp"
proof -
  obtain t s' m where e: "filterCacheKey text s (of_nat n) = filterCacheKey t s' (of_nat m)"
    "m \<le> w_done w" "FilterStrategyType_IsValid s'" "fresh_since u w m s' t resp"
    using assms(1,2) by (auto simp: entry_ok_def)
  then have k: "s = s'" "(of_nat n :: 64 word) = of_nat m" "fnv64a text = fnv64a t"
    using filterCacheKey_eq_iff [OF assms(3)] by blast+
  have "unat (of_nat n :: 64 word) = n" "unat (of_nat m :: 64 word) = m"
    using e(2) assms(4,5) by (simp_all add: unat_of_nat)
  with k(2) have "n = m" by metis
  then have "fresh_since u w n s t resp" using e(4) k(1) by metis
  then show ?thesis unfolding fresh_since_def k(3) .
qed

lemma lookup_within:
  assumes "cache_within client stored K cache" "Filter_lookup client js ck k cache = (res, c)"
  shows "cache_within client stored K c"
    and "res = Some resp \<Longrightarrow> \<exists>data r cost. K k data \<and> unmarshal js data = Some r \<and> resp = r\<lparr>rp_CostMs := cost\<rparr>"
proof -
  have "cache_within client stored K c \<and> (\<forall>resp. res = Some resp \<longrightarrow>
      (\<exists>data r cost. K k data \<and> unmarshal js data = Some r \<and> resp = r\<lparr>rp_CostMs := cost\<rparr>))"
  proof (cases cache)
    case None
    with assms show ?thesis by (auto simp: Filter_lookup_def)
  next
    case (Some c0)
    obtain x c1 where g: "Cache_Get client (ck_get ck) (ck_get_later ck) k c0 = (x, c1)" by force
    have i: "ml_inv client stored c0" and h: "\<forall>k data. ml_holds stored c0 k data \<longrightarrow> K k data"
      using assms(1) Some by (simp_all add: cache_within_def)
    note G = Cache_Get_ok [OF i g]
    have c: "c = Some c1" using assms(2) Some g by (auto simp: Filter_lookup_def split: sum.splits option.splits)
    have "cache_within client stored K c" unfolding cache_within_def c using G(1,3) h by auto
    moreover have "\<exists>data r cost. K k data \<and> unmarshal js data = Some r \<and> resp = r\<lparr>rp_CostMs := cost\<rparr>"
      if r: "res = Some resp" for resp
    proof -
      obtain data r where d: "x = Inr data" "unmarshal js data = Some r"
        "resp = r\<lparr>rp_CostMs := Milliseconds (ck_cost ck - ck_start ck)\<rparr>"
        using assms(2) Some g r by (auto simp: Filter_lookup_def split: sum.splits option.splits)
      with G(2) h show ?thesis by blast
    qed
    ultimately show ?thesis by blast
  qed
  then show "cache_within client stored K c"
    and "res = Some resp \<Longrightarrow> \<exists>data r cost. K k data \<and> unmarshal js data = Some r \<and> resp = r\<lparr>rp_CostMs := cost\<rparr>"
    by blast+
qed

lemma store_within:
  assumes "cache_within client stored K cache" "\<And>data. marshal js resp = Some data \<Longrightarrow> K k data"
  shows "cache_within client stored K (Filter_store client js ck k resp cache)"
proof (cases "\<exists>c0 data. cache = Some c0 \<and> marshal js resp = Some data")
  case False
  then have "Filter_store client js ck k resp cache = cache" by (auto simp: Filter_store_def split: option.splits)
  with assms(1) show ?thesis by simp
next
  case True
  then obtain c0 data where m: "cache = Some c0" "marshal js resp = Some data" by blast
  let ?s = "Cache_Set client (ck_set ck) (ck_set_later ck) k data c0"
  have i: "ml_inv client stored c0" and h: "\<forall>k data. ml_holds stored c0 k data \<longrightarrow> K k data"
    using assms(1) m by (simp_all add: cache_within_def)
  note S = Cache_Set_ok [OF i prod.collapse [symmetric], of "ck_set ck" "ck_set_later ck" k data]
  have "Filter_store client js ck k resp cache = Some (snd ?s)" using m by (simp add: Filter_store_def)
  then show ?thesis unfolding cache_within_def using S h assms(2) [OF m(2)] by auto
qed

lemma shrink_within:
  assumes "cache_within client stored K (Some c)"
    and "ml_inv client stored c \<Longrightarrow> ml_inv client stored c'"
    and "\<And>k v. ml_inv client stored c \<Longrightarrow> ml_holds stored c' k v \<Longrightarrow> ml_holds stored c k v"
  shows "cache_within client stored K (Some c')"
  using assms by (auto simp: cache_within_def)

lemma cache_within_mono:
  "cache_within client stored K cache \<Longrightarrow> (\<And>k d. K k d \<Longrightarrow> K' k d) \<Longrightarrow> cache_within client stored K' cache"
  by (auto simp: cache_within_def)

lemma ml_InvalidateByPrefix_ok:
  assumes "ml_inv client stored c" "iteration_order ord"
    and "InvalidateByPrefix client ord now later p c = Some (e, c')"
  shows "ml_inv client stored c'" "ml_holds stored c' k v \<Longrightarrow> ml_holds stored c k v"
proof -
  have F: "redis_faithful client stored" and L: "local_inv (ml_local c)"
    using assms(1) by (simp_all add: ml_inv_def)
  have l: "ml_local c' = Local_DeleteByPrefix ord p (ml_local c)"
    and r: "ml_redis c' = ml_redis c \<or>
      (\<exists>x. Redis_DeleteByPrefix client p (ml_redis c) = Some (x, ml_redis c'))"
    using assms(3)
    by (auto simp: InvalidateByPrefix_def Let_def split: prod.splits option.splits if_splits)
  from r have "stored (ml_redis c') k v \<Longrightarrow> stored (ml_redis c) k v"
    using Redis_scan_loop_stored [OF F] by (fastforce simp: Redis_DeleteByPrefix_def)
  then show "ml_holds stored c' k v \<Longrightarrow> ml_holds stored c k v"
    by (auto simp: ml_holds_def l entry_DeleteByPrefix [OF L assms(2)] split: if_splits)
  show "ml_inv client stored c'" using F L l assms(2) by (simp add: ml_inv_def inv_intros)
qed

lemma ml_tick_ok:
  assumes "ml_inv client stored c" "iteration_order ord"
  shows "ml_inv client stored (c\<lparr>ml_local := evictExpired ord now (ml_local c)\<rparr>)"
    "ml_holds stored (c\<lparr>ml_local := evictExpired ord now (ml_local c)\<rparr>) k v \<Longrightarrow> ml_holds stored c k v"
proof -
  have L: "local_inv (ml_local c)" using assms(1) by (simp add: ml_inv_def)
  show "ml_inv client stored (c\<lparr>ml_local := evictExpired ord now (ml_local c)\<rparr>)"
    using assms by (simp add: ml_inv_def inv_intros)
  show "ml_holds stored (c\<lparr>ml_local := evictExpired ord now (ml_local c)\<rparr>) k v \<Longrightarrow> ml_holds stored c k v"
    using entry_evictExpired [OF L assms(2), of now k] by (auto simp: ml_holds_def)
qed

section \<open>Every step preserves the invariant\<close>

definition codec_ok :: "codec \<Rightarrow> bool" where
  "codec_ok js \<longleftrightarrow> (\<forall>r d. marshal js r = Some d \<longrightarrow> unmarshal js d = Some r)"

lemma world_step_extends: "world_step u client js w w' \<Longrightarrow> extends w w'"
  by (induction rule: world_step.induct) (auto simp: extends_def)

lemma engine_ok_same:
  "engine_ok u w \<Longrightarrow> w_engine w' = w_engine w \<Longrightarrow> w_lists w' = w_lists w \<Longrightarrow> w_done w' = w_done w \<Longrightarrow>
   w_mid w' = w_mid w \<Longrightarrow> engine_ok u w'"
  by (simp add: engine_ok_def)

lemma remove1_subset_insert: "set (x # remove1 y xs) \<subseteq> insert x (set xs)"
  using set_remove1_subset by fastforce

lemma compute_fresh:
  assumes "engine_ok u w" "request_ok u w (Missed tx s v n)"
    and "Filter_compute u main_strategies ck (w_engine w) s tx = Some resp"
  shows "fresh_since u w n s tx resp"
proof -
  let ?g = "length (w_lists w) - 1"
  have h: "engine_holds u (w_engine w) (last (w_lists w))" "w_lists w \<noteq> []"
    "length (w_lists w) = Suc (w_done w) + (if w_mid w then 1 else 0)"
    using assms(1) by (simp_all add: engine_ok_def)
  have r: "n \<le> w_done w" "FilterStrategyType_IsValid s" "tx \<in> set (w_asked w)"
    using assms(2) by simp_all
  have "answers u (last (w_lists w)) s tx resp"
    using Filter_compute_ok [OF h(1) r(2), of ck tx] assms(3) by simp
  moreover have "last (w_lists w) = w_lists w ! ?g" using h(2) by (rule last_conv_nth)
  moreover have "n \<le> ?g" "?g < length (w_lists w)" using h(3) r(1) by (auto split: if_splits)
  ultimately show ?thesis using r(3) unfolding fresh_since_def by metis
qed

text \<open>
  One step, for a cache whose entries satisfy \<open>K\<close> and answers that satisfy \<open>F\<close>, where \<open>K\<close> and \<open>F\<close> hold at least of
  what this service stores and computes. The cache may hold entries of other services.
\<close>

definition world_within ::
  "unicode_data \<Rightarrow> 'r redis_client \<Rightarrow> ('r \<Rightarrow> gostring \<Rightarrow> bytes \<Rightarrow> bool) \<Rightarrow> (gostring \<Rightarrow> bytes \<Rightarrow> bool) \<Rightarrow>
   (nat \<Rightarrow> FilterStrategyType \<Rightarrow> gostring \<Rightarrow> FilterResponse \<Rightarrow> bool) \<Rightarrow> 'r world \<Rightarrow> bool" where
  "world_within u client stored K F w \<longleftrightarrow>
     engine_ok u w \<and> cache_within client stored K (w_cache w) \<and> (\<forall>r \<in> set (w_flight w). request_ok u w r) \<and>
     (\<forall>(text, s, n, resp) \<in> set (w_answered w). F n s text resp)"

lemma world_inv_within: "world_inv u client js stored w \<longleftrightarrow> world_within u client stored (entry_ok u js w) (fresh_since u w) w"
  by (simp add: world_inv_def world_within_def cache_ok_def answers_ok_def)

lemma flight_ok:
  assumes "\<forall>r \<in> set (w_flight w). request_ok u w r" "extends w w'"
    and "set (w_flight w') \<subseteq> insert r (set (w_flight w))" "request_ok u w' r"
  shows "\<forall>r \<in> set (w_flight w'). request_ok u w' r"
  using assms request_ok_extends by blast

lemma world_step_within:
  assumes "world_step u client js w w'" "world_within u client stored K F w" "codec_ok js" "w_done w' < 2 ^ 64"
    and mine: "\<And>k d. entry_ok u js w' k d \<Longrightarrow> K k d" "\<And>n s t resp. fresh_since u w' n s t resp \<Longrightarrow> F n s t resp"
    and found: "\<And>n s t data resp c. K (filterCacheKey t s (of_nat n)) data \<Longrightarrow> unmarshal js data = Some resp \<Longrightarrow>
      FilterStrategyType_IsValid s \<Longrightarrow> n < 2 ^ 64 \<Longrightarrow> F n s t (resp\<lparr>rp_CostMs := c\<rparr>)"
  shows "world_within u client stored K F w'"
proof -
  note E = world_step_extends [OF assms(1)]
  have I: "engine_ok u w" "cache_within client stored K (w_cache w)"
    "\<forall>r \<in> set (w_flight w). request_ok u w r" "\<forall>(text, s, n, resp) \<in> set (w_answered w). F n s text resp"
    using assms(2) by (simp_all add: world_within_def)
  have all: "world_within u client stored K F w'"
    if "engine_ok u w'" "cache_within client stored K (w_cache w')" "set (w_flight w') \<subseteq> insert r (set (w_flight w))"
      "request_ok u w' r" "\<forall>(text, s, n, resp) \<in> set (w_answered w'). F n s text resp" for r
    using that flight_ok [OF I(3) E that(3,4)] by (simp add: world_within_def)
  have same: "world_within u client stored K F w'"
    if "engine_ok u w'" "cache_within client stored K (w_cache w')" "set (w_flight w') \<subseteq> set (w_flight w)"
      "\<forall>(text, s, n, resp) \<in> set (w_answered w'). F n s text resp"
    using that I(3) request_ok_extends [OF E] by (auto simp: world_within_def)
  from assms(1) show ?thesis
  proof (cases rule: world_step.cases)
    case (store ord ws ac)
    have "engine_ok u w'"
      using I(1) store NewAhoCorasick_ok [OF store(3), of u "rebuild_entries ws"]
      by (auto simp: engine_ok_def engine_holds_def Rebuild_store_def Version_def)
    then show ?thesis by (rule same) (use store(1) I in simp_all)
  next
    case bump
    have "engine_ok u w'"
      using I(1) bump by (auto simp: engine_ok_def engine_holds_def Rebuild_bump_def Version_def)
    then show ?thesis by (rule same) (use bump(1) I in simp_all)
  next
    case (arrive tx requested)
    have "request_ok u w' (Arrived tx (choose_strategy requested) (Version (w_engine w)) (w_done w))"
      using I(1) arrive by (simp add: engine_ok_def choose_strategy_valid)
    moreover have "engine_ok u w'" by (rule engine_ok_same [OF I(1)]) (simp_all add: arrive)
    ultimately show ?thesis by (intro all) (use arrive I in auto)
  next
    case (hit tx s v n ck resp c)
    have r: "request_ok u w (Arrived tx s v n)" using I(3) hit(2) by blast
    note C = lookup_within [OF I(2) hit(3)]
    obtain data r' cost where d: "K (filterCacheKey tx s v) data" "unmarshal js data = Some r'"
      "resp = r'\<lparr>rp_CostMs := cost\<rparr>" using C(2) by auto
    have "n < 2 ^ 64" using r E assms(4) by (auto simp: extends_def)
    with found [of tx s n data r' cost] d r have f: "F n s tx resp" by simp
    have en: "engine_ok u w'" by (rule engine_ok_same [OF I(1)]) (simp_all add: hit(1))
    show ?thesis by (rule same [OF en])
      (use hit(1) C(1) f I(4) set_remove1_subset [of "Arrived tx s v n" "w_flight w"] in auto)
  next
    case (miss tx s v n ck c)
    have r: "request_ok u w (Arrived tx s v n)" using I(3) miss(2) by blast
    then have r': "request_ok u w' (Missed tx s v n)"
      using request_ok_extends [OF E, of u "Missed tx s v n"] by simp
    have sub: "set (w_flight w') \<subseteq> insert (Missed tx s v n) (set (w_flight w))"
      using miss(1) remove1_subset_insert by simp
    have en: "engine_ok u w'" by (rule engine_ok_same [OF I(1)]) (simp_all add: miss(1))
    show ?thesis by (rule all [OF en _ sub r']) (use miss(1) lookup_within(1) [OF I(2) miss(3)] I(4) in simp_all)
  next
    case (compute tx s v n ck resp)
    have r: "request_ok u w (Missed tx s v n)" using I(3) compute(2) by blast
    have "request_ok u w (Computed tx s v n resp)"
      using r compute_fresh [OF I(1) r compute(3)] by simp
    note r' = request_ok_extends [OF E this]
    have sub: "set (w_flight w') \<subseteq> insert (Computed tx s v n resp) (set (w_flight w))"
      using compute(1) remove1_subset_insert by simp
    have en: "engine_ok u w'" by (rule engine_ok_same [OF I(1)]) (simp_all add: compute(1))
    show ?thesis by (rule all [OF en _ sub r']) (use compute(1) I(2,4) in simp_all)
  next
    case (put tx s v n resp ck)
    have r: "request_ok u w' (Computed tx s v n resp)" using I(3) put(2) request_ok_extends [OF E] by blast
    have new: "K (filterCacheKey tx s v) data" if "marshal js resp = Some data" for data
      using r that assms(3) unfolding codec_ok_def by (intro mine(1)) (auto simp: entry_ok_def)
    have ca: "cache_within client stored K (w_cache w')"
      using store_within [OF I(2), of js resp "filterCacheKey tx s v" ck] new put(1) by simp
    have f: "F n s tx resp" using r by (intro mine(2)) simp
    have en: "engine_ok u w'" by (rule engine_ok_same [OF I(1)]) (simp_all add: put(1))
    show ?thesis by (rule same [OF en ca])
      (use put(1) f I(4) set_remove1_subset [of "Computed tx s v n resp" "w_flight w"] in auto)
  next
    case (invalidate c ord now later p e c')
    have ca: "cache_within client stored K (w_cache w')"
    proof -
      have "cache_within client stored K (Some c)" using I(2) invalidate(2) by simp
      from shrink_within [OF this ml_InvalidateByPrefix_ok [OF _ invalidate(3,4)]] show ?thesis by (simp add: invalidate(1))
    qed
    have en: "engine_ok u w'" by (rule engine_ok_same [OF I(1)]) (simp_all add: invalidate(1))
    show ?thesis by (rule same [OF en ca]) (use invalidate(1) I(4) in simp_all)
  next
    case (tick c ord now)
    have ca: "cache_within client stored K (w_cache w')"
    proof -
      have "cache_within client stored K (Some c)" using I(2) tick(2) by simp
      from shrink_within [OF this ml_tick_ok [OF _ tick(3)]] show ?thesis by (simp add: tick(1))
    qed
    have en: "engine_ok u w'" by (rule engine_ok_same [OF I(1)]) (simp_all add: tick(1))
    show ?thesis by (rule same [OF en ca]) (use tick(1) I(4) in simp_all)
  qed
qed

lemma fresh_since_cost [simp]: "fresh_since u w n s t (resp\<lparr>rp_CostMs := c\<rparr>) = fresh_since u w n s t resp"
  by (simp add: fresh_since_def)

lemma world_step_inv:
  assumes "world_step u client js w w'" "world_inv u client js stored w" "codec_ok js" "w_done w' < 2 ^ 64"
  shows "world_inv u client js stored w'"
proof -
  note E = world_step_extends [OF assms(1)]
  have "world_within u client stored (entry_ok u js w') (fresh_since u w') w"
    using assms(2) entry_ok_extends [OF E] fresh_since_extends [OF E]
    by (auto simp: world_inv_within world_within_def intro: cache_within_mono)
  then show ?thesis unfolding world_inv_within
    by (rule world_step_within [OF assms(1) _ assms(3,4)]) (use entry_ok_key assms(4) in auto)
qed

section \<open>What answers are\<close>

lemma answers_valid: "answers u ws s tx resp \<Longrightarrow> FilterStrategyType_IsValid s"
  by (auto simp: answers_def reference_result_def main_strategies_def FilterStrategyType_IsValid_def
      split: option.splits if_splits)

lemma answers_verdict:
  assumes "answers u ws s tx resp"
  shows "rp_Original resp = tx \<and> (rp_IsHit resp \<longleftrightarrow>
    (\<exists>w \<in> set ws. IsActive w \<and> (\<exists>pos. occurs_at (word_pattern u w) (runes_of (Normalize u tx)) pos)))"
proof -
  obtain f where f: "map_of main_strategies s = Some f" "f \<in> {Detect_Apply, Replace_Apply, Highlight_Apply}"
    by (rule main_strategies_cases [OF answers_valid [OF assms]])
  let ?ms = "reference_search u (rebuild_entries ws) (runes_of (Normalize u tx))"
  obtain res where r: "f 0 tx (Normalize u tx) ?ms = Some res"
    "resp\<lparr>rp_CostMs := 0\<rparr> = (FilterResultToDTO res)\<lparr>rp_CostMs := 0\<rparr>"
    using assms f(1) by (auto simp: answers_def reference_result_def)
  have "verdict_of tx ?ms res"
    using f(2) r(1) detect.verdict replace.verdict highlight.verdict by blast
  then have "fr_Original res = tx" "fr_IsHit res \<longleftrightarrow> mr_Matches (engine_verdict u ws tx) \<noteq> []"
    by (simp_all add: verdict_of_def engine_verdict_def)
  moreover have "rp_Original resp = rp_Original (FilterResultToDTO res)"
    "rp_IsHit resp = rp_IsHit (FilterResultToDTO res)"
    using arg_cong [OF r(2), of rp_Original] arg_cong [OF r(2), of rp_IsHit] by simp_all
  ultimately show ?thesis using verdict_hit_iff [of u ws tx] by (simp add: FilterResultToDTO_def)
qed

lemma world_steps_done: "(world_step u client js)\<^sup>*\<^sup>* w w' \<Longrightarrow> w_done w \<le> w_done w'"
proof (induction rule: rtranclp_induct)
  case (step w1 w2)
  then show ?case using world_step_extends [OF step.hyps(2)] by (simp add: extends_def)
qed simp

lemma world_steps_inv:
  assumes "(world_step u client js)\<^sup>*\<^sup>* w0 w" "world_inv u client js stored w0" "codec_ok js"
  shows "w_done w < 2 ^ 64 \<Longrightarrow> world_inv u client js stored w"
  using assms(1)
proof (induction rule: rtranclp_induct)
  case base
  show ?case by (rule assms(2))
next
  case (step w1 w2)
  have "w_done w1 \<le> w_done w2" using world_step_extends [OF step.hyps(2)] by (simp add: extends_def)
  then have "world_inv u client js stored w1" using step.IH step.prems by linarith
  from world_step_inv [OF step.hyps(2) this assms(3) step.prems] show ?case .
qed

lemma initial_world_inv:
  assumes "\<forall>a. iteration_order (ord a)" "NewACFilterEngine u ord = Some e"
    and "redis_faithful client stored"
    and "\<forall>c. cache = Some c \<longrightarrow> local_inv (ml_local c) \<and> (\<forall>k v. \<not> ml_holds stored c k v)"
  shows "world_inv u client js stored (initial_world e cache)"
proof -
  obtain ac where "NewAhoCorasick u ord [] = Some ac" "e = \<lparr>current = ac, version = 0\<rparr>"
    using assms(2) by (auto simp: NewACFilterEngine_def split: option.splits)
  then have "engine_ok u (initial_world e cache)"
    using NewAhoCorasick_ok [OF assms(1), of u "[]"]
    by (auto simp: engine_ok_def initial_world_def engine_holds_def Version_def)
  with assms(3,4) show ?thesis
    by (auto simp: world_inv_def initial_world_def cache_ok_def cache_within_def answers_ok_def ml_inv_def)
qed

section \<open>Properties\<close>


definition silent_codec :: codec where
  "silent_codec = \<lparr>marshal = (\<lambda>_. None), unmarshal = (\<lambda>_. None)\<rparr>"

lemma sample_run:
  "\<exists>e w resp. NewACFilterEngine ascii_data (\<lambda>_ xs. xs) = Some e \<and>
     (world_step ascii_data map_client silent_codec)\<^sup>*\<^sup>* (initial_world e None) w \<and> w_done w = 1 \<and>
     w_lists w = [[], [sample_word ''bad'' WordStatusActive]] \<and> w_asked w = [''a BAD text''] \<and>
     w_answered w = [(''a BAD text'', StrategyDetect, 1, resp)]"
proof -
  let ?st = "world_step ascii_data map_client silent_codec"
  let ?ws = "[sample_word ''bad'' WordStatusActive]"
  have o: "\<forall>a. iteration_order ((\<lambda>(_::addr) xs. xs) a)" by simp
  obtain e where e: "NewACFilterEngine ascii_data (\<lambda>_ xs. xs) = Some e"
    using acm.build_total [OF o, of ascii_data "[]"] by (auto simp: NewACFilterEngine_def)
  obtain ac where ac: "NewAhoCorasick ascii_data (\<lambda>_ xs. xs) (rebuild_entries ?ws) = Some ac"
    using acm.build_total [OF o] by blast
  define e2 where "e2 = Rebuild_bump (Rebuild_store ac e)"
  have h: "engine_holds ascii_data e2 ?ws"
    using NewAhoCorasick_ok [OF o, of ascii_data "rebuild_entries ?ws"] ac
    by (simp add: e2_def engine_holds_def Rebuild_bump_def Rebuild_store_def)
  have d: "choose_strategy ''detect'' = StrategyDetect" by code_simp
  have v: "FilterStrategyType_IsValid StrategyDetect" by code_simp
  let ?ck = "\<lparr>ck_start = 0, ck_get = 0, ck_get_later = 0, ck_apply = 0, ck_cost = 0, ck_set = 0,
    ck_set_later = 0\<rparr>"
  obtain resp where resp: "Filter_compute ascii_data main_strategies ?ck e2 StrategyDetect ''a BAD text'' = Some resp"
    using Filter_compute_ok [OF h v] by blast
  let ?w = "\<lambda>en m fl ls dn as an. \<lparr>w_engine = en, w_mid = m, w_cache = None, w_flight = fl,
    w_lists = ls, w_done = dn, w_asked = as, w_answered = an\<rparr>"
  let ?x = "''a BAD text''" and ?s = StrategyDetect and ?v = "Version e2"
  have 1: "?st (?w e False [] [[]] 0 [] []) (?w (Rebuild_store ac e) True [] [[], ?ws] 0 [] [])"
    using world_step.store [OF _ o ac, of "?w e False [] [[]] 0 [] []"] by simp
  have 2: "?st (?w (Rebuild_store ac e) True [] [[], ?ws] 0 [] []) (?w e2 False [] [[], ?ws] 1 [] [])"
    using world_step.bump [of "?w (Rebuild_store ac e) True [] [[], ?ws] 0 [] []"] by (simp add: e2_def)
  have 3: "?st (?w e2 False [] [[], ?ws] 1 [] []) (?w e2 False [Arrived ?x ?s ?v 1] [[], ?ws] 1 [?x] [])"
    using world_step.arrive [of _ _ _ "?w e2 False [] [[], ?ws] 1 [] []" ?x "''detect''"] d by simp
  have 4: "?st (?w e2 False [Arrived ?x ?s ?v 1] [[], ?ws] 1 [?x] [])
      (?w e2 False [Missed ?x ?s ?v 1] [[], ?ws] 1 [?x] [])"
    using world_step.miss [of ?x ?s ?v 1 "?w e2 False [Arrived ?x ?s ?v 1] [[], ?ws] 1 [?x] []"
        map_client silent_codec ?ck None]
    by (simp add: Filter_lookup_def)
  have 5: "?st (?w e2 False [Missed ?x ?s ?v 1] [[], ?ws] 1 [?x] [])
      (?w e2 False [Computed ?x ?s ?v 1 resp] [[], ?ws] 1 [?x] [])"
    using world_step.compute [of ?x ?s ?v 1 "?w e2 False [Missed ?x ?s ?v 1] [[], ?ws] 1 [?x] []"] resp
    by simp
  have 6: "?st (?w e2 False [Computed ?x ?s ?v 1 resp] [[], ?ws] 1 [?x] [])
      (?w e2 False [] [[], ?ws] 1 [?x] [(?x, ?s, 1, resp)])"
    using world_step.put [of ?x ?s ?v 1 resp "?w e2 False [Computed ?x ?s ?v 1 resp] [[], ?ws] 1 [?x] []"
        ascii_data map_client silent_codec ?ck]
    by (simp add: Filter_store_def)
  have i: "initial_world e None = ?w e False [] [[]] 0 [] []" by (simp add: initial_world_def)
  have "?st\<^sup>*\<^sup>* (initial_world e None) (?w e2 False [] [[], ?ws] 1 [?x] [(?x, ?s, 1, resp)])"
    unfolding i using 1 2 3 4 5 6 by (meson rtranclp.rtrancl_into_rtrancl rtranclp.rtrancl_refl)
  with e show ?thesis by fastforce
qed


end
