(* ===== verification/Batch.thy ===== *)
theory Batch
  imports Freshness
begin

text \<open>
  \<open>BatchDetect\<close> of \<open>filter_app_service.go\<close>: a producer, a channel and a pool of workers. A schedule
  says who moves next, and for a worker that receives a job whether the context is done when it
  looks; a move of one that cannot run changes nothing. A call of \<open>Filter\<close> is one move here; the
  theory \<open>Freshness\<close> interleaves its parts.
\<close>

section \<open>The code\<close>

datatype worker = Idle | Busy nat gostring | Gone

record 's batch_state =
  bs_unsent :: "(nat \<times> gostring) list"
  bs_jobs :: "(nat \<times> gostring) list"
  bs_workers :: "worker list"
  bs_results :: "FilterResponse option list"
  bs_hits :: int
  bs_service :: 's

datatype batch_move = Produce | Work nat bool

type_synonym 's filter_fun = "gostring \<Rightarrow> 's \<Rightarrow> (FilterResponse result \<times> 's) option"

text \<open>The body of a worker: receive (the channel is closed when all is sent), check, filter.\<close>

definition worker_move :: "'s filter_fun \<Rightarrow> nat \<Rightarrow> bool \<Rightarrow> 's batch_state \<Rightarrow> 's batch_state option" where
  "worker_move filt i ctx_done st =
     (if i < length (bs_workers st) then
        (case bs_workers st ! i of
           Gone \<Rightarrow> Some st
         | Idle \<Rightarrow>
             (case bs_jobs st of
                [] \<Rightarrow> Some (if bs_unsent st = [] then st\<lparr>bs_workers := (bs_workers st)[i := Gone]\<rparr> else st)
              | (idx, tx) # js \<Rightarrow>
                  Some (st\<lparr>bs_jobs := js,
                    bs_workers := (bs_workers st)[i := if ctx_done then Gone else Busy idx tx]\<rparr>))
         | Busy idx tx \<Rightarrow>
             (case filt tx (bs_service st) of
                None \<Rightarrow> None
              | Some (Inl err, s') \<Rightarrow>
                  Some (st\<lparr>bs_service := s', bs_workers := (bs_workers st)[i := Idle]\<rparr>)
              | Some (Inr r, s') \<Rightarrow>
                  Some (st\<lparr>bs_service := s', bs_workers := (bs_workers st)[i := Idle],
                    bs_results := (bs_results st)[idx := Some r],
                    bs_hits := (if rp_IsHit r then bs_hits st + 1 else bs_hits st)\<rparr>)))
      else Some st)"

definition producer_move :: "'s batch_state \<Rightarrow> 's batch_state" where
  "producer_move st =
     (case bs_unsent st of
        [] \<Rightarrow> st | j # js \<Rightarrow> st\<lparr>bs_unsent := js, bs_jobs := bs_jobs st @ [j]\<rparr>)"

fun move :: "'s filter_fun \<Rightarrow> batch_move \<Rightarrow> 's batch_state \<Rightarrow> 's batch_state option" where
  "move filt Produce st = Some (producer_move st)"
| "move filt (Work i ctx_done) st = worker_move filt i ctx_done st"

fun batch_run :: "'s filter_fun \<Rightarrow> batch_move list \<Rightarrow> 's batch_state \<Rightarrow> 's batch_state option" where
  "batch_run filt [] st = Some st"
| "batch_run filt (m # ms) st =
     (case move filt m st of None \<Rightarrow> None | Some st' \<Rightarrow> batch_run filt ms st')"

definition batch_finished :: "'s batch_state \<Rightarrow> bool" where
  "batch_finished st \<longleftrightarrow> bs_unsent st = [] \<and> (\<forall>w \<in> set (bs_workers st). w = Gone)"

definition batch_start :: "nat \<Rightarrow> gostring list \<Rightarrow> 's \<Rightarrow> 's batch_state" where
  "batch_start cpus texts s =
     (let n = length texts;
          workers = (if cpus > n then n else cpus)
      in \<lparr>bs_unsent = zip [0 ..< n] texts, bs_jobs = [], bs_workers = replicate workers Idle,
          bs_results = replicate n None, bs_hits = 0, bs_service = s\<rparr>)"

text \<open>\<open>None\<close>: a panic, or the schedule ends while \<open>wg.Wait()\<close> still waits.\<close>

definition BatchDetect ::
  "(gostring \<Rightarrow> 's filter_fun) \<Rightarrow> nat \<Rightarrow> batch_move list \<Rightarrow> error option \<Rightarrow> 's \<Rightarrow> BatchFilterRequest \<Rightarrow>
   (BatchFilterResponse result \<times> 's) option" where
  "BatchDetect filt cpus moves ctx_err s req =
     (let strategyStr = (if bq_Strategy req = [] then StrategyDetect else bq_Strategy req);
          n = length (bq_Texts req)
      in if n = 0 then Some (Inr \<lparr>br_Results = [], br_Total = 0, br_HitNum = 0\<rparr>, s)
         else
           (case batch_run (filt strategyStr) moves (batch_start cpus (bq_Texts req) s) of
              None \<Rightarrow> None
            | Some st \<Rightarrow>
                if \<not> batch_finished st then None
                else
                  (case ctx_err of
                     Some err \<Rightarrow> Some (Inl err, bs_service st)
                   | None \<Rightarrow>
                       Some (Inr \<lparr>br_Results = bs_results st, br_Total = int n,
                         br_HitNum = bs_hits st\<rparr>, bs_service st))))"

section \<open>Every text is answered once, in its place\<close>

definition ctx_never_done :: "batch_move list \<Rightarrow> bool" where
  "ctx_never_done ms \<longleftrightarrow> (\<forall>i. Work i True \<notin> set ms)"

definition jobs_of :: "'s batch_state \<Rightarrow> (nat \<times> gostring) list" where
  "jobs_of st = bs_unsent st @ bs_jobs st @
     concat (map (\<lambda>w. case w of Busy i t \<Rightarrow> [(i, t)] | _ \<Rightarrow> []) (bs_workers st))"

definition hit_total :: "FilterResponse option list \<Rightarrow> int" where
  "hit_total rs = int (length (filter (\<lambda>r. \<exists>x. r = Some x \<and> rp_IsHit x) rs))"

definition batch_inv ::
  "(gostring \<Rightarrow> FilterResponse \<Rightarrow> bool) \<Rightarrow> ('s \<Rightarrow> bool) \<Rightarrow> gostring list \<Rightarrow> 's batch_state \<Rightarrow> bool" where
  "batch_inv Q I texts st \<longleftrightarrow>
     length (bs_results st) = length texts \<and> I (bs_service st) \<and>
     distinct (map fst (jobs_of st)) \<and>
     (\<forall>(i, t) \<in> set (jobs_of st). i < length texts \<and> texts ! i = t \<and> bs_results st ! i = None) \<and>
     (\<forall>i < length texts. (\<exists>t. (i, t) \<in> set (jobs_of st)) \<or>
        (\<exists>r. bs_results st ! i = Some r \<and> Q (texts ! i) r)) \<and>
     bs_hits st = hit_total (bs_results st)"

lemma mset_busy_update:
  assumes "i < length ws" "ws ! i = w"
  shows "mset (concat (map f (ws[i := w']))) + mset (f w) = mset (concat (map f ws)) + mset (f w')"
  using assms
proof (induction ws arbitrary: i)
  case Nil
  then show ?case by simp
next
  case (Cons v ws)
  show ?case
  proof (cases i)
    case 0
    with Cons.prems show ?thesis by simp
  next
    case (Suc j)
    with Cons.IH [of j] Cons.prems show ?thesis by simp
  qed
qed

lemma batch_inv_jobs:
  assumes "batch_inv Q I texts st" "mset (jobs_of st') = mset (jobs_of st)"
    and "bs_results st' = bs_results st" "bs_service st' = bs_service st" "bs_hits st' = bs_hits st"
  shows "batch_inv Q I texts st'"
proof -
  have s: "set (jobs_of st') = set (jobs_of st)" using assms(2) by (rule mset_eq_setD)
  have "mset (map fst (jobs_of st')) = mset (map fst (jobs_of st))" using assms(2) by simp
  then have d: "distinct (map fst (jobs_of st')) = distinct (map fst (jobs_of st))"
    by (rule mset_eq_imp_distinct_iff)
  show ?thesis using assms(1) unfolding batch_inv_def s d assms(3-5) .
qed

lemma hit_total_update:
  "i < length rs \<Longrightarrow> rs ! i = None \<Longrightarrow>
   hit_total (rs[i := Some r]) = hit_total rs + (if rp_IsHit r then 1 else 0)"
proof (induction rs arbitrary: i)
  case Nil
  then show ?case by simp
next
  case (Cons x rs)
  then show ?case by (cases i) (auto simp: hit_total_def)
qed

definition good_filter ::
  "(gostring \<Rightarrow> FilterResponse \<Rightarrow> bool) \<Rightarrow> ('s \<Rightarrow> bool) \<Rightarrow> gostring list \<Rightarrow> 's filter_fun \<Rightarrow> bool" where
  "good_filter Q I texts filt \<longleftrightarrow>
     (\<forall>t s. t \<in> set texts \<longrightarrow> I s \<longrightarrow> (\<exists>r s'. filt t s = Some (Inr r, s') \<and> I s' \<and> Q t r))"

lemma jobs_of_worker:
  assumes "i < length (bs_workers st)" "bs_workers st ! i = w"
    and "bs_workers st' = (bs_workers st)[i := w']" "bs_unsent st' = bs_unsent st"
  shows "mset (jobs_of st') + mset (bs_jobs st) + mset (case w of Busy k t \<Rightarrow> [(k, t)] | _ \<Rightarrow> []) =
    mset (jobs_of st) + mset (bs_jobs st') + mset (case w' of Busy k t \<Rightarrow> [(k, t)] | _ \<Rightarrow> [])"
  using mset_busy_update [OF assms(1,2), of "\<lambda>w. case w of Busy k t \<Rightarrow> [(k, t)] | _ \<Rightarrow> []" w'] assms(3,4)
  by (simp add: jobs_of_def)

lemma batch_inv_answer:
  assumes B: "batch_inv Q I texts st" and J: "mset (jobs_of st') + {#(k, t)#} = mset (jobs_of st)"
    and R: "bs_results st' = (bs_results st)[k := Some r]" "I (bs_service st')" "Q t r"
    and H: "bs_hits st' = (if rp_IsHit r then bs_hits st + 1 else bs_hits st)"
  shows "batch_inv Q I texts st'"
proof -
  have sub: "set (jobs_of st) = insert (k, t) (set (jobs_of st'))"
    using arg_cong [OF J [symmetric], of set_mset] by simp
  have "mset (map fst (jobs_of st)) = mset (map fst (jobs_of st')) + {#k#}"
    using arg_cong [OF J [symmetric], of "image_mset fst"] by simp
  then have "distinct (map fst (jobs_of st)) \<longleftrightarrow> distinct (k # map fst (jobs_of st'))"
    by (intro mset_eq_imp_distinct_iff) simp
  then have d: "distinct (map fst (jobs_of st'))" "k \<notin> fst ` set (jobs_of st')"
    using B by (auto simp: batch_inv_def)
  have k: "k < length texts" "texts ! k = t" "bs_results st ! k = None"
    using B sub by (auto simp: batch_inv_def)
  have len: "length (bs_results st) = length texts" using B by (simp add: batch_inv_def)
  have hits: "bs_hits st' = hit_total (bs_results st')"
    using B H R(1) hit_total_update [of k "bs_results st" r] k len by (simp add: batch_inv_def)
  have old: "i < length texts \<and> texts ! i = t' \<and> bs_results st' ! i = None"
    if "(i, t') \<in> set (jobs_of st')" for i t'
  proof -
    have "i \<noteq> k" using d(2) that by force
    moreover have "i < length texts \<and> texts ! i = t' \<and> bs_results st ! i = None"
      using B sub that by (auto simp: batch_inv_def)
    ultimately show ?thesis by (simp add: R(1))
  qed
  have all: "(\<exists>t'. (i, t') \<in> set (jobs_of st')) \<or> (\<exists>x. bs_results st' ! i = Some x \<and> Q (texts ! i) x)"
    if "i < length texts" for i
  proof (cases "i = k")
    case True
    then show ?thesis using k R len by simp
  next
    case False
    then show ?thesis using B sub that by (auto simp: batch_inv_def R(1))
  qed
  show ?thesis unfolding batch_inv_def using len d(1) old all hits R by auto
qed

lemma worker_move_inv:
  assumes B: "batch_inv Q I texts st" and G: "good_filter Q I texts filt"
  shows "\<exists>st'. worker_move filt i False st = Some st' \<and> batch_inv Q I texts st'"
proof (cases "i < length (bs_workers st)")
  case False
  with B show ?thesis by (simp add: worker_move_def)
next
  case i: True
  note J = jobs_of_worker [OF i refl]
  show ?thesis
  proof (cases "bs_workers st ! i")
    case Gone
    with i B show ?thesis by (simp add: worker_move_def)
  next
    case Idle
    show ?thesis
    proof (cases "bs_jobs st")
      case Nil
      let ?st' = "st\<lparr>bs_workers := (bs_workers st)[i := Gone]\<rparr>"
      have "mset (jobs_of ?st') = mset (jobs_of st)" using J [of ?st' Gone] Idle by simp
      then have "batch_inv Q I texts ?st'" by (rule batch_inv_jobs [OF B]) simp_all
      with i Idle Nil B show ?thesis by (simp add: worker_move_def)
    next
      case (Cons j js)
      obtain k t where j: "j = (k, t)" by force
      let ?st' = "st\<lparr>bs_jobs := js, bs_workers := (bs_workers st)[i := Busy k t]\<rparr>"
      have "mset (jobs_of ?st') = mset (jobs_of st)" using J [of ?st' "Busy k t"] Idle Cons j by simp
      then have "batch_inv Q I texts ?st'" by (rule batch_inv_jobs [OF B]) simp_all
      with i Idle Cons j show ?thesis by (simp add: worker_move_def)
    qed
  next
    case (Busy k t)
    have "(k, t) \<in> set (jobs_of st)"
      using i Busy nth_mem [OF i] by (fastforce simp: jobs_of_def)
    then have "k < length texts \<and> texts ! k = t" using B by (auto simp: batch_inv_def)
    then have t: "t \<in> set texts" by auto
    have "I (bs_service st)" using B by (simp add: batch_inv_def)
    then obtain r s' where r: "filt t (bs_service st) = Some (Inr r, s')" "I s'" "Q t r"
      using G t unfolding good_filter_def by blast
    let ?st' = "st\<lparr>bs_service := s', bs_workers := (bs_workers st)[i := Idle],
      bs_results := (bs_results st)[k := Some r],
      bs_hits := (if rp_IsHit r then bs_hits st + 1 else bs_hits st)\<rparr>"
    have "mset (jobs_of ?st') + {#(k, t)#} = mset (jobs_of st)" using J [of ?st' Idle] Busy by simp
    then have "batch_inv Q I texts ?st'"
      by (rule batch_inv_answer [OF B, where r = r]) (use r in simp_all)
    with i Busy r(1) show ?thesis by (simp add: worker_move_def)
  qed
qed

lemma producer_move_inv:
  assumes "batch_inv Q I texts st"
  shows "batch_inv Q I texts (producer_move st)"
proof (cases "bs_unsent st")
  case Nil
  with assms show ?thesis by (simp add: producer_move_def)
next
  case (Cons j js)
  then have "mset (jobs_of (producer_move st)) = mset (jobs_of st)"
    by (simp add: producer_move_def jobs_of_def)
  then show ?thesis
    by (rule batch_inv_jobs [OF assms]) (simp_all add: producer_move_def Cons)
qed

lemma batch_run_inv:
  "good_filter Q I texts filt \<Longrightarrow> ctx_never_done ms \<Longrightarrow> batch_inv Q I texts st \<Longrightarrow>
   \<exists>st'. batch_run filt ms st = Some st' \<and> batch_inv Q I texts st'"
proof (induction ms arbitrary: st)
  case Nil
  then show ?case by simp
next
  case (Cons m ms)
  have c: "ctx_never_done ms" using Cons.prems(2) by (simp add: ctx_never_done_def)
  obtain st1 where "move filt m st = Some st1" "batch_inv Q I texts st1"
  proof (cases m)
    case Produce
    then show ?thesis using that producer_move_inv [OF Cons.prems(3)] by simp
  next
    case (Work i b)
    then have "\<not> b" using Cons.prems(2) by (auto simp: ctx_never_done_def)
    then show ?thesis using that worker_move_inv [OF Cons.prems(3,1), of i] Work by auto
  qed
  with Cons.IH [OF Cons.prems(1) c] show ?case by simp
qed

lemma batch_inv_start:
  assumes "I s"
  shows "batch_inv Q I texts (batch_start cpus texts s)"
proof -
  let ?st = "batch_start cpus texts s"
  have "concat (map (\<lambda>w. case w of Busy i t \<Rightarrow> [(i, t)] | _ \<Rightarrow> []) (replicate n Idle)) = []" for n
    by (induction n) simp_all
  then have j: "jobs_of ?st = zip [0 ..< length texts] texts"
    by (simp add: batch_start_def jobs_of_def Let_def)
  have "hit_total (replicate n None) = 0" for n by (simp add: hit_total_def)
  moreover have "(i, texts ! i) \<in> set (zip [0 ..< length texts] texts)" if "i < length texts" for i
    using that nth_mem [of i "zip [0 ..< length texts] texts"] by simp
  then have "\<forall>i < length texts. \<exists>t. (i, t) \<in> set (zip [0 ..< length texts] texts)" by blast
  ultimately show ?thesis using assms
    unfolding batch_inv_def j by (auto simp: batch_start_def Let_def in_set_zip)
qed

text \<open>A worker leaves only when all is sent and received.\<close>

definition gone_inv :: "'s batch_state \<Rightarrow> bool" where
  "gone_inv st \<longleftrightarrow> (Gone \<in> set (bs_workers st) \<longrightarrow> bs_unsent st = [] \<and> bs_jobs st = [])"

lemma move_gone_inv:
  assumes "move filt m st = Some st'" "\<forall>i. m \<noteq> Work i True" "gone_inv st"
  shows "gone_inv st' \<and> length (bs_workers st') = length (bs_workers st)"
proof (cases m)
  case Produce
  with assms show ?thesis by (auto simp: gone_inv_def producer_move_def split: list.splits)
next
  case (Work i b)
  have "gone_inv (st\<lparr>bs_workers := (bs_workers st)[i := w]\<rparr>)" if "w \<noteq> Gone" for w
    using assms(3) that set_update_subset_insert [of "bs_workers st" i w] by (auto simp: gone_inv_def)
  with assms Work show ?thesis
    by (auto simp: worker_move_def gone_inv_def split: if_splits worker.splits list.splits
        option.splits prod.splits sum.splits dest!: set_update_subset_insert [THEN subsetD])
qed

lemma batch_run_gone_inv:
  "ctx_never_done ms \<Longrightarrow> batch_run filt ms st = Some st' \<Longrightarrow> gone_inv st \<Longrightarrow>
   gone_inv st' \<and> length (bs_workers st') = length (bs_workers st)"
proof (induction ms arbitrary: st)
  case Nil
  then show ?case by simp
next
  case (Cons m ms)
  obtain st1 where m: "move filt m st = Some st1" "batch_run filt ms st1 = Some st'"
    using Cons.prems(2) by (auto split: option.splits)
  have "\<forall>i. m \<noteq> Work i True" "ctx_never_done ms" using Cons.prems(1) by (auto simp: ctx_never_done_def)
  with move_gone_inv [OF m(1)] Cons.prems(3) Cons.IH [OF _ m(2)] show ?case by simp
qed

lemma batch_complete:
  assumes "good_filter Q I texts filt" "ctx_never_done ms" "I s" "0 < cpus" "texts \<noteq> []"
  shows "\<exists>st. batch_run filt ms (batch_start cpus texts s) = Some st \<and> I (bs_service st) \<and>
    (batch_finished st \<longrightarrow> length (bs_results st) = length texts \<and>
       (\<forall>i < length texts. \<exists>r. bs_results st ! i = Some r \<and> Q (texts ! i) r) \<and>
       bs_hits st = hit_total (bs_results st))"
proof -
  obtain st where st: "batch_run filt ms (batch_start cpus texts s) = Some st" "batch_inv Q I texts st"
    using batch_run_inv [OF assms(1,2) batch_inv_start [where I = I, OF assms(3)]] by blast
  have "gone_inv (batch_start cpus texts s)" by (simp add: gone_inv_def batch_start_def Let_def)
  from batch_run_gone_inv [OF assms(2) st(1) this]
  have g: "gone_inv st" "bs_workers st \<noteq> []"
    using assms(4,5) by (auto simp: batch_start_def Let_def split: if_splits)
  have "\<forall>i < length texts. \<exists>r. bs_results st ! i = Some r \<and> Q (texts ! i) r" if f: "batch_finished st"
  proof -
    have all: "\<forall>w \<in> set (bs_workers st). w = Gone" using f by (simp add: batch_finished_def)
    then have "hd (bs_workers st) = Gone" using g(2) by simp
    then have "Gone \<in> set (bs_workers st)" using hd_in_set [OF g(2)] by simp
    then have e: "bs_unsent st = []" "bs_jobs st = []" using g(1) by (simp_all add: gone_inv_def)
    have "concat (map (\<lambda>w. case w of Busy i t \<Rightarrow> [(i, t)] | _ \<Rightarrow> []) (bs_workers st)) = []"
      using all by auto
    then have "jobs_of st = []" using e by (simp add: jobs_of_def)
    with st(2) show ?thesis by (simp add: batch_inv_def)
  qed
  with st show ?thesis by (auto simp: batch_inv_def)
qed

section \<open>Progress\<close>

text \<open>
  The work left: every move that changes the state reduces it, and while the pool has not
  finished some move does.
\<close>

fun worker_work :: "worker \<Rightarrow> nat" where
  "worker_work Gone = 0"
| "worker_work Idle = 1"
| "worker_work (Busy i t) = 2"

definition work_left :: "'s batch_state \<Rightarrow> nat" where
  "work_left st = 3 * length (bs_unsent st) + 2 * length (bs_jobs st) +
     sum_list (map worker_work (bs_workers st))"

lemma worker_work_update:
  "i < length ws \<Longrightarrow> sum_list (map worker_work (ws[i := w])) + worker_work (ws ! i) =
     sum_list (map worker_work ws) + worker_work w"
proof (induction ws arbitrary: i)
  case (Cons v ws)
  then show ?case by (cases i) auto
qed simp

lemma move_work:
  assumes "move filt m st = Some st'"
  shows "st' = st \<or> work_left st' < work_left st"
proof (cases m)
  case Produce
  with assms show ?thesis by (auto simp: producer_move_def work_left_def split: list.splits)
next
  case (Work i b)
  show ?thesis
  proof (cases "i < length (bs_workers st)")
    case True
    note W = worker_work_update [OF True]
    show ?thesis
      using assms Work True W [of Gone] W [of Idle] W [of "Busy (fst (hd (bs_jobs st))) (snd (hd (bs_jobs st)))"]
      by (auto simp: worker_move_def work_left_def split: worker.splits list.splits option.splits
          prod.splits sum.splits if_splits)
  next
    case False
    with assms Work show ?thesis by (simp add: worker_move_def)
  qed
qed

lemma unfinished_moves:
  assumes "\<not> batch_finished st" "\<forall>t s. filt t s \<noteq> None"
  shows "\<exists>m st'. move filt m st = Some st' \<and> st' \<noteq> st \<and> (\<forall>i. m \<noteq> Work i True)"
proof (cases "bs_unsent st")
  case (Cons j js)
  have "producer_move st \<noteq> st"
  proof
    assume "producer_move st = st"
    from arg_cong [OF this, of bs_unsent] Cons show False by (simp add: producer_move_def)
  qed
  then show ?thesis by (intro exI [of _ Produce] exI [of _ "producer_move st"]) simp
next
  case Nil
  then obtain w where "w \<in> set (bs_workers st)" "w \<noteq> Gone"
    using assms(1) by (auto simp: batch_finished_def)
  then obtain i where i: "i < length (bs_workers st)" "bs_workers st ! i \<noteq> Gone"
    by (auto simp: in_set_conv_nth)
  obtain st' where st': "worker_move filt i False st = Some st'" "bs_workers st' \<noteq> bs_workers st"
  proof -
    have ch: "(bs_workers st)[i := w] \<noteq> bs_workers st" if "w \<noteq> bs_workers st ! i" for w
      using i(1) that by (metis nth_list_update_eq)
    show ?thesis
    proof (cases "bs_workers st ! i")
      case Gone
      with i show ?thesis by simp
    next
      case Idle
      with i(1) Nil ch [of Gone] ch [of "Busy _ _"] show ?thesis
        using that by (cases "bs_jobs st") (auto simp: worker_move_def split: prod.splits)
    next
      case (Busy k t)
      obtain x s' where f: "filt t (bs_service st) = Some (x, s')" using assms(2) by fastforce
      show ?thesis using that i(1) Busy f ch [of Idle] by (cases x) (auto simp: worker_move_def)
    qed
  qed
  then show ?thesis by (intro exI [of _ "Work i False"] exI [of _ st']) auto
qed

text \<open>How many moves of a schedule change the state.\<close>

fun changes :: "'s filter_fun \<Rightarrow> batch_move list \<Rightarrow> 's batch_state \<Rightarrow> nat" where
  "changes filt [] st = 0"
| "changes filt (m # ms) st =
     (case move filt m st of None \<Rightarrow> 0
      | Some st' \<Rightarrow> (if work_left st' = work_left st then 0 else 1) + changes filt ms st')"

lemma changes_bound: "changes filt ms st \<le> work_left st"
proof (induction ms arbitrary: st)
  case (Cons m ms)
  show ?case
  proof (cases "move filt m st")
    case (Some st')
    with Cons.IH [of st'] move_work [OF Some] show ?thesis by auto
  qed simp
qed simp

lemma can_finish:
  assumes "\<forall>t s. filt t s \<noteq> None"
  shows "\<exists>ms st'. batch_run filt ms st = Some st' \<and> batch_finished st' \<and> ctx_never_done ms \<and>
    length ms \<le> work_left st"
proof (induction "work_left st" arbitrary: st rule: less_induct)
  case less
  show ?case
  proof (cases "batch_finished st")
    case True
    then show ?thesis by (intro exI [of _ "[]"] exI [of _ st]) (simp add: ctx_never_done_def)
  next
    case False
    obtain m st1 where m: "move filt m st = Some st1" "st1 \<noteq> st" "\<forall>i. m \<noteq> Work i True"
      using unfinished_moves [OF False assms] by blast
    then have l: "work_left st1 < work_left st" using move_work [OF m(1)] by simp
    obtain ms st' where "batch_run filt ms st1 = Some st'" "batch_finished st'" "ctx_never_done ms"
      "length ms \<le> work_left st1" using less [OF l] by blast
    with m l show ?thesis
      by (intro exI [of _ "m # ms"] exI [of _ st']) (auto simp: ctx_never_done_def)
  qed
qed

section \<open>Filter as a batch calls it\<close>

text \<open>A call of \<open>Filter\<close> is a run of the interleaved system in which nobody else moves.\<close>

lemma Filter_is_a_run:
  assumes F: "Filter u client js ck s \<lparr>rq_Text = tx, rq_Strategy = strat\<rparr> = Some (x, s')"
    and w: "w_engine w = fa_engine s" "w_cache w = fa_cache s" "w_flight w = []"
    and m: "fa_strategies s = main_strategies"
  shows "\<exists>w' resp. x = Inr resp \<and> (world_step u client js)\<^sup>*\<^sup>* w w' \<and>
    fa_engine s' = fa_engine s \<and> fa_strategies s' = main_strategies \<and>
    w_engine w' = fa_engine s' \<and> w_cache w' = fa_cache s' \<and> w_flight w' = [] \<and>
    w_lists w' = w_lists w \<and> w_done w' = w_done w \<and> w_mid w' = w_mid w \<and>
    w_asked w' = tx # w_asked w \<and>
    w_answered w' = (tx, choose_strategy strat, w_done w, resp) # w_answered w"
proof -
  let ?st = "world_step u client js"
  let ?s = "choose_strategy strat" and ?v = "Version (fa_engine s)" and ?n = "w_done w"
  let ?w1 = "w\<lparr>w_flight := [Arrived tx ?s ?v ?n], w_asked := tx # w_asked w\<rparr>"
  have 1: "?st w ?w1" using world_step.arrive [of u client js w tx strat] w by simp
  obtain res c1 where l: "Filter_lookup client js ck (filterCacheKey tx ?s ?v) (fa_cache s) = (res, c1)"
    by force
  show ?thesis
  proof (cases res)
    case (Some cached)
    let ?w2 = "?w1\<lparr>w_cache := c1, w_flight := [], w_answered := (tx, ?s, ?n, cached) # w_answered w\<rparr>"
    have 2: "?st ?w1 ?w2"
      using world_step.hit [of tx ?s ?v ?n ?w1 client js ck cached c1] l w Some by simp
    have "x = Inr cached" "s' = s\<lparr>fa_cache := c1\<rparr>" using F l Some by (simp_all add: Filter_def Filter_at_def Let_def)
    moreover have "?st\<^sup>*\<^sup>* w ?w2" using 1 2 by (meson rtranclp.rtrancl_into_rtrancl rtranclp.rtrancl_refl)
    ultimately show ?thesis using w m by (intro exI [of _ ?w2] exI [of _ cached]) simp
  next
    case None
    let ?w2 = "?w1\<lparr>w_cache := c1, w_flight := [Missed tx ?s ?v ?n]\<rparr>"
    have 2: "?st ?w1 ?w2"
      using world_step.miss [of tx ?s ?v ?n ?w1 client js ck c1] l w None by simp
    obtain resp where c: "Filter_compute u main_strategies ck (fa_engine s) ?s tx = Some resp"
      "x = Inr resp" "s' = s\<lparr>fa_cache := Filter_store client js ck (filterCacheKey tx ?s ?v) resp c1,
        fa_hits := (?s, rp_IsHit resp) # fa_hits s\<rparr>"
      using F l None m by (auto simp: Filter_def Filter_at_def Let_def split: option.splits)
    let ?w3 = "?w2\<lparr>w_flight := [Computed tx ?s ?v ?n resp]\<rparr>"
    have 3: "?st ?w2 ?w3"
      using world_step.compute [of tx ?s ?v ?n ?w2 u ck resp] c(1) w by simp
    let ?w4 = "?w3\<lparr>w_cache := fa_cache s', w_flight := [],
      w_answered := (tx, ?s, ?n, resp) # w_answered w\<rparr>"
    have 4: "?st ?w3 ?w4"
      using world_step.put [of tx ?s ?v ?n resp ?w3 u client js ck] c(3) by simp
    have "?st\<^sup>*\<^sup>* w ?w4" using 1 2 3 4 by (meson rtranclp.rtrancl_into_rtrancl rtranclp.rtrancl_refl)
    then show ?thesis using c(2,3) w m by (intro exI [of _ ?w4] exI [of _ resp]) simp
  qed
qed

text \<open>The service between two calls, with the texts \<open>A\<close> asked at most and the lists \<open>L\<close>.\<close>

definition service_ok ::
  "unicode_data \<Rightarrow> 'r redis_client \<Rightarrow> codec \<Rightarrow> ('r \<Rightarrow> gostring \<Rightarrow> bytes \<Rightarrow> bool) \<Rightarrow> gostring set \<Rightarrow>
   SensitiveWord list \<Rightarrow> 'r FilterAppService \<Rightarrow> bool" where
  "service_ok u client js stored A ws s \<longleftrightarrow> fa_strategies s = main_strategies \<and>
     (\<exists>w. world_inv u client js stored w \<and> w_engine w = fa_engine s \<and> w_cache w = fa_cache s \<and>
        w_flight w = [] \<and> \<not> w_mid w \<and> last (w_lists w) = ws \<and> set (w_asked w) \<subseteq> A \<and> w_done w < 2 ^ 64)"

lemma Filter_total:
  assumes "service_ok u client js stored A ws s"
  shows "Filter u client js ck s \<lparr>rq_Text = tx, rq_Strategy = strat\<rparr> \<noteq> None"
proof -
  obtain ws where "engine_holds u (fa_engine s) ws" "fa_strategies s = main_strategies"
    using assms by (auto simp: service_ok_def world_inv_def engine_ok_def)
  moreover obtain resp where
    "Filter_compute u main_strategies ck (fa_engine s) (choose_strategy strat) tx = Some resp"
    using Filter_compute_ok [OF calculation(1) choose_strategy_valid] by blast
  ultimately show ?thesis
    by (auto simp: Filter_def Filter_at_def Let_def split: prod.splits option.splits)
qed

lemma Filter_keeps_service:
  assumes S: "service_ok u client js stored A ws s" and js: "codec_ok js" and A: "tx \<in> A"
  shows "\<exists>resp s'. Filter u client js ck s \<lparr>rq_Text = tx, rq_Strategy = strat\<rparr> = Some (Inr resp, s') \<and>
    service_ok u client js stored A ws s' \<and>
    (\<exists>t \<in> A. fnv64a t = fnv64a tx \<and> answers u ws (choose_strategy strat) t resp)"
proof -
  obtain w where m: "fa_strategies s = main_strategies"
    and w: "world_inv u client js stored w" "w_engine w = fa_engine s" "w_cache w = fa_cache s"
      "w_flight w = []" "\<not> w_mid w" "last (w_lists w) = ws" "set (w_asked w) \<subseteq> A" "w_done w < 2 ^ 64"
    using S by (auto simp: service_ok_def)
  obtain x s' where F: "Filter u client js ck s \<lparr>rq_Text = tx, rq_Strategy = strat\<rparr> = Some (x, s')"
    using Filter_total [OF S] by fastforce
  obtain w' resp where w': "x = Inr resp" "(world_step u client js)\<^sup>*\<^sup>* w w'"
    "fa_engine s' = fa_engine s" "fa_strategies s' = main_strategies"
    "w_engine w' = fa_engine s'" "w_cache w' = fa_cache s'" "w_flight w' = []"
    "w_lists w' = w_lists w" "w_done w' = w_done w" "w_mid w' = w_mid w" "w_asked w' = tx # w_asked w"
    "w_answered w' = (tx, choose_strategy strat, w_done w, resp) # w_answered w"
    using Filter_is_a_run [OF F w(2-4) m] by blast
  have i: "world_inv u client js stored w'"
    by (rule world_steps_inv [OF w'(2) w(1) js]) (use w(8) w'(9) in simp)
  then have "fresh_since u w' (w_done w) (choose_strategy strat) tx resp"
    using w'(12) by (auto simp: world_inv_def answers_ok_def)
  then obtain t g where t: "t \<in> set (w_asked w')" "fnv64a t = fnv64a tx" "w_done w \<le> g"
    "g < length (w_lists w')" "answers u (w_lists w' ! g) (choose_strategy strat) t resp"
    unfolding fresh_since_def by blast
  have e: "length (w_lists w) = Suc (w_done w)" "w_lists w \<noteq> []"
    using w(1,5) by (simp_all add: world_inv_def engine_ok_def)
  then have "g = length (w_lists w) - 1" using t(3,4) w'(8) by simp
  then have "w_lists w' ! g = ws" using e(2) w(6) w'(8) by (simp add: last_conv_nth)
  moreover have "service_ok u client js stored A ws s'"
    unfolding service_ok_def using i w' w(5-8) A by (intro conjI exI [of _ w']) auto
  ultimately show ?thesis using F w'(1,11) t(1,2,5) w(7) A by auto
qed

section \<open>Properties\<close>

text \<open>The filter function of a batch: \<open>Filter\<close> on a request with the batch's strategy.\<close>

definition batch_filter ::
  "unicode_data \<Rightarrow> 'r redis_client \<Rightarrow> codec \<Rightarrow> filter_clock \<Rightarrow> gostring \<Rightarrow> 'r FilterAppService filter_fun" where
  "batch_filter u client js ck strat t s =
     Filter u client js ck s \<lparr>rq_Text = t, rq_Strategy = strat\<rparr>"

definition batch_strategy :: "BatchFilterRequest \<Rightarrow> gostring" where
  "batch_strategy req = (if bq_Strategy req = [] then StrategyDetect else bq_Strategy req)"


lemma fresh_service_ok:
  assumes "engine_holds u e []" "Version e = 0"
  shows "service_ok u map_client silent_codec (\<lambda>r k v. map_of r k = Some v) A []
    \<lparr>fa_engine = e, fa_strategies = main_strategies, fa_cache = None, fa_hits = []\<rparr>"
  unfolding service_ok_def
  by (rule conjI, simp, rule exI [of _ "initial_world e None"])
    (use assms in \<open>simp add: world_inv_def engine_ok_def cache_ok_def cache_within_def answers_ok_def initial_world_def\<close>)




end
