(* ===== verification/Http.thy ===== *)
theory Http
  imports Middleware WordService Batch
begin

text \<open>
  \<open>internal/interfaces/http\<close>: the response envelope, the handlers on the application services, and the
  router with its chains of middlewares. Which route a request matches is Gin's; every route is
  a constructor. Decoding a body and the message of a failed validation belong to Gin too;
  the rules of the \<open>binding\<close> tags are written out.
\<close>

section \<open>Binding requests\<close>

definition rune_len :: "gostring \<Rightarrow> nat" where
  "rune_len s = length (runes_of s)"

definition FilterRequest_valid :: "FilterRequest \<Rightarrow> bool" where
  "FilterRequest_valid r \<longleftrightarrow> rq_Text r \<noteq> [] \<and> rune_len (rq_Text r) \<le> 50000"

definition BatchFilterRequest_valid :: "BatchFilterRequest \<Rightarrow> bool" where
  "BatchFilterRequest_valid r \<longleftrightarrow> 1 \<le> length (bq_Texts r) \<and> length (bq_Texts r) \<le> 100 \<and>
     list_all (\<lambda>t. rune_len t \<le> 50000) (bq_Texts r)"

definition CreateWordRequest_valid :: "CreateWordRequest \<Rightarrow> bool" where
  "CreateWordRequest_valid r \<longleftrightarrow> cw_Text r \<noteq> [] \<and> rune_len (cw_Text r) \<le> 255 \<and> cw_Category r \<noteq> [] \<and>
     1 \<le> cw_Level r \<and> cw_Level r \<le> 4"

definition opt_ok :: "('a \<Rightarrow> bool) \<Rightarrow> 'a option \<Rightarrow> bool" where
  "opt_ok P x = (case x of None \<Rightarrow> True | Some y \<Rightarrow> P y)"

definition UpdateWordRequest_valid :: "UpdateWordRequest \<Rightarrow> bool" where
  "UpdateWordRequest_valid r \<longleftrightarrow> opt_ok (\<lambda>t. 1 \<le> rune_len t \<and> rune_len t \<le> 255) (uw_Text r) \<and>
     opt_ok (\<lambda>n. 1 \<le> n \<and> n \<le> 4) (uw_Level r) \<and> opt_ok (\<lambda>n. 0 \<le> n \<and> n \<le> 1) (uw_Status r)"

definition WordListRequest_valid :: "WordListRequest \<Rightarrow> bool" where
  "WordListRequest_valid r \<longleftrightarrow> 0 \<le> lr_Status r \<and> lr_Status r \<le> 1 \<and> 1 \<le> lr_Page r \<and>
     1 \<le> lr_PageSize r \<and> lr_PageSize r \<le> 100"

text \<open>Without \<open>dive\<close> the words themselves are not validated here.\<close>

definition ImportRequest_valid :: "ImportRequest \<Rightarrow> bool" where
  "ImportRequest_valid r \<longleftrightarrow> 1 \<le> length (im_Words r) \<and> length (im_Words r) \<le> 10000"

text \<open>
  \<open>ShouldBindJSON\<close>: \<open>decode\<close> gets the bytes the limited body yields and whether reading on fails with
  the error of \<open>MaxBytesReader\<close>.
\<close>

definition ShouldBindJSON ::
  "(bytes \<Rightarrow> bool \<Rightarrow> 'r result) \<Rightarrow> ('r \<Rightarrow> bool) \<Rightarrow> error \<Rightarrow> http_request \<Rightarrow> 'p gin \<Rightarrow> 'r result" where
  "ShouldBindJSON decode valid invalid rq c =
     (case rq_Body rq of
        None \<Rightarrow> Inl (PlainError ''invalid request'')
      | Some body \<Rightarrow>
          (let lim = (case gn_limit c of None \<Rightarrow> length body | Some n \<Rightarrow> nat n) in
           case decode (take lim body) (lim < length body) of
             Inl err \<Rightarrow> Inl err
           | Inr r \<Rightarrow> (if valid r then Inr r else Inl invalid)))"

section \<open>Numbers in paths\<close>

definition is_digit :: "char \<Rightarrow> bool" where
  "is_digit c \<longleftrightarrow> 48 \<le> (of_char c :: nat) \<and> (of_char c :: nat) \<le> 57"

definition digit_of :: "char \<Rightarrow> nat" where
  "digit_of c = of_char c - 48"

definition num_error :: "gostring \<Rightarrow> gostring \<Rightarrow> error" where
  "num_error s why = PlainError (''strconv.ParseUint: parsing '' @ [CHR 0x22] @ s @ [CHR 0x22] @ '': '' @ why)"

text \<open>The loop of \<open>strconv.ParseUint(s, 10, 64)\<close>: a digit that is none ends it, as does an overflow.\<close>

fun parse_loop :: "gostring \<Rightarrow> nat \<Rightarrow> (gostring, nat) sum" where
  "parse_loop [] n = Inr n"
| "parse_loop (c # cs) n =
     (if \<not> is_digit c then Inl ''invalid syntax''
      else if 2 ^ 64 \<le> n * 10 + digit_of c then Inl ''value out of range''
      else parse_loop cs (n * 10 + digit_of c))"

definition ParseUint :: "gostring \<Rightarrow> 64 word result" where
  "ParseUint s =
     (if s = [] then Inl (num_error s ''invalid syntax'')
      else case parse_loop s 0 of
          Inl why \<Rightarrow> Inl (num_error s why)
        | Inr n \<Rightarrow> Inr (of_nat n))"

section \<open>Responses\<close>

datatype payload =
    FilterData FilterResponse
  | BatchData BatchFilterResponse
  | WordData WordResponse
  | WordListData WordListResponse
  | ImportData ImportResponse
  | HealthData gostring gostring
  | ReadyData gostring int
  | CsvData gostring
  | TextData gostring

definition trace_id :: "'p gin \<Rightarrow> gostring" where
  "trace_id c = get_string (gn_values c) ''trace_id''"

definition Success :: "'p option \<Rightarrow> 'p gin \<Rightarrow> 'p gin" where
  "Success data c = gin_JSON 200 (Reply 0 ''ok'' data (trace_id c)) c"

definition Response_Error :: "error \<Rightarrow> 'p gin \<Rightarrow> 'p gin" where
  "Response_Error err c =
     (case IsBizError err of
        Some bizErr \<Rightarrow> gin_JSON (be_HTTPStatus bizErr) (Reply (be_Code bizErr) (be_Message bizErr) None (trace_id c)) c
      | None \<Rightarrow> gin_JSON 500 (Reply (be_Code ErrInternal) ''internal server error'' None (trace_id c)) c)"

definition BadRequest :: "error \<Rightarrow> 'p gin \<Rightarrow> 'p gin" where
  "BadRequest err c = gin_JSON 400 (Reply (be_Code ErrInvalidRequest) (error_text err) None (trace_id c)) c"

section \<open>Handlers\<close>

text \<open>
  What the handlers are wired to. The two services share one cache, so the state is the database and
  the filter service, whose cache the word service invalidates. The last fields are what the
  surroundings decide: the schedule of a batch, the pings of the readiness check, the writes to
  the client.
\<close>

record ('d, 'r) http_deps =
  hd_words :: "('d, 'r) word_deps"
  hd_codec :: codec
  hd_clock :: filter_clock
  hd_decode_filter :: "bytes \<Rightarrow> bool \<Rightarrow> FilterRequest result"
  hd_decode_batch :: "bytes \<Rightarrow> bool \<Rightarrow> BatchFilterRequest result"
  hd_decode_create :: "bytes \<Rightarrow> bool \<Rightarrow> CreateWordRequest result"
  hd_decode_update :: "bytes \<Rightarrow> bool \<Rightarrow> UpdateWordRequest result"
  hd_decode_import :: "bytes \<Rightarrow> bool \<Rightarrow> ImportRequest result"
  hd_decode_list :: "(gostring, gostring) gomap \<Rightarrow> WordListRequest result"
  hd_invalid :: error
  hd_cpus :: nat
  hd_moves :: "batch_move list"
  hd_ctx :: "error option"
  hd_db :: "error option"
  hd_db_ping :: "error option"
  hd_redis_ping :: "error option"
  hd_write :: "gostring \<Rightarrow> gostring \<Rightarrow> error option \<times> gostring"

record ('d, 'r) app =
  ap_db :: 'd
  ap_filter :: "'r FilterAppService"

type_synonym ('l, 'd, 'r) http_handler = "(payload, 'l, ('d, 'r) app) handler"

definition finish :: "'p gin \<Rightarrow> ('l, 't) server \<Rightarrow> (panic option \<times> 'p gin \<times> ('l, 't) server) option" where
  "finish c s = Some (None, c, s)"

text \<open>A call of the filter service, and what is answered.\<close>

definition on_filter ::
  "('x \<Rightarrow> payload) \<Rightarrow> ('r FilterAppService \<Rightarrow> ('x result \<times> 'r FilterAppService) option) \<Rightarrow> payload gin \<Rightarrow>
   ('l, ('d, 'r) app) server \<Rightarrow> (panic option \<times> payload gin \<times> ('l, ('d, 'r) app) server) option" where
  "on_filter data call c s =
     (case call (ap_filter (sv_app s)) of
        None \<Rightarrow> None
      | Some (x, f') \<Rightarrow>
          (let s' = s\<lparr>sv_app := (sv_app s)\<lparr>ap_filter := f'\<rparr>\<rparr> in
           case x of
             Inl err \<Rightarrow> finish (Response_Error err c) s'
           | Inr result \<Rightarrow> finish (Success (Some (data result)) c) s'))"

definition FilterHandler_with ::
  "('d, 'r) http_deps \<Rightarrow> ('r FilterAppService \<Rightarrow> FilterRequest \<Rightarrow> (FilterResponse result \<times> 'r FilterAppService) option) \<Rightarrow>
   ('l, 'd, 'r) http_handler" where
  "FilterHandler_with dp service rq c s =
     (case ShouldBindJSON (hd_decode_filter dp) FilterRequest_valid (hd_invalid dp) rq c of
        Inl err \<Rightarrow> finish (BadRequest err c) s
      | Inr req \<Rightarrow> on_filter FilterData (\<lambda>f. service f req) c s)"

definition FilterHandler_Detect :: "('d, 'r) http_deps \<Rightarrow> ('l, 'd, 'r) http_handler" where
  "FilterHandler_Detect dp =
     FilterHandler_with dp (Service_Detect (dp_unicode (hd_words dp)) (dp_client (hd_words dp)) (hd_codec dp) (hd_clock dp))"

definition FilterHandler_Replace :: "('d, 'r) http_deps \<Rightarrow> ('l, 'd, 'r) http_handler" where
  "FilterHandler_Replace dp =
     FilterHandler_with dp (Service_Replace (dp_unicode (hd_words dp)) (dp_client (hd_words dp)) (hd_codec dp) (hd_clock dp))"

definition FilterHandler_Highlight :: "('d, 'r) http_deps \<Rightarrow> ('l, 'd, 'r) http_handler" where
  "FilterHandler_Highlight dp =
     FilterHandler_with dp (Service_Highlight (dp_unicode (hd_words dp)) (dp_client (hd_words dp)) (hd_codec dp) (hd_clock dp))"

definition FilterHandler_BatchDetect :: "('d, 'r) http_deps \<Rightarrow> ('l, 'd, 'r) http_handler" where
  "FilterHandler_BatchDetect dp rq c s =
     (case ShouldBindJSON (hd_decode_batch dp) BatchFilterRequest_valid (hd_invalid dp) rq c of
        Inl err \<Rightarrow> finish (BadRequest err c) s
      | Inr req \<Rightarrow>
          on_filter BatchData
            (\<lambda>f. BatchDetect (batch_filter (dp_unicode (hd_words dp)) (dp_client (hd_words dp)) (hd_codec dp) (hd_clock dp))
              (hd_cpus dp) (hd_moves dp) (hd_ctx dp) f req) c s)"

text \<open>The state as the word service sees it, and back.\<close>

definition word_view :: "('d, 'r) app \<Rightarrow> ('d, 'r) word_state" where
  "word_view a = \<lparr>st_db = ap_db a, st_cache = fa_cache (ap_filter a)\<rparr>"

definition put_view :: "('d, 'r) word_state \<Rightarrow> ('l, ('d, 'r) app) server \<Rightarrow> ('l, ('d, 'r) app) server" where
  "put_view w s = s\<lparr>sv_app := \<lparr>ap_db = st_db w, ap_filter = (ap_filter (sv_app s))\<lparr>fa_cache := st_cache w\<rparr>\<rparr>\<rparr>"

definition WordHandler_Create :: "('d, 'r) http_deps \<Rightarrow> ('l, 'd, 'r) http_handler" where
  "WordHandler_Create dp rq c s =
     (case ShouldBindJSON (hd_decode_create dp) CreateWordRequest_valid (hd_invalid dp) rq c of
        Inl err \<Rightarrow> finish (BadRequest err c) s
      | Inr req \<Rightarrow>
          (case Word_Create (hd_words dp) req (word_view (sv_app s)) of
             None \<Rightarrow> None
           | Some (Inl err, w) \<Rightarrow> finish (Response_Error err c) (put_view w s)
           | Some (Inr result, w) \<Rightarrow>
               finish (gin_JSON 201 (Reply 0 ''created'' (Some (WordData result)) []) c) (put_view w s)))"

definition WordHandler_Get :: "('d, 'r) http_deps \<Rightarrow> ('l, 'd, 'r) http_handler" where
  "WordHandler_Get dp rq c s =
     (case ParseUint (get_string (rq_Param rq) ''id'') of
        Inl err \<Rightarrow> finish (BadRequest err c) s
      | Inr i \<Rightarrow>
          (case Word_Get (hd_words dp) i (word_view (sv_app s)) of
             Inl err \<Rightarrow> finish (Response_Error err c) s
           | Inr result \<Rightarrow> finish (Success (Some (WordData result)) c) s))"

definition WordHandler_Update :: "('d, 'r) http_deps \<Rightarrow> ('l, 'd, 'r) http_handler" where
  "WordHandler_Update dp rq c s =
     (case ParseUint (get_string (rq_Param rq) ''id'') of
        Inl err \<Rightarrow> finish (BadRequest err c) s
      | Inr i \<Rightarrow>
          (case ShouldBindJSON (hd_decode_update dp) UpdateWordRequest_valid (hd_invalid dp) rq c of
             Inl err \<Rightarrow> finish (BadRequest err c) s
           | Inr req \<Rightarrow>
               (case Word_Update (hd_words dp) i req (word_view (sv_app s)) of
                  None \<Rightarrow> None
                | Some (Inl err, w) \<Rightarrow> finish (Response_Error err c) (put_view w s)
                | Some (Inr result, w) \<Rightarrow> finish (Success (Some (WordData result)) c) (put_view w s))))"

definition WordHandler_Delete :: "('d, 'r) http_deps \<Rightarrow> ('l, 'd, 'r) http_handler" where
  "WordHandler_Delete dp rq c s =
     (case ParseUint (get_string (rq_Param rq) ''id'') of
        Inl err \<Rightarrow> finish (BadRequest err c) s
      | Inr i \<Rightarrow>
          (case Word_Delete (hd_words dp) i (word_view (sv_app s)) of
             None \<Rightarrow> None
           | Some (Some err, w) \<Rightarrow> finish (Response_Error err c) (put_view w s)
           | Some (None, w) \<Rightarrow> finish (Success None c) (put_view w s)))"

definition WordHandler_List :: "('d, 'r) http_deps \<Rightarrow> ('l, 'd, 'r) http_handler" where
  "WordHandler_List dp rq c s =
     (case (case hd_decode_list dp (rq_Query rq) of
              Inl err \<Rightarrow> Inl err
            | Inr r \<Rightarrow> (if WordListRequest_valid r then Inr r else Inl (hd_invalid dp))) of
        Inl err \<Rightarrow> finish (BadRequest err c) s
      | Inr req0 \<Rightarrow>
          (let req1 = (if lr_Page req0 = 0 then req0\<lparr>lr_Page := 1\<rparr> else req0);
               req = (if lr_PageSize req1 = 0 then req1\<lparr>lr_PageSize := 20\<rparr> else req1)
           in case Word_List (hd_words dp) req (word_view (sv_app s)) of
                Inl err \<Rightarrow> finish (Response_Error err c) s
              | Inr result \<Rightarrow> finish (Success (Some (WordListData result)) c) s))"

definition WordHandler_Import :: "('d, 'r) http_deps \<Rightarrow> ('l, 'd, 'r) http_handler" where
  "WordHandler_Import dp rq c s =
     (case ShouldBindJSON (hd_decode_import dp) ImportRequest_valid (hd_invalid dp) rq c of
        Inl err \<Rightarrow> finish (BadRequest err c) s
      | Inr req \<Rightarrow>
          (case Word_Import (hd_words dp) req (word_view (sv_app s)) of
             None \<Rightarrow> None
           | Some (Inl err, w) \<Rightarrow> finish (Response_Error err c) (put_view w s)
           | Some (Inr result, w) \<Rightarrow> finish (Success (Some (ImportData result)) c) (put_view w s)))"

text \<open>The export writes to the response as it goes; its error is dropped.\<close>

definition WordHandler_Export :: "('d, 'r) http_deps \<Rightarrow> ('l, 'd, 'r) http_handler" where
  "WordHandler_Export dp rq c s =
     (let category = get_string (rq_Query rq) ''category'';
          c1 = gin_Header ''Content-Disposition'' ''attachment; filename=sensitive_words.csv''
                 (gin_Header ''Content-Type'' ''text/csv; charset=utf-8'' c);
          c2 = (if gn_written c1 then c1 else c1\<lparr>gn_status := 200\<rparr>);
          (err, out) = ExportToWriter (hd_words dp) (hd_write dp) category [] (word_view (sv_app s))
      in finish (c2\<lparr>gn_written := True, gn_body := gn_body c2 @ [Bare (CsvData out)]\<rparr>) s)"

definition Liveness :: "('l, 'd, 'r) http_handler" where
  "Liveness rq c s = finish (gin_JSON 200 (Bare (HealthData ''alive'' [])) c) s"

definition Readiness :: "('d, 'r) http_deps \<Rightarrow> ('l, 'd, 'r) http_handler" where
  "Readiness dp rq c s =
     (if hd_db dp \<noteq> None
      then finish (gin_JSON 503 (Bare (HealthData ''not ready'' ''database unavailable'')) c) s
      else if hd_db_ping dp \<noteq> None
      then finish (gin_JSON 503 (Bare (HealthData ''not ready'' ''database ping failed'')) c) s
      else if hd_redis_ping dp \<noteq> None
      then finish (gin_JSON 503 (Bare (HealthData ''not ready'' ''redis ping failed'')) c) s
      else finish (gin_JSON 200 (Bare (ReadyData ''ready'' (EngineWordCount (ap_filter (sv_app s))))) c) s)"

section \<open>The router\<close>

text \<open>What the middlewares take from the configuration.\<close>

record mw_config =
  mc_MaxBodySize :: int
  mc_AllowedOrigins :: "gostring list"
  mc_SampleRate_positive :: bool
  mc_APIKeys :: "gostring list"

datatype route =
    Healthz | Readyz | MetricsPage | NoRoute
  | FilterDetect | FilterReplace | FilterHighlight | FilterBatch
  | WordsList | WordsCreate | WordsGet | WordsUpdate | WordsDelete | WordsImport | WordsExport

text \<open>
  The recovery comes first; the request log and the HTTP metrics do not change
  what is answered (theory \<open>Observers\<close>) and are left out here. The page of the
  metrics is Prometheus's handler, a parameter.
\<close>

definition global_chain :: "unicode_data \<Rightarrow> mw_config \<Rightarrow> ('p, 'l, 't) handler \<Rightarrow> ('p, 'l, 't) handler" where
  "global_chain u cfg h =
     recoveryMiddleware u
      (requestIDMiddleware
       (bodyLimitMiddleware (mc_MaxBodySize cfg)
        (corsMiddleware (mc_AllowedOrigins cfg)
         (tracingMiddleware (mc_SampleRate_positive cfg) h))))"

definition api_chain :: "'l rate_library \<Rightarrow> mw_config \<Rightarrow> ('p, 'l, 't) handler \<Rightarrow> ('p, 'l, 't) handler" where
  "api_chain rl cfg h = rateLimitMiddleware rl (authMiddleware (mc_APIKeys cfg) h)"

definition is_api :: "route \<Rightarrow> bool" where
  "is_api r \<longleftrightarrow> r \<notin> {Healthz, Readyz, MetricsPage, NoRoute}"

definition endpoint :: "('d, 'r) http_deps \<Rightarrow> ('l, 'd, 'r) http_handler \<Rightarrow> route \<Rightarrow> ('l, 'd, 'r) http_handler" where
  "endpoint dp prom r =
     (case r of
        Healthz \<Rightarrow> Liveness | Readyz \<Rightarrow> Readiness dp | MetricsPage \<Rightarrow> prom
      | NoRoute \<Rightarrow> (\<lambda>rq c s. finish (gin_JSON 404 (Bare (TextData ''404 page not found'')) c) s)
      | FilterDetect \<Rightarrow> FilterHandler_Detect dp | FilterReplace \<Rightarrow> FilterHandler_Replace dp
      | FilterHighlight \<Rightarrow> FilterHandler_Highlight dp | FilterBatch \<Rightarrow> FilterHandler_BatchDetect dp
      | WordsList \<Rightarrow> WordHandler_List dp | WordsCreate \<Rightarrow> WordHandler_Create dp
      | WordsGet \<Rightarrow> WordHandler_Get dp | WordsUpdate \<Rightarrow> WordHandler_Update dp
      | WordsDelete \<Rightarrow> WordHandler_Delete dp | WordsImport \<Rightarrow> WordHandler_Import dp
      | WordsExport \<Rightarrow> WordHandler_Export dp)"

definition NewRouter ::
  "'l rate_library \<Rightarrow> mw_config \<Rightarrow> ('d, 'r) http_deps \<Rightarrow> ('l, 'd, 'r) http_handler \<Rightarrow> route \<Rightarrow>
   ('l, 'd, 'r) http_handler" where
  "NewRouter rl cfg dp prom r =
     global_chain (dp_unicode (hd_words dp)) cfg
       (if is_api r then api_chain rl cfg (endpoint dp prom r) else endpoint dp prom r)"

section \<open>What a request can change\<close>

text \<open>A handler keeps a condition on what the program works on, whatever it does to the limiter.\<close>

definition keeps :: "('t \<Rightarrow> bool) \<Rightarrow> ('p, 'l, 't) handler \<Rightarrow> bool" where
  "keeps P h \<longleftrightarrow> (\<forall>rq c s p c' s'. P (sv_app s) \<longrightarrow> h rq c s = Some (p, c', s') \<longrightarrow> P (sv_app s'))"

lemma keepsI:
  "(\<And>rq c s p c' s'. P (sv_app s) \<Longrightarrow> h rq c s = Some (p, c', s') \<Longrightarrow> P (sv_app s')) \<Longrightarrow> keeps P h"
  unfolding keeps_def by blast

lemma keepsD: "keeps P h \<Longrightarrow> h rq c s = Some (p, c', s') \<Longrightarrow> P (sv_app s) \<Longrightarrow> P (sv_app s')"
  unfolding keeps_def by blast

lemma keeps_recovery: "keeps P h \<Longrightarrow> keeps P (recoveryMiddleware u h)"
  by (rule keepsI) (auto simp: recoveryMiddleware_def split: option.splits if_splits dest: keepsD)

lemma keeps_requestID: "keeps P h \<Longrightarrow> keeps P (requestIDMiddleware h)"
  by (rule keepsI) (auto simp: requestIDMiddleware_def Let_def dest: keepsD)

lemma keeps_bodyLimit: "keeps P h \<Longrightarrow> keeps P (bodyLimitMiddleware n h)"
  by (rule keepsI) (auto simp: bodyLimitMiddleware_def split: if_splits dest: keepsD)

lemma keeps_cors: "keeps P h \<Longrightarrow> keeps P (corsMiddleware xs h)"
  by (rule keepsI) (auto simp: corsMiddleware_def Let_def split: if_splits prod.splits dest: keepsD)

lemma keeps_tracing: "keeps P h \<Longrightarrow> keeps P (tracingMiddleware b h)"
  by (rule keepsI) (auto simp: tracingMiddleware_def split: if_splits option.splits dest: keepsD)

lemma keeps_rateLimit: "keeps P h \<Longrightarrow> keeps P (rateLimitMiddleware rl h)"
  by (rule keepsI) (auto simp: rateLimitMiddleware_def Let_def split: if_splits prod.splits dest: keepsD)

lemma keeps_auth: "keeps P h \<Longrightarrow> keeps P (authMiddleware ks h)"
  by (rule keepsI) (auto simp: authMiddleware_def Let_def split: if_splits dest: keepsD)

lemmas keeps_chain =
  keeps_recovery keeps_requestID keeps_bodyLimit keeps_cors keeps_tracing keeps_rateLimit keeps_auth

text \<open>The table is reached by word requests only.\<close>

definition db_valid ::
  "unicode_data \<Rightarrow> ('d \<Rightarrow> SensitiveWordModel list) \<Rightarrow> ('d, 'r) app \<Rightarrow> bool" where
  "db_valid u rows a \<longleftrightarrow> table_valid u (rows (ap_db a))"

lemma word_view_db [simp]: "st_db (word_view a) = ap_db a" by (simp add: word_view_def)

lemma put_view_db [simp]: "ap_db (sv_app (put_view w s)) = st_db w" by (simp add: put_view_def)

lemma on_filter_db: "on_filter f call c s = Some (p, c', s') \<Longrightarrow> ap_db (sv_app s') = ap_db (sv_app s)"
  by (auto simp: on_filter_def finish_def Let_def split: option.splits sum.splits)

lemma filter_handlers_db:
  "FilterHandler_Detect dp rq c s = Some (p, c', s') \<Longrightarrow> ap_db (sv_app s') = ap_db (sv_app s)"
  "FilterHandler_Replace dp rq c s = Some (p, c', s') \<Longrightarrow> ap_db (sv_app s') = ap_db (sv_app s)"
  "FilterHandler_Highlight dp rq c s = Some (p, c', s') \<Longrightarrow> ap_db (sv_app s') = ap_db (sv_app s)"
  "FilterHandler_BatchDetect dp rq c s = Some (p, c', s') \<Longrightarrow> ap_db (sv_app s') = ap_db (sv_app s)"
  by (auto simp: FilterHandler_Detect_def FilterHandler_Replace_def FilterHandler_Highlight_def
      FilterHandler_with_def FilterHandler_BatchDetect_def finish_def split: sum.splits dest: on_filter_db)

lemma reading_handlers_db:
  "WordHandler_Get dp rq c s = Some (p, c', s') \<Longrightarrow> s' = s"
  "WordHandler_List dp rq c s = Some (p, c', s') \<Longrightarrow> s' = s"
  "WordHandler_Export dp rq c s = Some (p, c', s') \<Longrightarrow> s' = s"
  "Liveness rq c s = Some (p, c', s') \<Longrightarrow> s' = s"
  "Readiness dp rq c s = Some (p, c', s') \<Longrightarrow> s' = s"
  by (auto simp: WordHandler_Get_def WordHandler_List_def WordHandler_Export_def Liveness_def Readiness_def
      finish_def Let_def split: sum.splits prod.splits if_splits)

lemma writing_handlers_request:
  "WordHandler_Create dp rq c s = Some (p, c', s') \<Longrightarrow>
     s' = s \<or> (\<exists>w. word_request (hd_words dp) (word_view (sv_app s)) w \<and> s' = put_view w s)"
  "WordHandler_Update dp rq c s = Some (p, c', s') \<Longrightarrow>
     s' = s \<or> (\<exists>w. word_request (hd_words dp) (word_view (sv_app s)) w \<and> s' = put_view w s)"
  "WordHandler_Delete dp rq c s = Some (p, c', s') \<Longrightarrow>
     s' = s \<or> (\<exists>w. word_request (hd_words dp) (word_view (sv_app s)) w \<and> s' = put_view w s)"
  "WordHandler_Import dp rq c s = Some (p, c', s') \<Longrightarrow>
     s' = s \<or> (\<exists>w. word_request (hd_words dp) (word_view (sv_app s)) w \<and> s' = put_view w s)"
  by (auto simp: WordHandler_Create_def WordHandler_Update_def WordHandler_Delete_def WordHandler_Import_def
      finish_def split: sum.splits option.splits prod.splits intro: word_request.intros)

lemma endpoint_keeps_db:
  assumes "write_ok (dp_gorm (hd_words dp)) rows" "read_ok (dp_gorm (hd_words dp)) like rows"
    and "keeps (db_valid (dp_unicode (hd_words dp)) rows) prom"
  shows "keeps (db_valid (dp_unicode (hd_words dp)) rows) (endpoint dp prom r)"
proof (rule keepsI)
  fix rq c p c' and s s' :: "('c, ('a, 'b) app) server"
  let ?u = "dp_unicode (hd_words dp)"
  assume v: "db_valid ?u rows (sv_app s)" and h: "endpoint dp prom r rq c s = Some (p, c', s')"
  have wr: "db_valid ?u rows (sv_app s')"
    if "s' = s \<or> (\<exists>w. word_request (hd_words dp) (word_view (sv_app s)) w \<and> s' = put_view w s)"
    using that v word_request_valid [OF assms(1,2)] by (auto simp: db_valid_def)
  have same: "db_valid ?u rows (sv_app s')" if "ap_db (sv_app s') = ap_db (sv_app s)"
    using that v by (simp add: db_valid_def)
  from h show "db_valid ?u rows (sv_app s')"
  proof (cases r)
    case MetricsPage
    with h v show ?thesis using keepsD [OF assms(3)] by (simp add: endpoint_def)
  next
    case NoRoute
    with h v show ?thesis by (auto simp: endpoint_def finish_def)
  qed (use h in \<open>auto simp: endpoint_def intro: same wr
      dest: filter_handlers_db reading_handlers_db writing_handlers_request\<close>)
qed

text \<open>A sequence of requests, each with what it meets of its surroundings.\<close>

fun server_run ::
  "'l rate_library \<Rightarrow> mw_config \<Rightarrow> ('l, 'd, 'r) http_handler \<Rightarrow>
   (('d, 'r) http_deps \<times> route \<times> http_request) list \<Rightarrow> ('l, ('d, 'r) app) server \<Rightarrow>
   (payload gin list \<times> ('l, ('d, 'r) app) server) option" where
  "server_run rl cfg prom [] s = Some ([], s)"
| "server_run rl cfg prom ((dp, r, rq) # xs) s =
     (case NewRouter rl cfg dp prom r rq new_gin s of
        None \<Rightarrow> None
      | Some (_, c, s') \<Rightarrow> map_option (\<lambda>(cs, s''). (c # cs, s'')) (server_run rl cfg prom xs s'))"

lemma router_keeps:
  fixes dp :: "('d, 'r) http_deps" and prom :: "('l, 'd, 'r) http_handler"
  assumes "keeps P (endpoint dp prom r)"
  shows "keeps P (NewRouter rl cfg dp prom r)"
proof -
  have "NewRouter rl cfg dp prom r = global_chain (dp_unicode (hd_words dp)) cfg
      (if is_api r then api_chain rl cfg (endpoint dp prom r) else endpoint dp prom r)"
    by (intro ext) (simp add: NewRouter_def)
  moreover have "keeps P (global_chain u cfg h)" if "keeps P h" for u and h :: "(payload, 'l, ('d, 'r) app) handler"
  proof -
    have "global_chain u cfg h = recoveryMiddleware u (requestIDMiddleware (bodyLimitMiddleware (mc_MaxBodySize cfg)
        (corsMiddleware (mc_AllowedOrigins cfg) (tracingMiddleware (mc_SampleRate_positive cfg) h))))"
      by (simp add: global_chain_def)
    with that show ?thesis by (simp add: keeps_chain)
  qed
  ultimately show ?thesis using assms by (simp add: api_chain_def keeps_chain)
qed

lemma router_keeps_db:
  assumes "write_ok (dp_gorm (hd_words dp)) rows" "read_ok (dp_gorm (hd_words dp)) like rows"
    and "keeps (db_valid (dp_unicode (hd_words dp)) rows) prom"
  shows "keeps (db_valid (dp_unicode (hd_words dp)) rows) (NewRouter rl cfg dp prom r)"
  by (rule router_keeps [OF endpoint_keeps_db [OF assms]])

text \<open>
  Claim C32. No request can break the table: whatever requests arrive on whatever routes, with whatever
  headers and bodies, well-formed or not, authorised or not, and whatever decoding, the client
  and the cache do, every row stays a valid word in normal form and ids stay distinct.
\<close>

theorem no_request_breaks_the_table:
  assumes "server_run rl cfg prom xs s = Some (cs, s')"
    and "\<forall>(dp, r, rq) \<in> set xs. write_ok (dp_gorm (hd_words dp)) rows \<and>
      read_ok (dp_gorm (hd_words dp)) like rows \<and> dp_unicode (hd_words dp) = u"
    and "keeps (db_valid u rows) prom" and "table_valid u (rows (ap_db (sv_app s)))"
  shows "table_valid u (rows (ap_db (sv_app s')))"
  using assms
proof (induction xs arbitrary: s cs)
  case Nil
  then show ?case by simp
next
  case (Cons x xs)
  obtain dp r rq where x: "x = (dp, r, rq)" by (cases x)
  obtain p c s1 cs1 where r: "NewRouter rl cfg dp prom r rq new_gin s = Some (p, c, s1)"
    "server_run rl cfg prom xs s1 = Some (cs1, s')"
    using Cons.prems(1) by (auto simp: x split: option.splits)
  have "write_ok (dp_gorm (hd_words dp)) rows" "read_ok (dp_gorm (hd_words dp)) like rows"
    "dp_unicode (hd_words dp) = u" using Cons.prems(2) by (simp_all add: x)
  with router_keeps_db [of dp rows like prom rl cfg r] Cons.prems(3,4) keepsD [where h = "NewRouter rl cfg dp prom r", OF _ r(1)]
  have "table_valid u (rows (ap_db (sv_app s1)))" by (metis db_valid_def)
  with Cons.IH [OF r(2) _ Cons.prems(3)] Cons.prems(2) show ?case by simp
qed

section \<open>Numbers in paths, once more\<close>

definition decimal_value :: "gostring \<Rightarrow> nat" where
  "decimal_value s = foldl (\<lambda>n c. n * 10 + digit_of c) 0 s"

lemma foldl_grows: "m \<le> foldl (\<lambda>n c. n * 10 + digit_of c) m s"
proof (induction s arbitrary: m)
  case (Cons c cs)
  have "m \<le> m * 10 + digit_of c" by simp
  also have "\<dots> \<le> foldl (\<lambda>n c. n * 10 + digit_of c) m (c # cs)" using Cons by simp
  finally show ?case .
qed simp

lemma parse_loop_value:
  "(\<exists>n. parse_loop s m = Inr n) \<longleftrightarrow>
     list_all is_digit s \<and> (s = [] \<or> foldl (\<lambda>n c. n * 10 + digit_of c) m s < 2 ^ 64)"
  "parse_loop s m = Inr n \<Longrightarrow> n = foldl (\<lambda>n c. n * 10 + digit_of c) m s"
proof (induction s arbitrary: m)
  case (Cons c cs)
  { case 1
    show ?case
    proof (cases "is_digit c \<and> m * 10 + digit_of c < 2 ^ 64")
      case True
      then show ?thesis using Cons.IH(1) [of "m * 10 + digit_of c"] by (cases cs) (auto simp: not_le)
    next
      case False
      then show ?thesis using foldl_grows [of "m * 10 + digit_of c" cs] by (auto simp: not_le not_less)
    qed
  next
    case 2
    then show ?case using Cons.IH(2) by (auto split: if_splits) }
qed simp_all

lemma digit_of_digit36: "n < 10 \<Longrightarrow> is_digit (digit36 n) \<and> digit_of (digit36 n) = n"
  by (simp add: is_digit_def digit_of_def digit36_def)

lemma format10_digits: "list_all is_digit (format10 n) \<and> format10 n \<noteq> [] \<and> decimal_value (format10 n) = n"
proof (induction n rule: format10.induct)
  case (1 n)
  then show ?case
    by (subst (1 2 3) format10.simps) (auto simp: digit_of_digit36 decimal_value_def)
qed

text \<open>
  The id of a path is read exactly: \<open>ParseUint\<close> accepts the texts that are decimal digits, at
  least one, with a value below \<open>2 ^ 64\<close>, and returns that value; so the decimal notation of every
  id reads back as the id.
\<close>

theorem ParseUint_reads_decimals:
  "(\<forall>s. (\<exists>i. ParseUint s = Inr i) \<longleftrightarrow> s \<noteq> [] \<and> list_all is_digit s \<and> decimal_value s < 2 ^ 64) \<and>
   (\<forall>s i. ParseUint s = Inr i \<longrightarrow> unat i = decimal_value s) \<and>
   (\<forall>i. ParseUint (Itoa (uint i)) = Inr i)"
proof (intro conjI allI impI)
  have ok: "(\<exists>i. ParseUint s = Inr i) \<longleftrightarrow> s \<noteq> [] \<and> list_all is_digit s \<and> decimal_value s < 2 ^ 64" for s
    using parse_loop_value(1) [of s 0] by (auto simp: ParseUint_def decimal_value_def split: sum.splits)
  have val: "unat i = decimal_value s" if p: "ParseUint s = Inr i" for s i
  proof -
    have "decimal_value s < 2 ^ 64" using ok p by blast
    moreover have "i = of_nat (decimal_value s)"
      using p parse_loop_value(2) [of s 0] by (auto simp: ParseUint_def decimal_value_def split: sum.splits if_splits)
    ultimately show ?thesis by (simp add: unat_of_nat)
  qed
  show "(\<exists>i. ParseUint s = Inr i) \<longleftrightarrow> s \<noteq> [] \<and> list_all is_digit s \<and> decimal_value s < 2 ^ 64" for s by (rule ok)
  show "ParseUint s = Inr i \<Longrightarrow> unat i = decimal_value s" for s i by (rule val)
  show "ParseUint (Itoa (uint i)) = Inr i" for i :: "64 word"
  proof -
    have n: "Itoa (uint i) = format10 (unat i)" by (simp add: Itoa_def)
    have "unat i < 2 ^ 64" using unsigned_less [of i, where ?'a = nat] by simp
    then obtain j where j: "ParseUint (Itoa (uint i)) = Inr j" using ok format10_digits n by metis
    with val [OF j] format10_digits [of "unat i"] n show ?thesis by (simp add: word_unat_eq_iff)
  qed
qed

theorem ParseUint_reads_decimals_witness: "decimal_value ''42'' = 42"
proof -
  have "ParseUint ''42'' = Inr 42" by (simp add: ParseUint_def is_digit_def digit_of_def)
  from ParseUint_reads_decimals [THEN conjunct2, THEN conjunct1, rule_format, OF this] show ?thesis by simp
qed

section \<open>Authorisation\<close>

text \<open>A handler that answers a request itself, before anything was written, and leaves the program alone.\<close>

definition answers_itself :: "('p gin \<Rightarrow> bool) \<Rightarrow> http_request \<Rightarrow> ('p, 'l, 't) handler \<Rightarrow> bool" where
  "answers_itself R rq h \<longleftrightarrow> (\<forall>c s. \<not> gn_written c \<and> gn_body c = [] \<longrightarrow>
     (\<exists>c' s'. h rq c s = Some (None, c', s') \<and> sv_app s' = sv_app s \<and> R c'))"

definition denied :: "'p gin \<Rightarrow> bool" where
  "denied c \<longleftrightarrow> gn_status c \<in> {401, 429} \<and> gn_aborted c \<and>
     gn_body c \<in> {[plain_reply 10007 ''rate limit exceeded''],
       [plain_reply 10008 ''unauthorized: invalid or missing X-API-Key header'']}"

definition preflight :: "http_request \<Rightarrow> 'p gin \<Rightarrow> bool" where
  "preflight rq c \<longleftrightarrow> rq_Method rq = ''OPTIONS'' \<and> gn_status c \<in> {204, 403} \<and> gn_aborted c \<and> gn_body c = []"

lemma header_written [simp]:
  "gn_written (gin_Header k v c) = gn_written c" "gn_body (gin_Header k v c) = gn_body c"
  "gn_written (gin_Set k v c) = gn_written c" "gn_body (gin_Set k v c) = gn_body c"
  "gn_written (cors_headers c) = gn_written c" "gn_body (cors_headers c) = gn_body c"
  by (simp_all add: gin_Header_def gin_Set_def cors_headers_def)

lemma answers_recovery:
  assumes "answers_itself R rq h"
  shows "answers_itself R rq (recoveryMiddleware u h)"
  unfolding answers_itself_def
proof (intro allI impI)
  fix c :: "'a gin" and s :: "('b, 'c) server"
  assume "\<not> gn_written c \<and> gn_body c = []"
  then obtain c' s' where "h rq c s = Some (None, c', s')" "sv_app s' = sv_app s" "R c'"
    using assms unfolding answers_itself_def by blast
  then show "\<exists>c' s'. recoveryMiddleware u h rq c s = Some (None, c', s') \<and> sv_app s' = sv_app s \<and> R c'"
    by (simp add: recoveryMiddleware_def)
qed

lemma answers_requestID: "answers_itself R rq h \<Longrightarrow> answers_itself R rq (requestIDMiddleware h)"
  by (simp add: answers_itself_def requestIDMiddleware_def Let_def)

lemma answers_bodyLimit: "answers_itself R rq h \<Longrightarrow> answers_itself R rq (bodyLimitMiddleware n h)"
  by (simp add: answers_itself_def bodyLimitMiddleware_def)

lemma answers_tracing: "answers_itself R rq h \<Longrightarrow> answers_itself R rq (tracingMiddleware b h)"
  by (auto simp: answers_itself_def tracingMiddleware_def split: option.splits)

lemma answers_cors:
  assumes "answers_itself R rq h"
  shows "answers_itself (\<lambda>c. R c \<or> preflight rq c) rq (corsMiddleware xs h)"
  unfolding answers_itself_def
proof (intro allI impI)
  fix c :: "'a gin" and s :: "('b, 'c) server"
  assume c: "\<not> gn_written c \<and> gn_body c = []"
  have rest: "\<exists>c' s'. h rq c1 s = Some (None, c', s') \<and> sv_app s' = sv_app s \<and> (R c' \<or> preflight rq c')"
    if "\<not> gn_written c1 \<and> gn_body c1 = []" for c1
    using assms that unfolding answers_itself_def by blast
  have stop: "preflight rq (gin_AbortWithStatus st c1)"
    if "rq_Method rq = ''OPTIONS''" "st = 204 \<or> st = 403" "\<not> gn_written c1 \<and> gn_body c1 = []" for st c1
    using that by (auto simp: preflight_def gin_AbortWithStatus_def)
  show "\<exists>c' s'. corsMiddleware xs h rq c s = Some (None, c', s') \<and> sv_app s' = sv_app s \<and> (R c' \<or> preflight rq c')"
    using c by (auto simp: corsMiddleware_def Let_def stop rest split: prod.splits)
qed

lemma answers_api:
  assumes "mc_APIKeys cfg \<noteq> []" "GetHeader rq ''X-API-Key'' \<notin> set (mc_APIKeys cfg)"
  shows "answers_itself denied rq (api_chain rl cfg h)"
  using assms
  by (auto simp: answers_itself_def api_chain_def rateLimitMiddleware_def authMiddleware_def denied_def
      gin_AbortWithStatusJSON_def gin_JSON_def Let_def split: prod.splits)

text \<open>
  Claim C33. No API route is served without a key: when keys are configured and the header is none of
  them, a request on any API route returns without running its handler and with what the program
  works on unchanged. It is answered with the 401 of the authorisation, the 429 of the limiter, or,
  if it is an \<open>OPTIONS\<close> request, by the CORS check with an empty 204 or 403.
\<close>

theorem api_requires_key:
  assumes "is_api r" and "mc_APIKeys cfg \<noteq> []"
    and "GetHeader rq ''X-API-Key'' \<notin> set (mc_APIKeys cfg)"
  shows "\<exists>c s'. NewRouter rl cfg dp prom r rq new_gin s = Some (None, c, s') \<and> sv_app s' = sv_app s \<and>
    (denied c \<or> preflight rq c)"
proof -
  have "answers_itself (\<lambda>c. denied c \<or> preflight rq c) rq (NewRouter rl cfg dp prom r)"
    unfolding NewRouter_def [abs_def] global_chain_def [abs_def] using assms
    by (simp add: answers_recovery answers_requestID answers_bodyLimit answers_cors answers_tracing answers_api
        cong: if_cong)
  then show ?thesis by (auto simp: answers_itself_def new_gin_def)
qed

section \<open>Errors as responses\<close>

lemma put_view_view [simp]: "put_view (word_view (sv_app s)) s = s"
  by (simp add: put_view_def word_view_def)

lemma Word_lookup_error:
  assumes "FindByID (dp_gorm dp) i (st_db w) = Inl err"
  shows "Word_Get dp i w = Inl (not_found err)" "Word_Update dp i req w = Some (Inl (not_found err), w)"
    "Word_Delete dp i w = Some (Some (not_found err), w)"
  using assms by (simp_all add: Word_Get_def Word_Update_def Word_Delete_def)

text \<open>The response to an error that is not a business error, or to a missing word.\<close>

definition lookup_reply :: "error \<Rightarrow> 'p gin \<Rightarrow> 'p gin" where
  "lookup_reply err c =
     (if err = RecordNotFound then gin_JSON 404 (Reply 10002 ''word not found'' None (trace_id c)) c
      else gin_JSON 500 (Reply 10010 ''internal server error'' None (trace_id c)) c)"

lemma Response_not_found:
  "IsBizError err = None \<Longrightarrow> Response_Error (not_found err) c = lookup_reply err c"
  by (auto simp: Response_Error_def not_found_def lookup_reply_def IsBizError_def biz_error_defs
      split: error.splits)

text \<open>
  Errors of the lookup become responses: for a well-formed id and body, when the repository
  fails to find the word, \<open>Get\<close>, \<open>Update\<close> and \<open>Delete\<close> leave everything as it was and answer a missing
  word with 404 and code 10002, and any other failure of the database with 500, code 10010 and a
  fixed message that says nothing of the failure; an id that is no number is answered with 400.
  Nothing the handlers of a route do lets a panic past the router.
\<close>

theorem lookup_errors_become_responses:
  assumes "FindByID (dp_gorm (hd_words dp)) i (ap_db (sv_app s)) = Inl err" and "IsBizError err = None"
    and "ParseUint (get_string (rq_Param rq) ''id'') = Inr i"
    and "ShouldBindJSON (hd_decode_update dp) UpdateWordRequest_valid (hd_invalid dp) rq c = Inr req"
    and "ParseUint (get_string (rq_Param rq') ''id'') = Inl bad"
  shows "WordHandler_Get dp rq c s = Some (None, lookup_reply err c, s) \<and>
    WordHandler_Update dp rq c s = Some (None, lookup_reply err c, s) \<and>
    WordHandler_Delete dp rq c s = Some (None, lookup_reply err c, s) \<and>
    (\<forall>h \<in> {WordHandler_Get dp, WordHandler_Update dp, WordHandler_Delete dp}.
       h rq' c s = Some (None, gin_JSON 400 (Reply 10009 (error_text bad) None (trace_id c)) c, s)) \<and>
    (\<forall>rl cfg prom r rq p c' s'. NewRouter rl cfg dp prom r rq new_gin s = Some (p, c', s') \<longrightarrow> p = None)"
proof -
  have "FindByID (dp_gorm (hd_words dp)) i (st_db (word_view (sv_app s))) = Inl err" using assms(1) by simp
  note e = Word_lookup_error [OF this]
  have "WordHandler_Get dp rq c s = Some (None, lookup_reply err c, s) \<and>
    WordHandler_Update dp rq c s = Some (None, lookup_reply err c, s) \<and>
    WordHandler_Delete dp rq c s = Some (None, lookup_reply err c, s)"
    using assms(2-4) e
    by (simp add: WordHandler_Get_def WordHandler_Update_def WordHandler_Delete_def finish_def Response_not_found)
  moreover have "\<forall>h \<in> {WordHandler_Get dp, WordHandler_Update dp, WordHandler_Delete dp}.
       h rq' c s = Some (None, gin_JSON 400 (Reply 10009 (error_text bad) None (trace_id c)) c, s)"
    using assms(5)
    by (simp add: WordHandler_Get_def WordHandler_Update_def WordHandler_Delete_def finish_def BadRequest_def
        biz_error_defs)
  moreover have "NewRouter rl cfg dp prom r rq new_gin s = Some (p, c', s') \<Longrightarrow> p = None"
    for rl cfg prom r rq p c' s'
    by (auto simp: NewRouter_def global_chain_def recoveryMiddleware_def split: option.splits if_splits)
  ultimately show ?thesis by blast
qed

section \<open>Examples\<close>

definition sample_http :: "(table, (gostring, bytes) gomap) http_deps" where
  "sample_http =
     \<lparr>hd_words = sample_deps, hd_codec = \<lparr>marshal = (\<lambda>_. None), unmarshal = (\<lambda>_. None)\<rparr>,
      hd_clock = \<lparr>ck_start = 0, ck_get = 0, ck_get_later = 0, ck_apply = 0, ck_cost = 0, ck_set = 0, ck_set_later = 0\<rparr>,
      hd_decode_filter = (\<lambda>b more. Inr \<lparr>rq_Text = b, rq_Strategy = []\<rparr>),
      hd_decode_batch = (\<lambda>b more. Inr \<lparr>bq_Texts = [b], bq_Strategy = []\<rparr>),
      hd_decode_create = (\<lambda>b more. Inr (sample_create b)),
      hd_decode_update = (\<lambda>b more. Inr (retag b)),
      hd_decode_import = (\<lambda>b more. Inr \<lparr>im_Words = [sample_create b]\<rparr>),
      hd_decode_list = (\<lambda>q. Inl (PlainError ''query'')), hd_invalid = PlainError ''invalid'',
      hd_cpus = 1, hd_moves = [], hd_ctx = None, hd_db = None, hd_db_ping = None, hd_redis_ping = None,
      hd_write = (\<lambda>b out. (None, out @ b))\<rparr>"

definition sample_server :: "SensitiveWordModel list \<Rightarrow> (int, (table, (gostring, bytes) gomap) app) server" where
  "sample_server rows =
     \<lparr>sv_limiter = newPerClientLimiter 10 10,
      sv_app = \<lparr>ap_db = \<lparr>tb_rows = rows, tb_next = 5, tb_clock = 5000\<rparr>,
        ap_filter = \<lparr>fa_engine = \<lparr>current = \<lparr>heap = [newACNode], wordCount = 0\<rparr>, version = 0\<rparr>,
          fa_strategies = main_strategies, fa_cache = None, fa_hits = []\<rparr>\<rparr>\<rparr>"

definition sample_config :: mw_config where
  "sample_config = \<lparr>mc_MaxBodySize = 10000, mc_AllowedOrigins = [], mc_SampleRate_positive = False,
     mc_APIKeys = [''secret'']\<rparr>"

definition sample_post :: "gostring \<Rightarrow> gostring \<Rightarrow> bytes \<Rightarrow> http_request" where
  "sample_post key i body =
     (sample_request key)\<lparr>rq_Param := [(''id'', i)], rq_Body := Some body, rq_Rand := Some ''xyz''\<rparr>"

definition no_prom :: "('l, 'd, 'r) http_handler" where
  "no_prom rq c s = finish c s"

lemma sample_http_words [simp]: "hd_words sample_http = sample_deps"
  by (simp add: sample_http_def)

lemma no_prom_keeps: "keeps P no_prom"
  by (rule keepsI) (simp add: no_prom_def finish_def)

theorem no_request_breaks_the_table_witness:
  "\<exists>cs s'. server_run counting_bucket sample_config no_prom
      [(sample_http, WordsCreate, sample_post ''secret'' '''' ''spam'')] (sample_server []) = Some (cs, s') \<and>
     map gn_status cs = [201] \<and> table_valid ascii_data (tb_rows (ap_db (sv_app s')))"
proof -
  let ?x = "server_run counting_bucket sample_config no_prom
      [(sample_http, WordsCreate, sample_post ''secret'' '''' ''spam'')] (sample_server [])"
  have "map_option (\<lambda>(cs, s'). map gn_status cs) ?x = Some [201]" by code_simp
  then obtain cs s' where r: "?x = Some (cs, s')" "map gn_status cs = [201]" by auto
  have "table_valid ascii_data (tb_rows (ap_db (sv_app s')))"
    by (rule no_request_breaks_the_table [where like = contains, OF r(1)])
      (simp_all add: table_write_ok table_read_ok no_prom_keeps sample_server_def table_valid_def)
  with r show ?thesis by (intro exI [of _ cs] exI [of _ s'] conjI)
qed

theorem api_requires_key_witness:
  "\<exists>c s'. NewRouter counting_bucket sample_config sample_http no_prom WordsDelete (sample_post ''guess'' ''4'' [])
      new_gin (sample_server [sample_row 4 ''spam'' 7]) = Some (None, c, s') \<and>
    tb_rows (ap_db (sv_app s')) = [sample_row 4 ''spam'' 7] \<and> denied c"
proof -
  have m: "is_api WordsDelete" "mc_APIKeys sample_config \<noteq> []"
    "GetHeader (sample_post ''guess'' ''4'' []) ''X-API-Key'' \<notin> set (mc_APIKeys sample_config)"
    "\<not> preflight (sample_post ''guess'' ''4'' []) c" for c :: "payload gin"
    by (simp_all add: is_api_def sample_config_def sample_post_def sample_request_def GetHeader_def get_string_def
        preflight_def)
  from api_requires_key [OF m(1-3), of counting_bucket sample_http no_prom
      "sample_server [sample_row 4 ''spam'' 7]"] m(4)
  obtain c s' where r: "NewRouter counting_bucket sample_config sample_http no_prom WordsDelete (sample_post ''guess'' ''4'' [])
      new_gin (sample_server [sample_row 4 ''spam'' 7]) = Some (None, c, s')"
    "sv_app s' = sv_app (sample_server [sample_row 4 ''spam'' 7])" "denied c" by blast
  have "tb_rows (ap_db (sv_app s')) = [sample_row 4 ''spam'' 7]" by (simp add: r(2)) (simp add: sample_server_def)
  with r show ?thesis by blast
qed

theorem lookup_errors_become_responses_witness:
  "WordHandler_Delete sample_http (sample_post ''secret'' ''7'' []) new_gin (sample_server []) =
     Some (None, gin_JSON 404 (Reply 10002 ''word not found'' None []) new_gin, sample_server [])"
proof -
  let ?s = "sample_server []"
  have f: "FindByID (dp_gorm (hd_words sample_http)) 7 (ap_db (sv_app ?s)) = Inl RecordNotFound"
    by (simp add: FindByID_def table_gorm_def sample_server_def)
  have i: "ParseUint (get_string (rq_Param (sample_post ''secret'' ''7'' [])) ''id'') = Inr 7"
    by (simp add: ParseUint_def is_digit_def digit_of_def sample_post_def get_string_def)
  have b: "ShouldBindJSON (hd_decode_update sample_http) UpdateWordRequest_valid (hd_invalid sample_http)
      (sample_post ''secret'' ''7'' []) (new_gin :: payload gin) = Inr (retag [])" by code_simp
  have bad: "ParseUint (get_string (rq_Param (sample_post ''secret'' ''x'' [])) ''id'') =
      Inl (num_error ''x'' ''invalid syntax'')"
    by (simp add: ParseUint_def is_digit_def sample_post_def get_string_def)
  have "trace_id (new_gin :: payload gin) = []" by (simp add: trace_id_def new_gin_def get_string_def)
  with lookup_errors_become_responses [OF f _ i b bad] show ?thesis by (simp add: lookup_reply_def IsBizError_def)
qed

end
