(* ===== verification/Grpc.thy ===== *)
theory Grpc
  imports Middleware Batch
begin

text \<open>
  \<open>internal/interfaces/grpc\<close>: the filter service over gRPC with its conversion to the messages of
  the protocol, whose counts are 32-bit integers, and the interceptors in the order of
  \<open>cmd/server/main.go\<close>. The generated code and the gRPC library are not in scope; a call is a
  function of its context, its request and the state of the server.
\<close>

section \<open>Messages\<close>

record ProtoMatchItem =
  pm_Word :: gostring
  pm_Position :: "32 word"
  pm_EndPosition :: "32 word"
  pm_Category :: gostring
  pm_Level :: "32 word"

record ProtoFilterResponse =
  pf_Original :: gostring
  pf_Filtered :: gostring
  pf_IsHit :: bool
  pf_HitCount :: "32 word"
  pf_Matches :: "ProtoMatchItem list"
  pf_RiskLevel :: "32 word"
  pf_CostMs :: int

record ProtoBatchResponse =
  pb_Results :: "ProtoFilterResponse list"
  pb_Total :: "32 word"
  pb_HitNum :: "32 word"

text \<open>The conversion \<open>int32(x)\<close>, which keeps the low 32 bits.\<close>

definition to_int32 :: "int \<Rightarrow> 32 word" where
  "to_int32 x = word_of_int x"

definition toProtoMatch :: "MatchDTO \<Rightarrow> ProtoMatchItem" where
  "toProtoMatch m =
     \<lparr>pm_Word = md_Word m, pm_Position = to_int32 (md_Position m), pm_EndPosition = to_int32 (md_EndPos m),
      pm_Category = md_Category m, pm_Level = to_int32 (md_Level m)\<rparr>"

definition toProtoResponse :: "FilterResponse option \<Rightarrow> ProtoFilterResponse" where
  "toProtoResponse x =
     (case x of
        None \<Rightarrow> \<lparr>pf_Original = [], pf_Filtered = [], pf_IsHit = False, pf_HitCount = 0, pf_Matches = [],
          pf_RiskLevel = 0, pf_CostMs = 0\<rparr>
      | Some r \<Rightarrow> \<lparr>pf_Original = rp_Original r, pf_Filtered = rp_Filtered r, pf_IsHit = rp_IsHit r,
          pf_HitCount = to_int32 (rp_HitCount r), pf_Matches = map toProtoMatch (rp_Matches r),
          pf_RiskLevel = to_int32 (rp_RiskLevel r), pf_CostMs = rp_CostMs r\<rparr>)"

section \<open>The service\<close>

datatype rpc_code = InvalidArgument | Internal | Unauthenticated | ResourceExhausted

text \<open>\<open>status.Error(code, message)\<close>; a response is the other side of the sum.\<close>

type_synonym rpc_status = "rpc_code \<times> gostring"

text \<open>How a method answers the outcome \<open>x\<close> of a call of the filter service.\<close>

definition rpc_outcome ::
  "gostring \<Rightarrow> ('a \<Rightarrow> 'b) \<Rightarrow> ('a result \<times> 's) option \<Rightarrow> ((rpc_status + 'b) \<times> 's) option" where
  "rpc_outcome what convert x =
     (case x of
        None \<Rightarrow> None
      | Some (Inl err, s') \<Rightarrow> Some (Inl (Internal, what @ '': '' @ error_text err), s')
      | Some (Inr result, s') \<Rightarrow> Some (Inr (convert result), s'))"

definition Grpc_Detect ::
  "unicode_data \<Rightarrow> 'r redis_client \<Rightarrow> codec \<Rightarrow> filter_clock \<Rightarrow> 'r FilterAppService \<Rightarrow> gostring \<Rightarrow>
   ((rpc_status + ProtoFilterResponse) \<times> 'r FilterAppService) option" where
  "Grpc_Detect u client js ck s tx =
     (if tx = [] then Some (Inl (InvalidArgument, ''text is required''), s)
      else rpc_outcome ''filter error'' (\<lambda>r. toProtoResponse (Some r))
        (Service_Detect u client js ck s \<lparr>rq_Text = tx, rq_Strategy = []\<rparr>))"

definition Grpc_Replace ::
  "unicode_data \<Rightarrow> 'r redis_client \<Rightarrow> codec \<Rightarrow> filter_clock \<Rightarrow> 'r FilterAppService \<Rightarrow> gostring \<Rightarrow>
   ((rpc_status + ProtoFilterResponse) \<times> 'r FilterAppService) option" where
  "Grpc_Replace u client js ck s tx =
     (if tx = [] then Some (Inl (InvalidArgument, ''text is required''), s)
      else rpc_outcome ''filter error'' (\<lambda>r. toProtoResponse (Some r))
        (Service_Replace u client js ck s \<lparr>rq_Text = tx, rq_Strategy = []\<rparr>))"

definition toProtoBatch :: "BatchFilterResponse \<Rightarrow> ProtoBatchResponse" where
  "toProtoBatch r =
     \<lparr>pb_Results = map toProtoResponse (br_Results r), pb_Total = to_int32 (br_Total r),
      pb_HitNum = to_int32 (br_HitNum r)\<rparr>"

definition Grpc_BatchDetect ::
  "unicode_data \<Rightarrow> 'r redis_client \<Rightarrow> codec \<Rightarrow> filter_clock \<Rightarrow> nat \<Rightarrow> batch_move list \<Rightarrow> error option \<Rightarrow>
   'r FilterAppService \<Rightarrow> gostring list \<Rightarrow> ((rpc_status + ProtoBatchResponse) \<times> 'r FilterAppService) option" where
  "Grpc_BatchDetect u client js ck cpus moves ctx_err s texts =
     (if length texts = 0 then Some (Inl (InvalidArgument, ''texts is required''), s)
      else rpc_outcome ''batch filter error'' toProtoBatch
        (BatchDetect (batch_filter u client js ck) cpus moves ctx_err s \<lparr>bq_Texts = texts, bq_Strategy = []\<rparr>))"

section \<open>Interceptors\<close>

text \<open>
  What a call carries besides its request: the metadata, absent where the context has none, with
  the values of every key, and the time. A handler returns or panics, in either case with a state.
\<close>

record rpc_context =
  rc_metadata :: "(gostring, gostring list) gomap option"
  rc_now :: instant

record ('l, 't) rpc_server =
  rs_limiter :: 'l
  rs_app :: 't

datatype ('q, 'p) rpc_result = Returned "rpc_status + 'p" | Panicked

type_synonym ('q, 'p, 'l, 't) rpc_handler =
  "rpc_context \<Rightarrow> 'q \<Rightarrow> ('l, 't) rpc_server \<Rightarrow> (('q, 'p) rpc_result \<times> ('l, 't) rpc_server) option"

definition RecoveryInterceptor :: "('q, 'p, 'l, 't) rpc_handler \<Rightarrow> ('q, 'p, 'l, 't) rpc_handler" where
  "RecoveryInterceptor h ctx req s =
     (case h ctx req s of
        None \<Rightarrow> None
      | Some (Panicked, s') \<Rightarrow> Some (Returned (Inl (Internal, ''internal server error'')), s')
      | Some (Returned x, s') \<Rightarrow> Some (Returned x, s'))"

definition AuthInterceptor :: "gostring list \<Rightarrow> ('q, 'p, 'l, 't) rpc_handler \<Rightarrow> ('q, 'p, 'l, 't) rpc_handler" where
  "AuthInterceptor apiKeys h ctx req s =
     (let keySet = key_set apiKeys in
      if length keySet = 0 then h ctx req s
      else case rc_metadata ctx of
          None \<Rightarrow> Some (Returned (Inl (Unauthenticated, ''missing metadata'')), s)
        | Some md \<Rightarrow>
            (let keys = (case map_of md ''x-api-key'' of Some ks \<Rightarrow> ks | None \<Rightarrow> [])
             in if length keys = 0 \<or> \<not> set_has keySet (keys ! 0)
                then Some (Returned (Inl (Unauthenticated, ''invalid or missing x-api-key'')), s)
                else h ctx req s))"

text \<open>One bucket for all clients; it is made once, by \<open>rt_new\<close>.\<close>

definition RateLimitInterceptor :: "'l rate_library \<Rightarrow> ('q, 'p, 'l, 't) rpc_handler \<Rightarrow> ('q, 'p, 'l, 't) rpc_handler" where
  "RateLimitInterceptor rl h ctx req s =
     (let (ok, b) = rt_allow rl (rc_now ctx) (rs_limiter s); s' = s\<lparr>rs_limiter := b\<rparr>
      in if \<not> ok then Some (Returned (Inl (ResourceExhausted, ''rate limit exceeded'')), s')
         else h ctx req s')"

text \<open>The chain of the server; the logging interceptor between the first two is in theory \<open>Observers\<close>.\<close>

definition grpc_chain ::
  "'l rate_library \<Rightarrow> gostring list \<Rightarrow> ('q, 'p, 'l, 't) rpc_handler \<Rightarrow> ('q, 'p, 'l, 't) rpc_handler" where
  "grpc_chain rl apiKeys h = RecoveryInterceptor (RateLimitInterceptor rl (AuthInterceptor apiKeys h))"

definition presented_key :: "rpc_context \<Rightarrow> gostring option" where
  "presented_key ctx =
     (case rc_metadata ctx of None \<Rightarrow> None | Some md \<Rightarrow>
        (case map_of md ''x-api-key'' of Some (k # _) \<Rightarrow> Some k | _ \<Rightarrow> None))"

lemma recovered:
  assumes "RateLimitInterceptor rl (AuthInterceptor apiKeys h) ctx req s = r"
  shows "grpc_chain rl apiKeys h ctx req s =
    map_option (\<lambda>(x, s'). (case x of Panicked \<Rightarrow> Returned (Inl (Internal, ''internal server error'')) | y \<Rightarrow> y, s')) r"
proof (cases r)
  case None
  with assms show ?thesis by (simp add: grpc_chain_def RecoveryInterceptor_def)
next
  case (Some p)
  obtain x s' where "p = (x, s')" by (cases p)
  with assms Some show ?thesis by (cases x) (simp_all add: grpc_chain_def RecoveryInterceptor_def)
qed

lemma chain_denied:
  assumes "apiKeys \<noteq> []" "\<forall>k. presented_key ctx = Some k \<longrightarrow> k \<notin> set apiKeys"
  shows "\<exists>m. AuthInterceptor apiKeys h ctx req s = Some (Returned (Inl (Unauthenticated, m)), s)"
proof (cases "rc_metadata ctx")
  case None
  with assms(1) show ?thesis by (simp add: AuthInterceptor_def)
next
  case (Some md)
  with assms show ?thesis
    by (cases "map_of md ''x-api-key''") (auto simp: AuthInterceptor_def presented_key_def Let_def split: list.splits)
qed



section \<open>What a client reads\<close>

text \<open>The message with its numbers read as signed.\<close>

definition fromProtoMatch :: "ProtoMatchItem \<Rightarrow> MatchDTO" where
  "fromProtoMatch m =
     \<lparr>md_Word = pm_Word m, md_Position = sint (pm_Position m), md_EndPos = sint (pm_EndPosition m),
      md_Category = pm_Category m, md_Level = sint (pm_Level m)\<rparr>"

definition fromProto :: "ProtoFilterResponse \<Rightarrow> FilterResponse" where
  "fromProto p =
     \<lparr>rp_Original = pf_Original p, rp_Filtered = pf_Filtered p, rp_IsHit = pf_IsHit p,
      rp_HitCount = sint (pf_HitCount p), rp_Matches = map fromProtoMatch (pf_Matches p),
      rp_RiskLevel = sint (pf_RiskLevel p), rp_CostMs = pf_CostMs p\<rparr>"

definition in_int32 :: "int \<Rightarrow> bool" where
  "in_int32 x \<longleftrightarrow> - (2 ^ 31) \<le> x \<and> x < 2 ^ 31"

definition fits_int32 :: "FilterResponse \<Rightarrow> bool" where
  "fits_int32 r \<longleftrightarrow> in_int32 (rp_HitCount r) \<and> in_int32 (rp_RiskLevel r) \<and>
     (\<forall>m \<in> set (rp_Matches r). in_int32 (md_Position m) \<and> in_int32 (md_EndPos m) \<and> in_int32 (md_Level m))"

lemma sint_to_int32: "sint (to_int32 x) = (x + 2 ^ 31) mod 2 ^ 32 - 2 ^ 31"
  by (simp add: to_int32_def sint_sbintrunc' signed_take_bit_eq_take_bit_shift take_bit_eq_mod)

lemma to_int32_exact: "in_int32 x \<Longrightarrow> sint (to_int32 x) = x"
  by (simp add: sint_to_int32 in_int32_def)

lemma fromProto_toProto: "fits_int32 r \<Longrightarrow> fromProto (toProtoResponse (Some r)) = r"
proof -
  assume f: "fits_int32 r"
  have "map (fromProtoMatch \<circ> toProtoMatch) (rp_Matches r) = rp_Matches r"
  proof (rule map_idI)
    fix m assume "m \<in> set (rp_Matches r)"
    with f show "(fromProtoMatch \<circ> toProtoMatch) m = m"
      by (simp add: fromProtoMatch_def toProtoMatch_def to_int32_exact fits_int32_def)
  qed
  with f show ?thesis by (simp add: fromProto_def toProtoResponse_def to_int32_exact fits_int32_def)
qed

text \<open>
  Claim C36. gRPC answers as the service does: on a service whose engine holds \<open>ws\<close>, \<open>Detect\<close> of any
  non-empty text, of whatever length, returns the answer of \<open>ws\<close> to it (or to a text asked before with
  the same hash), and what the client reads is that answer field by field if its numbers fit in 32
  bits; a hit count that does not is read modulo \<open>2 ^ 32\<close>.
\<close>

theorem grpc_detect_answers:
  assumes "service_ok u client js stored A ws s" and "codec_ok js" and "tx \<in> A" and "tx \<noteq> []"
  shows "\<exists>p r s'. Grpc_Detect u client js ck s tx = Some (Inr p, s') \<and> service_ok u client js stored A ws s' \<and>
    (\<exists>t \<in> A. fnv64a t = fnv64a tx \<and> answers u ws StrategyDetect t r) \<and> (fits_int32 r \<longrightarrow> fromProto p = r) \<and>
    pf_IsHit p = rp_IsHit r \<and> sint (pf_HitCount p) = (rp_HitCount r + 2 ^ 31) mod 2 ^ 32 - 2 ^ 31"
proof -
  have st: "choose_strategy StrategyDetect = StrategyDetect" by code_simp
  obtain r s' where f: "Filter u client js ck s \<lparr>rq_Text = tx, rq_Strategy = StrategyDetect\<rparr> = Some (Inr r, s')"
    "service_ok u client js stored A ws s'" "\<exists>t \<in> A. fnv64a t = fnv64a tx \<and> answers u ws StrategyDetect t r"
    using Filter_keeps_service [OF assms(1-3), of ck StrategyDetect] unfolding st by blast
  then have "Grpc_Detect u client js ck s tx = Some (Inr (toProtoResponse (Some r)), s')"
    using assms(4) by (simp add: Grpc_Detect_def Service_Detect_def rpc_outcome_def)
  moreover have "pf_IsHit (toProtoResponse (Some r)) = rp_IsHit r"
    "sint (pf_HitCount (toProtoResponse (Some r))) = (rp_HitCount r + 2 ^ 31) mod 2 ^ 32 - 2 ^ 31"
    by (simp_all add: toProtoResponse_def sint_to_int32)
  ultimately show ?thesis using f fromProto_toProto by blast
qed

theorem grpc_detect_answers_witness:
  "\<exists>(s :: (gostring, bytes) gomap FilterAppService) p s'.
    Grpc_Detect ascii_data map_client silent_codec
      \<lparr>ck_start = 0, ck_get = 0, ck_get_later = 0, ck_apply = 0, ck_cost = 0, ck_set = 0, ck_set_later = 0\<rparr>
      s ''a'' = Some (Inr p, s') \<and> \<not> pf_IsHit p"
proof -
  let ?ck = "\<lparr>ck_start = 0, ck_get = 0, ck_get_later = 0, ck_apply = 0, ck_cost = 0, ck_set = 0,
    ck_set_later = 0\<rparr>"
  have o: "\<forall>a. iteration_order ((\<lambda>(_::addr) xs. xs) a)" by simp
  obtain ac where ac: "NewAhoCorasick ascii_data (\<lambda>_ xs. xs) [] = Some ac"
    "automaton_for ascii_data [] ac" using NewAhoCorasick_ok [OF o] by blast
  define e where "e = \<lparr>current = ac, version = 0\<rparr>"
  have e: "engine_holds ascii_data e []" "Version e = 0"
    using ac(2) by (simp_all add: e_def engine_holds_def Version_def)
  note S = fresh_service_ok [OF e, of "{''a''}"]
  have js: "codec_ok silent_codec" by (simp add: codec_ok_def silent_codec_def)
  obtain p r s' t where r: "Grpc_Detect ascii_data map_client silent_codec ?ck
      \<lparr>fa_engine = e, fa_strategies = main_strategies, fa_cache = None, fa_hits = []\<rparr> ''a'' = Some (Inr p, s')"
    "answers ascii_data [] StrategyDetect t r" "pf_IsHit p = rp_IsHit r"
    using grpc_detect_answers [OF S js, of "''a''" ?ck] by auto
  have "\<not> rp_IsHit r" using answers_verdict [OF r(2)] by simp
  with r show ?thesis by blast
qed

end
