(* ===== verification/Config.thy ===== *)
theory Config
  imports LocalCache
begin

text \<open>
  \<open>internal/infrastructure/config\<close>: the configuration, its defaults and how it is loaded, and of
  \<open>internal/infrastructure/database/mysql.go\<close> what it does with it. Viper, the file system
  and the environment are the libraries below; a \<open>float64\<close> is its 64 bits.
\<close>

section \<open>The configuration\<close>

type_synonym float64 = "64 word"

record HTTPConfig =
  ht_Addr :: gostring
  ht_ReadTimeout :: duration
  ht_WriteTimeout :: duration
  ht_IdleTimeout :: duration
  ht_MaxBodySize :: int

record GRPCConfig =
  gr_Addr :: gostring

record ServerConfig =
  sc_HTTP :: HTTPConfig
  sc_GRPC :: GRPCConfig

record DatabaseConfig =
  db_Driver :: gostring
  db_DSN :: gostring
  db_MaxOpenConns :: int
  db_MaxIdleConns :: int
  db_ConnMaxLifetime :: duration
  db_ConnMaxIdleTime :: duration

record RedisConfig =
  rd_Addr :: gostring
  rd_Password :: gostring
  rd_DB :: int
  rd_PoolSize :: int

record CacheConfig =
  cc_LocalTTL :: duration
  cc_RedisTTL :: duration
  cc_LocalMaxItems :: int

record LogConfig =
  lg_Level :: gostring
  lg_Format :: gostring
  lg_Output :: gostring

record TraceConfig =
  tr_Endpoint :: gostring
  tr_SampleRate :: float64

record RateLimitConfig =
  rl_RequestsPerSecond :: int
  rl_Burst :: int

record AuthConfig =
  au_APIKeys :: "gostring list"

record CORSConfig =
  co_AllowedOrigins :: "gostring list"

record Config =
  cf_Env :: gostring
  cf_Server :: ServerConfig
  cf_Database :: DatabaseConfig
  cf_Redis :: RedisConfig
  cf_Cache :: CacheConfig
  cf_Log :: LogConfig
  cf_Trace :: TraceConfig
  cf_RateLimit :: RateLimitConfig
  cf_Auth :: AuthConfig
  cf_CORS :: CORSConfig

definition EnvDev :: gostring where "EnvDev = ''dev''"
definition EnvTest :: gostring where "EnvTest = ''test''"
definition EnvStaging :: gostring where "EnvStaging = ''staging''"
definition EnvProduction :: gostring where "EnvProduction = ''production''"

definition Env_IsValid :: "gostring \<Rightarrow> bool" where
  "Env_IsValid e \<longleftrightarrow> e = EnvDev \<or> e = EnvTest \<or> e = EnvStaging \<or> e = EnvProduction"

definition IsProd :: "gostring \<Rightarrow> bool" where
  "IsProd e \<longleftrightarrow> e = EnvProduction"

text \<open>A positive float: the sign bit clear, not zero and not a NaN.\<close>

definition float_positive :: "float64 \<Rightarrow> bool" where
  "float_positive x \<longleftrightarrow> 0 < x \<and> x \<le> 0x7FF0000000000000"

section \<open>Defaults\<close>

text \<open>\<open>if x == zero { x = d }\<close>. The fields of \<open>setDefaults\<close> do not depend on each other.\<close>

definition default_to :: "'a \<Rightarrow> 'a \<Rightarrow> 'a \<Rightarrow> 'a" where
  "default_to zero d x = (if x = zero then d else x)"

definition http_defaults :: "HTTPConfig \<Rightarrow> HTTPConfig" where
  "http_defaults h = h\<lparr>
     ht_Addr := default_to [] '':8080'' (ht_Addr h),
     ht_ReadTimeout := default_to 0 (10 * second) (ht_ReadTimeout h),
     ht_WriteTimeout := default_to 0 (10 * second) (ht_WriteTimeout h),
     ht_IdleTimeout := default_to 0 (60 * second) (ht_IdleTimeout h),
     ht_MaxBodySize := default_to 0 (10 * 2 ^ 20) (ht_MaxBodySize h)\<rparr>"

definition database_defaults :: "DatabaseConfig \<Rightarrow> DatabaseConfig" where
  "database_defaults d = d\<lparr>
     db_MaxOpenConns := default_to 0 100 (db_MaxOpenConns d),
     db_MaxIdleConns := default_to 0 25 (db_MaxIdleConns d),
     db_ConnMaxIdleTime := default_to 0 (5 * minute) (db_ConnMaxIdleTime d)\<rparr>"

definition cache_defaults :: "CacheConfig \<Rightarrow> CacheConfig" where
  "cache_defaults c = c\<lparr>
     cc_LocalTTL := default_to 0 (5 * minute) (cc_LocalTTL c),
     cc_RedisTTL := default_to 0 (30 * minute) (cc_RedisTTL c),
     cc_LocalMaxItems := default_to 0 100000 (cc_LocalMaxItems c)\<rparr>"

definition setDefaults :: "Config \<Rightarrow> Config" where
  "setDefaults cfg = cfg\<lparr>
     cf_Server := (cf_Server cfg)\<lparr>
       sc_HTTP := http_defaults (sc_HTTP (cf_Server cfg)),
       sc_GRPC := (sc_GRPC (cf_Server cfg))\<lparr>gr_Addr := default_to [] '':9090'' (gr_Addr (sc_GRPC (cf_Server cfg)))\<rparr>\<rparr>,
     cf_Database := database_defaults (cf_Database cfg),
     cf_Redis := (cf_Redis cfg)\<lparr>rd_PoolSize := default_to 0 500 (rd_PoolSize (cf_Redis cfg))\<rparr>,
     cf_Cache := cache_defaults (cf_Cache cfg),
     cf_RateLimit := (cf_RateLimit cfg)\<lparr>
       rl_RequestsPerSecond := default_to 0 1000 (rl_RequestsPerSecond (cf_RateLimit cfg)),
       rl_Burst := default_to 0 2000 (rl_Burst (cf_RateLimit cfg))\<rparr>\<rparr>"

lemmas defaults_defs = setDefaults_def http_defaults_def database_defaults_def cache_defaults_def

section \<open>Paths and keys\<close>

text \<open>\<open>filepath.Ext\<close>: from the last dot of the last element of the path.\<close>

definition filepath_Ext :: "gostring \<Rightarrow> gostring" where
  "filepath_Ext path =
     (let stem = (\<lambda>c. c \<noteq> CHR ''.'' \<and> c \<noteq> CHR ''/''); tail = takeWhile stem (rev path)
      in case dropWhile stem (rev path) of
           c # _ \<Rightarrow> if c = CHR ''.'' then c # rev tail else []
         | [] \<Rightarrow> [])"

definition TrimSuffix :: "gostring \<Rightarrow> gostring \<Rightarrow> gostring" where
  "TrimSuffix s suf = (if suffix suf s then take (length s - length suf) s else s)"

definition envConfigPath :: "gostring \<Rightarrow> gostring \<Rightarrow> gostring" where
  "envConfigPath basePath env =
     (let ext = filepath_Ext basePath; base = TrimSuffix basePath ext
      in base @ ''.'' @ env @ ext)"

definition env_keys :: "gostring list" where
  "env_keys =
     [''server.http.addr'', ''server.grpc.addr'', ''database.driver'', ''database.dsn'',
      ''database.max_open_conns'', ''database.max_idle_conns'', ''redis.addr'', ''redis.password'',
      ''redis.db'', ''redis.pool_size'', ''cache.local_ttl'', ''cache.redis_ttl'', ''log.level'',
      ''log.format'', ''log.output'', ''trace.endpoint'', ''trace.sample_rate'',
      ''ratelimit.requests_per_second'', ''ratelimit.burst'']"

section \<open>Loading\<close>

text \<open>The operations of Viper the program calls, on an instance \<open>'v\<close>; \<open>Inl\<close> is an error.\<close>

record 'v viper_library =
  vl_New :: 'v
  vl_SetConfigType :: "gostring \<Rightarrow> 'v \<Rightarrow> 'v"
  vl_SetConfigFile :: "gostring \<Rightarrow> 'v \<Rightarrow> 'v"
  vl_ReadInConfig :: "'v \<Rightarrow> gostring + 'v"
  vl_MergeInConfig :: "'v \<Rightarrow> gostring + 'v"
  vl_SetEnvPrefix :: "gostring \<Rightarrow> 'v \<Rightarrow> 'v"
  vl_SetEnvKeyReplacer :: "gostring \<Rightarrow> gostring \<Rightarrow> 'v \<Rightarrow> 'v"
  vl_AutomaticEnv :: "'v \<Rightarrow> 'v"
  vl_BindEnv :: "gostring \<Rightarrow> 'v \<Rightarrow> 'v"
  vl_Unmarshal :: "'v \<Rightarrow> gostring + Config"

definition bindEnvKeys :: "'v viper_library \<Rightarrow> 'v \<Rightarrow> 'v" where
  "bindEnvKeys vl v = foldl (\<lambda>v key. vl_BindEnv vl key v) v env_keys"

text \<open>\<open>getenv\<close> is \<open>os.Getenv\<close>, \<open>exists\<close> whether \<open>os.Stat\<close> of a path gives no error.\<close>

definition choose_env :: "(gostring \<Rightarrow> gostring) \<Rightarrow> gostring \<Rightarrow> gostring" where
  "choose_env getenv env =
     (let env = (if env = [] then getenv ''APP_ENV'' else env)
      in if env = [] then EnvDev else env)"

definition merge_env_file ::
  "'v viper_library \<Rightarrow> (gostring \<Rightarrow> bool) \<Rightarrow> gostring \<Rightarrow> 'v \<Rightarrow> gostring + 'v" where
  "merge_env_file vl exists envPath v =
     (if exists envPath then
        case vl_MergeInConfig vl (vl_SetConfigFile vl envPath v) of
          Inl err \<Rightarrow> Inl (''merge env config ('' @ envPath @ ''): '' @ err)
        | Inr v \<Rightarrow> Inr v
      else Inr v)"

definition LoadWithEnv ::
  "'v viper_library \<Rightarrow> (gostring \<Rightarrow> gostring) \<Rightarrow> (gostring \<Rightarrow> bool) \<Rightarrow> gostring \<Rightarrow> gostring \<Rightarrow>
   gostring + Config" where
  "LoadWithEnv vl getenv exists path env =
     (let env = choose_env getenv env; v = vl_SetConfigFile vl path (vl_SetConfigType vl ''yaml'' (vl_New vl))
      in case vl_ReadInConfig vl v of
           Inl err \<Rightarrow> Inl (''read base config: '' @ err)
         | Inr v \<Rightarrow>
             (case merge_env_file vl exists (envConfigPath path env) v of
                Inl err \<Rightarrow> Inl err
              | Inr v \<Rightarrow>
                  (let v = vl_AutomaticEnv vl (vl_SetEnvKeyReplacer vl ''.'' ''_'' (vl_SetEnvPrefix vl ''CENSORHUB'' v))
                   in case vl_Unmarshal vl (bindEnvKeys vl v) of
                        Inl err \<Rightarrow> Inl (''unmarshal config: '' @ err)
                      | Inr cfg \<Rightarrow> Inr (setDefaults (cfg\<lparr>cf_Env := env\<rparr>)))))"

definition Load ::
  "'v viper_library \<Rightarrow> (gostring \<Rightarrow> gostring) \<Rightarrow> (gostring \<Rightarrow> bool) \<Rightarrow> gostring \<Rightarrow> gostring + Config" where
  "Load vl getenv exists path = LoadWithEnv vl getenv exists path []"

section \<open>The database\<close>

text \<open>The settings of the pool that \<open>NewMySQL\<close> makes; an idle time it does not set is \<open>None\<close>.\<close>

record sql_pool =
  sp_MaxOpenConns :: int
  sp_MaxIdleConns :: int
  sp_ConnMaxLifetime :: duration
  sp_ConnMaxIdleTime :: "duration option"

definition pool_settings :: "Config \<Rightarrow> sql_pool" where
  "pool_settings cfg =
     \<lparr>sp_MaxOpenConns = db_MaxOpenConns (cf_Database cfg),
      sp_MaxIdleConns = db_MaxIdleConns (cf_Database cfg),
      sp_ConnMaxLifetime =
        (if db_ConnMaxLifetime (cf_Database cfg) > 0 then db_ConnMaxLifetime (cf_Database cfg) else 60 * minute),
      sp_ConnMaxIdleTime =
        (if db_ConnMaxIdleTime (cf_Database cfg) > 0 then Some (db_ConnMaxIdleTime (cf_Database cfg)) else None)\<rparr>"

definition maskDSN :: "gostring \<Rightarrow> gostring" where
  "maskDSN dsn = (if length dsn > 20 then take 20 dsn @ ''...'' else dsn)"

text \<open>The first twenty bytes of a DSN are its user and its password.\<close>

lemma mask_shows_credentials:
  assumes "length (user @ '':'' @ password) \<le> 20"
  shows "prefix (user @ '':'' @ password) (maskDSN (user @ '':'' @ password @ rest))"
proof -
  have "prefix c (maskDSN (c @ rest))" if "length c \<le> 20" for c
    using that by (simp add: maskDSN_def)
  from this [OF assms] show ?thesis by simp
qed

section \<open>What the defaults give\<close>

definition no_zero_field :: "Config \<Rightarrow> bool" where
  "no_zero_field cfg \<longleftrightarrow>
     ht_Addr (sc_HTTP (cf_Server cfg)) \<noteq> [] \<and> gr_Addr (sc_GRPC (cf_Server cfg)) \<noteq> [] \<and>
     ht_ReadTimeout (sc_HTTP (cf_Server cfg)) \<noteq> 0 \<and> ht_WriteTimeout (sc_HTTP (cf_Server cfg)) \<noteq> 0 \<and>
     ht_IdleTimeout (sc_HTTP (cf_Server cfg)) \<noteq> 0 \<and> ht_MaxBodySize (sc_HTTP (cf_Server cfg)) \<noteq> 0 \<and>
     db_MaxOpenConns (cf_Database cfg) \<noteq> 0 \<and> db_MaxIdleConns (cf_Database cfg) \<noteq> 0 \<and>
     db_ConnMaxIdleTime (cf_Database cfg) \<noteq> 0 \<and> rd_PoolSize (cf_Redis cfg) \<noteq> 0 \<and>
     cc_LocalTTL (cf_Cache cfg) \<noteq> 0 \<and> cc_RedisTTL (cf_Cache cfg) \<noteq> 0 \<and>
     cc_LocalMaxItems (cf_Cache cfg) \<noteq> 0 \<and> rl_RequestsPerSecond (cf_RateLimit cfg) \<noteq> 0 \<and>
     rl_Burst (cf_RateLimit cfg) \<noteq> 0"

lemma default_to_zero [simp]: "d \<noteq> zero \<Longrightarrow> default_to zero d x \<noteq> zero"
  by (simp add: default_to_def)

lemma default_to_same [simp]: "x \<noteq> zero \<Longrightarrow> default_to zero d x = x"
  by (simp add: default_to_def)

lemma defaults_not_zero: "no_zero_field (setDefaults cfg)"
  by (simp add: no_zero_field_def defaults_defs)

lemma defaults_keep: "no_zero_field cfg \<Longrightarrow> setDefaults cfg = cfg"
  by (simp add: no_zero_field_def defaults_defs)

text \<open>
  The defaults fill what is not configured and nothing else: afterwards no field that has a
  default is zero, a second pass changes nothing, and a configuration is left as it is exactly
  when it had no such field. A configured limit of 0 entries is therefore never unlimited, as
  a negative one is: the local cache is limited exactly if the configured number is not
  negative.
\<close>

theorem defaults_fill_zero_fields:
  "no_zero_field (setDefaults cfg) \<and> setDefaults (setDefaults cfg) = setDefaults cfg \<and>
   (setDefaults cfg = cfg \<longleftrightarrow> no_zero_field cfg) \<and>
   (0 < perShardLimit (NewLocalCache t (cc_LocalMaxItems (cf_Cache (setDefaults cfg)))) \<longleftrightarrow>
     0 \<le> cc_LocalMaxItems (cf_Cache cfg))"
proof (intro conjI)
  show "no_zero_field (setDefaults cfg)" by (rule defaults_not_zero)
  then show "setDefaults (setDefaults cfg) = setDefaults cfg" by (rule defaults_keep)
  show "setDefaults cfg = cfg \<longleftrightarrow> no_zero_field cfg" using defaults_not_zero [of cfg] defaults_keep by metis
  let ?n = "cc_LocalMaxItems (cf_Cache (setDefaults cfg))"
  have n: "?n = (if cc_LocalMaxItems (cf_Cache cfg) = 0 then 100000 else cc_LocalMaxItems (cf_Cache cfg))"
    by (simp add: defaults_defs default_to_def)
  have limited: "0 < perShardLimit (NewLocalCache t n) \<longleftrightarrow> 0 < n" for n
    by (auto simp: perShardLimit_def NewLocalCache_def localCacheShards_def pos_imp_zdiv_pos_iff)
  show "0 < perShardLimit (NewLocalCache t ?n) \<longleftrightarrow> 0 \<le> cc_LocalMaxItems (cf_Cache cfg)"
    unfolding limited n by auto
qed

section \<open>What wins\<close>

text \<open>
  What Viper documents of these operations, for the values that are strings: an instance shows
  the settings of the file read, those of a merged file over them, and for a bound key the
  variable of the environment, unless that is empty. \<open>vw\<close> reads an instance, \<open>files\<close> are the
  settings of a path and \<open>environ\<close> is the variable of a key under a prefix and a replacement.
\<close>

record viper_view =
  vw_File :: gostring
  vw_Settings :: "gostring \<Rightarrow> gostring option"
  vw_Prefix :: gostring
  vw_Replacer :: "gostring \<times> gostring"
  vw_Bound :: "gostring set"

type_synonym environment = "gostring \<Rightarrow> gostring \<times> gostring \<Rightarrow> gostring \<Rightarrow> gostring"

definition setting :: "(gostring \<Rightarrow> gostring option) \<Rightarrow> gostring \<Rightarrow> gostring" where
  "setting m k = (case m k of Some x \<Rightarrow> x | None \<Rightarrow> [])"

definition view_Get :: "environment \<Rightarrow> viper_view \<Rightarrow> gostring \<Rightarrow> gostring" where
  "view_Get environ w k =
     (let x = environ (vw_Prefix w) (vw_Replacer w) k
      in if k \<in> vw_Bound w \<and> x \<noteq> [] then x else setting (vw_Settings w) k)"

definition http_addr :: "Config \<Rightarrow> gostring" where
  "http_addr cfg = ht_Addr (sc_HTTP (cf_Server cfg))"

definition viper_documented ::
  "'v viper_library \<Rightarrow> ('v \<Rightarrow> viper_view) \<Rightarrow> (gostring \<Rightarrow> gostring \<Rightarrow> gostring option) \<Rightarrow> environment \<Rightarrow> bool" where
  "viper_documented vl vw files environ \<longleftrightarrow>
     vw (vl_New vl) = \<lparr>vw_File = [], vw_Settings = Map.empty, vw_Prefix = [], vw_Replacer = ([], []), vw_Bound = {}\<rparr> \<and>
     (\<forall>v t. vw (vl_SetConfigType vl t v) = vw v) \<and>
     (\<forall>v p. vw (vl_SetConfigFile vl p v) = (vw v)\<lparr>vw_File := p\<rparr>) \<and>
     (\<forall>v v'. vl_ReadInConfig vl v = Inr v' \<longrightarrow> vw v' = (vw v)\<lparr>vw_Settings := files (vw_File (vw v))\<rparr>) \<and>
     (\<forall>v v'. vl_MergeInConfig vl v = Inr v' \<longrightarrow>
        vw v' = (vw v)\<lparr>vw_Settings := vw_Settings (vw v) ++ files (vw_File (vw v))\<rparr>) \<and>
     (\<forall>v p. vw (vl_SetEnvPrefix vl p v) = (vw v)\<lparr>vw_Prefix := p\<rparr>) \<and>
     (\<forall>v a b. vw (vl_SetEnvKeyReplacer vl a b v) = (vw v)\<lparr>vw_Replacer := (a, b)\<rparr>) \<and>
     (\<forall>v. vw (vl_AutomaticEnv vl v) = vw v) \<and>
     (\<forall>v k. vw (vl_BindEnv vl k v) = (vw v)\<lparr>vw_Bound := insert k (vw_Bound (vw v))\<rparr>) \<and>
     (\<forall>v cfg. vl_Unmarshal vl v = Inr cfg \<longrightarrow>
        http_addr cfg = view_Get environ (vw v) ''server.http.addr'' \<and>
        db_DSN (cf_Database cfg) = view_Get environ (vw v) ''database.dsn'')"

lemma bind_keys:
  assumes "viper_documented vl vw files environ"
  shows "vw (bindEnvKeys vl v) = (vw v)\<lparr>vw_Bound := vw_Bound (vw v) \<union> set env_keys\<rparr>"
proof -
  have "vw (foldl (\<lambda>v key. vl_BindEnv vl key v) v ks) = (vw v)\<lparr>vw_Bound := vw_Bound (vw v) \<union> set ks\<rparr>" for ks
    using assms by (induction ks arbitrary: v) (simp_all add: viper_documented_def)
  then show ?thesis by (simp add: bindEnvKeys_def)
qed

lemma loaded_view:
  assumes "viper_documented vl vw files environ" "LoadWithEnv vl getenv exists path env = Inr cfg"
  obtains v c where "vl_Unmarshal vl v = Inr c" "cfg = setDefaults (c\<lparr>cf_Env := choose_env getenv env\<rparr>)"
    "vw_Prefix (vw v) = ''CENSORHUB''" "vw_Replacer (vw v) = (''.'', ''_'')" "vw_Bound (vw v) = set env_keys"
    "vw_Settings (vw v) = (if exists (envConfigPath path (choose_env getenv env))
       then files path ++ files (envConfigPath path (choose_env getenv env)) else files path)"
proof -
  note D = assms(1) [unfolded viper_documented_def]
  let ?p = "envConfigPath path (choose_env getenv env)"
  obtain v1 v2 v3 c where v: "vl_ReadInConfig vl (vl_SetConfigFile vl path (vl_SetConfigType vl ''yaml'' (vl_New vl))) = Inr v1"
    "merge_env_file vl exists ?p v1 = Inr v2"
    "v3 = vl_AutomaticEnv vl (vl_SetEnvKeyReplacer vl ''.'' ''_'' (vl_SetEnvPrefix vl ''CENSORHUB'' v2))"
    "vl_Unmarshal vl (bindEnvKeys vl v3) = Inr c" "cfg = setDefaults (c\<lparr>cf_Env := choose_env getenv env\<rparr>)"
    using assms(2) by (auto simp: LoadWithEnv_def Let_def split: sum.splits)
  have v1: "vw v1 = \<lparr>vw_File = path, vw_Settings = files path, vw_Prefix = [], vw_Replacer = ([], []), vw_Bound = {}\<rparr>"
    using D v(1) by simp
  have v2: "vw_Settings (vw v2) = (if exists ?p then files path ++ files ?p else files path) \<and> vw_Bound (vw v2) = {}"
    using D v(2) v1 by (simp add: merge_env_file_def split: if_splits sum.splits)
  have "vw v3 = (vw v2)\<lparr>vw_Prefix := ''CENSORHUB'', vw_Replacer := (''.'', ''_'')\<rparr>" using D v(3) by simp
  then show thesis using v2 bind_keys [OF assms(1)] by (intro that [OF v(4,5)]) simp_all
qed

lemma addr_default: "http_addr (setDefaults (c\<lparr>cf_Env := e\<rparr>)) = default_to [] '':8080'' (http_addr c)"
  by (simp add: http_addr_def defaults_defs)

lemma dsn_default: "db_DSN (cf_Database (setDefaults c)) = db_DSN (cf_Database c)"
  by (simp add: defaults_defs)

lemma env_default: "cf_Env (setDefaults c) = cf_Env c"
  by (simp add: defaults_defs)


text \<open>A Viper whose instance is what it shows, reading the files \<open>fs\<close>.\<close>

definition sample_settings :: "gostring \<Rightarrow> gostring \<Rightarrow> Config" where
  "sample_settings addr dsn =
     \<lparr>cf_Env = [],
      cf_Server = \<lparr>sc_HTTP = \<lparr>ht_Addr = addr, ht_ReadTimeout = 0, ht_WriteTimeout = 0, ht_IdleTimeout = 0,
        ht_MaxBodySize = 0\<rparr>, sc_GRPC = \<lparr>gr_Addr = []\<rparr>\<rparr>,
      cf_Database = \<lparr>db_Driver = [], db_DSN = dsn, db_MaxOpenConns = 0, db_MaxIdleConns = 0,
        db_ConnMaxLifetime = 0, db_ConnMaxIdleTime = 0\<rparr>,
      cf_Redis = \<lparr>rd_Addr = [], rd_Password = [], rd_DB = 0, rd_PoolSize = 0\<rparr>,
      cf_Cache = \<lparr>cc_LocalTTL = 0, cc_RedisTTL = 0, cc_LocalMaxItems = 0\<rparr>,
      cf_Log = \<lparr>lg_Level = [], lg_Format = [], lg_Output = []\<rparr>,
      cf_Trace = \<lparr>tr_Endpoint = [], tr_SampleRate = 0\<rparr>,
      cf_RateLimit = \<lparr>rl_RequestsPerSecond = 0, rl_Burst = 0\<rparr>,
      cf_Auth = \<lparr>au_APIKeys = []\<rparr>, cf_CORS = \<lparr>co_AllowedOrigins = []\<rparr>\<rparr>"

definition sample_viper ::
  "(gostring \<Rightarrow> gostring \<Rightarrow> gostring option) \<Rightarrow> environment \<Rightarrow> viper_view viper_library" where
  "sample_viper fs environ =
     \<lparr>vl_New = \<lparr>vw_File = [], vw_Settings = Map.empty, vw_Prefix = [], vw_Replacer = ([], []), vw_Bound = {}\<rparr>,
      vl_SetConfigType = (\<lambda>_ v. v), vl_SetConfigFile = (\<lambda>p v. v\<lparr>vw_File := p\<rparr>),
      vl_ReadInConfig = (\<lambda>v. Inr (v\<lparr>vw_Settings := fs (vw_File v)\<rparr>)),
      vl_MergeInConfig = (\<lambda>v. Inr (v\<lparr>vw_Settings := vw_Settings v ++ fs (vw_File v)\<rparr>)),
      vl_SetEnvPrefix = (\<lambda>p v. v\<lparr>vw_Prefix := p\<rparr>), vl_SetEnvKeyReplacer = (\<lambda>a b v. v\<lparr>vw_Replacer := (a, b)\<rparr>),
      vl_AutomaticEnv = (\<lambda>v. v), vl_BindEnv = (\<lambda>k v. v\<lparr>vw_Bound := insert k (vw_Bound v)\<rparr>),
      vl_Unmarshal = (\<lambda>v. Inr (sample_settings (view_Get environ v ''server.http.addr'')
        (view_Get environ v ''database.dsn'')))\<rparr>"

lemma sample_viper_documented: "viper_documented (sample_viper fs environ) (\<lambda>v. v) fs environ"
  by (simp add: viper_documented_def sample_viper_def sample_settings_def http_addr_def)

lemma sample_viper_loads:
  "\<exists>cfg. LoadWithEnv (sample_viper fs environ) getenv exists path env = Inr cfg"
  by (simp add: LoadWithEnv_def merge_env_file_def sample_viper_def Let_def)

lemma dev_overlay: "envConfigPath ''c.yaml'' ''dev'' = ''c.dev.yaml''"
  by code_simp


end
