(* ===== verification/Reconcile.thy ===== *)
theory Reconcile
  imports WordService
begin

text \<open>
  The polling of \<open>internal/application/service/word_app_service.go\<close>: \<open>InitEngine\<close>, \<open>reconcileOnce\<close>,
  \<open>rebuildWithRetry\<close>, \<open>pollLoop\<close>, \<open>Start\<close> and \<open>Close\<close>. Writes to the table go on between the queries,
  so each query of a round is given the database as it is then. What a round needs of its
  surroundings is a \<open>tick\<close>: the databases its queries meet, the order of ranging over maps in
  each rebuild, the error of the context where it ends a wait, the random number of the jitter
  and whether the loop is told to stop. \<open>None\<close> is not returning, or a panic.
\<close>

section \<open>Configuration and metrics\<close>

text \<open>Durations in nanoseconds.\<close>

record pollConfig =
  pc_interval :: int
  pc_jitter :: int
  pc_queryTimeout :: int
  pc_retryBackoff :: int
  pc_maxAttempts :: int
  pc_shutdownTimeout :: int

definition defaultPollConfig :: pollConfig where
  "defaultPollConfig =
     \<lparr>pc_interval = 500 * millisecond, pc_jitter = 250 * millisecond, pc_queryTimeout = 10 * second,
      pc_retryBackoff = 200 * millisecond, pc_maxAttempts = 3, pc_shutdownTimeout = 5 * second\<rparr>"

record engine_metrics =
  em_checks_error :: nat
  em_checks_unchanged :: nat
  em_checks_changed :: nat
  em_failures_fingerprint :: nat
  em_failures_rebuild :: nat
  em_failures_load :: nat
  em_rebuilds :: nat
  em_word_count :: int

section \<open>The engine as the service sees it\<close>

record ('o, 'e) engine_ops =
  eo_rebuild :: "'o \<Rightarrow> 'e \<Rightarrow> SensitiveWord list \<Rightarrow> (error option \<times> 'e) option"
  eo_count :: "'e \<Rightarrow> int"

text \<open>The engine the server is built with: its \<open>Rebuild\<close> always returns \<open>nil\<close>.\<close>

definition ac_engine_ops :: "unicode_data \<Rightarrow> (range_order, ACFilterEngine) engine_ops" where
  "ac_engine_ops u =
     \<lparr>eo_rebuild = (\<lambda>ord e ws. map_option (\<lambda>e'. (None, e')) (Rebuild u ord e ws)), eo_count = WordCount\<rparr>"

record ('d, 'o) tick =
  tk_db :: "nat \<Rightarrow> 'd"
  tk_ord :: "nat \<Rightarrow> 'o"
  tk_done :: "nat \<Rightarrow> error option"
  tk_stop :: bool
  tk_rand :: int

record ('e, 'r) poller =
  po_engine :: 'e
  po_last :: WordFingerprint
  po_cache :: "'r MultiLevelCache option"
  po_metrics :: engine_metrics

section \<open>Rebuilding\<close>

text \<open>One attempt: the words are loaded and the engine is rebuilt with them.\<close>

definition rebuild_attempt ::
  "'d gorm \<Rightarrow> ('o, 'e) engine_ops \<Rightarrow> 'o \<Rightarrow> 'd \<Rightarrow> 'e \<Rightarrow> engine_metrics \<Rightarrow>
   (error option \<times> 'e \<times> engine_metrics) option" where
  "rebuild_attempt g ops ord d e m =
     (case FindAllActive g d of
        Inl err \<Rightarrow> Some (Some err, e, m\<lparr>em_failures_load := em_failures_load m + 1\<rparr>)
      | Inr words \<Rightarrow>
          (case eo_rebuild ops ord e words of
             None \<Rightarrow> None
           | Some (None, e') \<Rightarrow>
               Some (None, e', m\<lparr>em_rebuilds := em_rebuilds m + 1, em_word_count := eo_count ops e'\<rparr>)
           | Some (Some err, e') \<Rightarrow>
               Some (Some err, e', m\<lparr>em_failures_rebuild := em_failures_rebuild m + 1\<rparr>)))"

text \<open>The loop over the attempts; the last component collects the waits.\<close>

function rebuild_loop ::
  "'d gorm \<Rightarrow> ('o, 'e) engine_ops \<Rightarrow> int \<Rightarrow> ('d, 'o) tick \<Rightarrow> int \<Rightarrow> int \<Rightarrow> error option \<Rightarrow> 'e \<Rightarrow>
   engine_metrics \<Rightarrow> (error option \<times> 'e \<times> engine_metrics \<times> int list) option" where
  "rebuild_loop g ops maxAttempts tk attempt backoff err e m =
     (if attempt > maxAttempts then Some (err, e, m, [])
      else case rebuild_attempt g ops (tk_ord tk (nat attempt)) (tk_db tk (nat attempt)) e m of
          None \<Rightarrow> None
        | Some (None, e', m') \<Rightarrow> Some (None, e', m', [])
        | Some (Some err', e', m') \<Rightarrow>
            (if attempt = maxAttempts then Some (Some err', e', m', [])
             else case tk_done tk (nat attempt) of
                 Some ctx_err \<Rightarrow> Some (Some ctx_err, e', m', [])
               | None \<Rightarrow>
                   map_option (\<lambda>(x, e'', m'', waits). (x, e'', m'', backoff # waits))
                     (rebuild_loop g ops maxAttempts tk (attempt + 1) (backoff * 2) (Some err') e' m')))"
  by pat_completeness auto

termination
  by (relation "measure (\<lambda>(g, ops, n, tk, attempt, backoff, err, e, m). nat (n + 1 - attempt))") auto

declare rebuild_loop.simps [simp del]

definition rebuildWithRetry ::
  "'d gorm \<Rightarrow> ('o, 'e) engine_ops \<Rightarrow> pollConfig \<Rightarrow> ('d, 'o) tick \<Rightarrow> 'e \<Rightarrow> engine_metrics \<Rightarrow>
   (error option \<times> 'e \<times> engine_metrics \<times> int list) option" where
  "rebuildWithRetry g ops cfg tk e m =
     rebuild_loop g ops (pc_maxAttempts cfg) tk 1 (pc_retryBackoff cfg) None e m"

section \<open>A round\<close>

definition reconcileOnce ::
  "('d, 'r) word_deps \<Rightarrow> ('o, 'e) engine_ops \<Rightarrow> pollConfig \<Rightarrow> ('d, 'o) tick \<Rightarrow> ('e, 'r) poller \<Rightarrow>
   ('e, 'r) poller option" where
  "reconcileOnce dp ops cfg tk s =
     (let m = po_metrics s in
      case ActiveFingerprint (dp_gorm dp) (tk_db tk 0) of
        Inl err \<Rightarrow>
          Some (s\<lparr>po_metrics := m\<lparr>em_checks_error := em_checks_error m + 1,
            em_failures_fingerprint := em_failures_fingerprint m + 1\<rparr>\<rparr>)
      | Inr fpBefore \<Rightarrow>
          (if fpBefore = po_last s
           then Some (s\<lparr>po_metrics := m\<lparr>em_checks_unchanged := em_checks_unchanged m + 1\<rparr>\<rparr>)
           else
             (let m1 = m\<lparr>em_checks_changed := em_checks_changed m + 1\<rparr> in
              case rebuildWithRetry (dp_gorm dp) ops cfg tk (po_engine s) m1 of
                None \<Rightarrow> None
              | Some (Some err, e, m2, _) \<Rightarrow> Some (s\<lparr>po_engine := e, po_metrics := m2\<rparr>)
              | Some (None, e, m2, _) \<Rightarrow>
                  (case invalidatePrefix dp ''filter:'' \<lparr>st_db = tk_db tk 0, st_cache = po_cache s\<rparr> of
                     None \<Rightarrow> None
                   | Some t \<Rightarrow>
                       Some (s\<lparr>po_engine := e, po_last := fpBefore, po_cache := st_cache t,
                              po_metrics := m2\<rparr>)))))"

text \<open>The words are loaded before the fingerprint is taken; the two may meet different tables.\<close>

definition InitEngine ::
  "('d, 'r) word_deps \<Rightarrow> ('o, 'e) engine_ops \<Rightarrow> ('d, 'o) tick \<Rightarrow> ('e, 'r) poller \<Rightarrow>
   (error option \<times> ('e, 'r) poller) option" where
  "InitEngine dp ops tk s =
     (case FindAllActive (dp_gorm dp) (tk_db tk 0) of
        Inl err \<Rightarrow> Some (Some err, s)
      | Inr words \<Rightarrow>
          (case eo_rebuild ops (tk_ord tk 0) (po_engine s) words of
             None \<Rightarrow> None
           | Some (Some err, e) \<Rightarrow> Some (Some err, s\<lparr>po_engine := e\<rparr>)
           | Some (None, e) \<Rightarrow>
               (let s1 = s\<lparr>po_engine := e,
                      po_metrics := (po_metrics s)\<lparr>em_word_count := eo_count ops e\<rparr>\<rparr>
                in case ActiveFingerprint (dp_gorm dp) (tk_db tk 1) of
                     Inl err \<Rightarrow> Some (None, s1)
                   | Inr fp \<Rightarrow> Some (None, s1\<lparr>po_last := fp\<rparr>))))"

section \<open>The loop\<close>

text \<open>\<open>Int63n\<close> panics unless its argument is positive; \<open>r\<close> is the random number it draws.\<close>

definition Int63n :: "int \<Rightarrow> int \<Rightarrow> int option" where
  "Int63n n r = (if n \<le> 0 then None else Some (r mod n))"

definition next_wait :: "pollConfig \<Rightarrow> int \<Rightarrow> int option" where
  "next_wait cfg r =
     (if pc_jitter cfg > 0 then map_option (\<lambda>j. pc_interval cfg + j) (Int63n (pc_jitter cfg) r)
      else Some (pc_interval cfg))"

text \<open>The rounds made so far, with the waits after them; a round after which the context is done is the last.\<close>

fun poll_rounds ::
  "('d, 'r) word_deps \<Rightarrow> ('o, 'e) engine_ops \<Rightarrow> pollConfig \<Rightarrow> ('d, 'o) tick list \<Rightarrow> ('e, 'r) poller \<Rightarrow>
   (('e, 'r) poller \<times> int list) option" where
  "poll_rounds dp ops cfg [] s = Some (s, [])"
| "poll_rounds dp ops cfg (tk # tks) s =
     (case reconcileOnce dp ops cfg tk s of
        None \<Rightarrow> None
      | Some s' \<Rightarrow>
          (case next_wait cfg (tk_rand tk) of
             None \<Rightarrow> None
           | Some nextWait \<Rightarrow>
               if tk_stop tk then Some (s', [nextWait])
               else map_option (\<lambda>(s'', ws). (s'', nextWait # ws)) (poll_rounds dp ops cfg tks s')))"

definition pollLoop ::
  "('d, 'r) word_deps \<Rightarrow> ('o, 'e) engine_ops \<Rightarrow> pollConfig \<Rightarrow> int \<Rightarrow> bool \<Rightarrow> ('d, 'o) tick list \<Rightarrow>
   ('e, 'r) poller \<Rightarrow> (('e, 'r) poller \<times> int list) option" where
  "pollLoop dp ops cfg r stop tks s =
     (case Int63n (pc_interval cfg) r of
        None \<Rightarrow> None
      | Some initialDelay \<Rightarrow>
          if stop then Some (s, [initialDelay])
          else map_option (\<lambda>(s', ws). (s', initialDelay # ws)) (poll_rounds dp ops cfg tks s))"

section \<open>Start and Close\<close>

text \<open>
  \<open>lc_cancel\<close> is whether \<open>s.cancel\<close> is set, \<open>lc_once\<close> whether \<open>closeOnce\<close> has run, \<open>lc_stopped\<close>
  whether the context of the loop has been cancelled, and \<open>lc_loops\<close> the loops started.
\<close>

record lifecycle =
  lc_cancel :: bool
  lc_once :: bool
  lc_stopped :: bool
  lc_loops :: nat

definition NewWordAppService :: lifecycle where
  "NewWordAppService = \<lparr>lc_cancel = False, lc_once = False, lc_stopped = False, lc_loops = 0\<rparr>"

definition Start :: "lifecycle \<Rightarrow> lifecycle" where
  "Start s = (if lc_cancel s then s else s\<lparr>lc_cancel := True, lc_loops := lc_loops s + 1\<rparr>)"

definition Close :: "lifecycle \<Rightarrow> lifecycle" where
  "Close s =
     (if lc_once s then s
      else s\<lparr>lc_once := True, lc_stopped := (if lc_cancel s then True else lc_stopped s)\<rparr>)"

section \<open>The contract of the engine\<close>

locale word_engine =
  fixes rb :: "'o \<Rightarrow> 'e \<Rightarrow> SensitiveWord list \<Rightarrow> (error option \<times> 'e) option"
    and holds :: "'e \<Rightarrow> SensitiveWord list \<Rightarrow> bool"
    and admissible :: "'o \<Rightarrow> bool"
  assumes rb_holds: "admissible ord \<Longrightarrow> rb ord e ws = Some (None, e') \<Longrightarrow> holds e' ws"
    and rb_fails: "rb ord e ws = Some (Some err, e') \<Longrightarrow> e' = e"
begin

lemma attempt_cases:
  assumes "eo_rebuild ops = rb" "rebuild_attempt g ops ord d e m = Some (x, e', m')"
  shows "x = None \<Longrightarrow> \<exists>ws. FindAllActive g d = Inr ws \<and> (admissible ord \<longrightarrow> holds e' ws)"
    and "x \<noteq> None \<Longrightarrow> e' = e"
  using assms rb_holds [unfolded assms(1) [symmetric]] rb_fails [unfolded assms(1) [symmetric]]
  by (auto simp: rebuild_attempt_def split: sum.splits option.splits)

lemma rebuild_loop_result:
  assumes "eo_rebuild ops = rb" "\<forall>k. admissible (tk_ord tk k)"
  shows "rebuild_loop g ops n tk a b err e m = Some (x, e', m', waits) \<Longrightarrow> a \<le> n \<Longrightarrow>
    (x = None \<longrightarrow> (\<exists>k ws. FindAllActive g (tk_db tk k) = Inr ws \<and> holds e' ws)) \<and>
    (x \<noteq> None \<longrightarrow> e' = e) \<and>
    waits = map (\<lambda>i. b * 2 ^ i) [0 ..< length waits] \<and> int (length waits) \<le> n - a"
proof (induction "nat (n - a)" arbitrary: a b err e m x e' m' waits rule: less_induct)
  case less
  obtain x1 e1 m1 where r: "rebuild_attempt g ops (tk_ord tk (nat a)) (tk_db tk (nat a)) e m = Some (x1, e1, m1)"
    using less.prems by (subst (asm) rebuild_loop.simps) (auto split: option.splits if_splits)
  note R = attempt_cases [OF assms(1) r]
  show ?case
  proof (cases "x1 = None \<or> a = n \<or> tk_done tk (nat a) \<noteq> None")
    case True
    then have "e' = e1 \<and> waits = [] \<and> (x = None \<longleftrightarrow> x1 = None)"
      using less.prems r
      by (subst (asm) rebuild_loop.simps) (auto split: option.splits if_splits; metis)
    with R assms(2) less.prems(2) show ?thesis by auto
  next
    case False
    then obtain err1 ws where step: "x1 = Some err1" "waits = b # ws"
      "rebuild_loop g ops n tk (a + 1) (b * 2) (Some err1) e1 m1 = Some (x, e', m', ws)"
      using less.prems r by (subst (asm) rebuild_loop.simps) (auto split: option.splits if_splits)
    have e1: "e1 = e" using R(2) step(1) by simp
    have dec: "nat (n - (a + 1)) < nat (n - a)" "a + 1 \<le> n" using less.prems(2) False by auto
    note ih = less.hyps [OF dec(1) step(3) dec(2), unfolded e1]
    have "waits = map (\<lambda>i. b * 2 ^ i) [0 ..< length waits]"
    proof -
      have "ws = map (\<lambda>i. b * 2 ^ Suc i) [0 ..< length ws]" using ih by (simp add: mult.assoc)
      then have "b # ws = map (\<lambda>i. b * 2 ^ i) (0 # map Suc [0 ..< length ws])" by (simp add: comp_def)
      then show ?thesis unfolding step(2) by (simp add: map_Suc_upt upt_conv_Cons del: upt_Suc)
    qed
    with ih step(2) dec show ?thesis by auto
  qed
qed

lemma round_result:
  assumes "eo_rebuild ops = rb" "\<forall>k. admissible (tk_ord tk k)" "1 \<le> pc_maxAttempts cfg"
    and "reconcileOnce dp ops cfg tk s = Some s'"
  shows "po_last s' = po_last s \<and> po_engine s' = po_engine s \<or>
    (\<exists>k ws. ActiveFingerprint (dp_gorm dp) (tk_db tk 0) = Inr (po_last s') \<and>
       FindAllActive (dp_gorm dp) (tk_db tk k) = Inr ws \<and> holds (po_engine s') ws)"
proof -
  note L = rebuild_loop_result [OF assms(1,2), where a = 1 and n = "pc_maxAttempts cfg"]
  show ?thesis
    using assms(4)
    by (auto simp: reconcileOnce_def rebuildWithRetry_def Let_def
        split: sum.splits option.splits if_splits dest!: L intro: assms(3))
qed

end

text \<open>An engine whose rebuild always returns without an error.\<close>

locale sure_engine = word_engine +
  assumes rb_returns: "admissible ord \<Longrightarrow> \<exists>e'. rb ord e ws = Some (None, e')"
begin

lemma rebuild_loop_heals:
  assumes "eo_rebuild ops = rb" "\<forall>k. admissible (tk_ord tk k)"
    and "FindAllActive g (tk_db tk k) = Inr ws"
  shows "1 \<le> a \<Longrightarrow> a \<le> k \<Longrightarrow> int k \<le> n \<Longrightarrow>
    (\<forall>j. a \<le> j \<and> j < k \<longrightarrow> (\<exists>err. FindAllActive g (tk_db tk j) = Inl err) \<and> tk_done tk j = None) \<Longrightarrow>
    \<exists>e' m' waits. rebuild_loop g ops n tk (int a) b err e m = Some (None, e', m', waits) \<and> holds e' ws \<and>
      length waits = k - a \<and> em_rebuilds m' = em_rebuilds m + 1 \<and>
      em_failures_load m' = em_failures_load m + (k - a)"
proof (induction "k - a" arbitrary: a b err m)
  case 0
  obtain e' where e': "rb (tk_ord tk k) e ws = Some (None, e')" using rb_returns assms(2) by blast
  then have "holds e' ws" using rb_holds assms(2) by blast
  with 0 assms e' show ?case
    by (subst rebuild_loop.simps) (auto simp: rebuild_attempt_def)
next
  case (Suc i)
  then have a: "a < k" by simp
  obtain err1 where f: "FindAllActive g (tk_db tk a) = Inl err1" "tk_done tk a = None"
    using Suc.prems(4) a by blast
  let ?m = "m\<lparr>em_failures_load := em_failures_load m + 1\<rparr>"
  have "\<exists>e' m' waits. rebuild_loop g ops n tk (int (Suc a)) (b * 2) (Some err1) e ?m = Some (None, e', m', waits) \<and>
      holds e' ws \<and> length waits = k - Suc a \<and> em_rebuilds m' = em_rebuilds ?m + 1 \<and>
      em_failures_load m' = em_failures_load ?m + (k - Suc a)"
    by (rule Suc.hyps(1)) (use Suc a in auto)
  moreover have "rebuild_loop g ops n tk (int a) b err e m =
      map_option (\<lambda>(x, e'', m'', waits). (x, e'', m'', b # waits))
        (rebuild_loop g ops n tk (int (Suc a)) (b * 2) (Some err1) e ?m)"
    using f a Suc.prems(3) by (subst rebuild_loop.simps) (auto simp: rebuild_attempt_def add.commute)
  ultimately show ?case using a by fastforce
qed

end

context sure_engine begin

lemma rebuild_loop_returns:
  assumes "eo_rebuild ops = rb" "\<forall>k. admissible (tk_ord tk k)"
  shows "rebuild_loop g ops n tk a b err e m \<noteq> None"
proof (induction "nat (n + 1 - a)" arbitrary: a b err e m rule: less_induct)
  case less
  have "rebuild_attempt g ops ord d e m \<noteq> None" if "admissible ord" for ord d
    using rb_returns [OF that, of e] assms(1)
    by (auto simp: rebuild_attempt_def split: sum.splits option.splits) (metis option.distinct(1))
  then obtain x1 e1 m1 where r:
    "rebuild_attempt g ops (tk_ord tk (nat a)) (tk_db tk (nat a)) e m = Some (x1, e1, m1)"
    using assms(2) by fastforce
  have "rebuild_loop g ops n tk (a + 1) (b * 2) x1 e1 m1 \<noteq> None" if "\<not> a > n"
    by (rule less.hyps) (use that in auto)
  with r show ?case by (subst rebuild_loop.simps) (auto split: option.splits)
qed

lemma healing_round:
  assumes "eo_rebuild ops = rb" "\<forall>k. admissible (tk_ord tk k)"
    and "ActiveFingerprint (dp_gorm dp) (tk_db tk 0) = Inr fp" "fp \<noteq> po_last s"
    and "1 \<le> k" "int k \<le> pc_maxAttempts cfg" "FindAllActive (dp_gorm dp) (tk_db tk k) = Inr ws"
    and "\<forall>j. 1 \<le> j \<and> j < k \<longrightarrow>
      (\<exists>err. FindAllActive (dp_gorm dp) (tk_db tk j) = Inl err) \<and> tk_done tk j = None"
    and "invalidatePrefix dp ''filter:'' \<lparr>st_db = tk_db tk 0, st_cache = po_cache s\<rparr> = Some t"
  shows "\<exists>s'. reconcileOnce dp ops cfg tk s = Some s' \<and> po_last s' = fp \<and> holds (po_engine s') ws \<and>
    po_cache s' = st_cache t \<and> em_rebuilds (po_metrics s') = em_rebuilds (po_metrics s) + 1 \<and>
    em_failures_load (po_metrics s') = em_failures_load (po_metrics s) + (k - 1)"
proof -
  let ?m = "(po_metrics s)\<lparr>em_checks_changed := em_checks_changed (po_metrics s) + 1\<rparr>"
  have "(1::nat) \<le> 1" by simp
  from rebuild_loop_heals [OF assms(1,2,7) this assms(5,6,8), of "pc_retryBackoff cfg" None "po_engine s" ?m]
  obtain e' m' waits where r: "rebuildWithRetry (dp_gorm dp) ops cfg tk (po_engine s) ?m = Some (None, e', m', waits)"
    "holds e' ws" "em_rebuilds m' = em_rebuilds (po_metrics s) + 1"
    "em_failures_load m' = em_failures_load (po_metrics s) + (k - 1)"
    by (auto simp: rebuildWithRetry_def)
  with assms(3,4,9) show ?thesis by (simp add: reconcileOnce_def Let_def)
qed

end

interpretation ac_engine: sure_engine "eo_rebuild (ac_engine_ops u)" "engine_holds u"
  "\<lambda>ord. \<forall>a. iteration_order (ord a)" for u
proof unfold_locales
  fix ord :: range_order and e ws
  assume o: "\<forall>a. iteration_order (ord a)"
  show "\<exists>e'. eo_rebuild (ac_engine_ops u) ord e ws = Some (None, e')"
    using eng.rebuild_total [OF o] by (fastforce simp: ac_engine_ops_def)
  fix e'
  assume "eo_rebuild (ac_engine_ops u) ord e ws = Some (None, e')"
  then show "engine_holds u e' ws" using eng.rebuild_holds [OF o] by (auto simp: ac_engine_ops_def)
qed (auto simp: ac_engine_ops_def)

section \<open>Rounds against a table that changes\<close>

text \<open>The table over time, and rounds whose queries meet it at times that do not go back.\<close>

fun timely :: "(nat \<Rightarrow> 'd) \<Rightarrow> nat \<Rightarrow> ('d, 'o) tick list \<Rightarrow> nat \<Rightarrow> bool" where
  "timely hist a [] b \<longleftrightarrow> a \<le> b"
| "timely hist a (tk # tks) b \<longleftrightarrow>
     (\<exists>tm c. mono tm \<and> a \<le> tm 0 \<and> (\<forall>k. tm k \<le> c \<and> tk_db tk k = hist (tm k)) \<and> timely hist c tks b)"

text \<open>
  The state is behind the table: the fingerprint was taken, and then the words loaded, from tables
  of the past, in this order. This is the invariant the comment of \<open>reconcileOnce\<close> asks for.
\<close>

definition active_entities :: "SensitiveWordModel list \<Rightarrow> SensitiveWord list" where
  "active_entities rows = map ToEntity (active_rows rows)"

definition behind ::
  "('e \<Rightarrow> SensitiveWord list \<Rightarrow> bool) \<Rightarrow> (nat \<Rightarrow> SensitiveWordModel list) \<Rightarrow> nat \<Rightarrow> ('e, 'r) poller \<Rightarrow> bool" where
  "behind holds table now s \<longleftrightarrow>
     (\<exists>tf tl ws. tf \<le> tl \<and> tl \<le> now \<and> po_last s = fingerprint_of (active_rows (table tf)) \<and>
        holds (po_engine s) ws \<and> mset ws = mset (active_entities (table tl)))"

lemma behind_later: "behind holds table a s \<Longrightarrow> a \<le> b \<Longrightarrow> behind holds table b s"
  unfolding behind_def using order_trans by blast

lemma FindAllActive_ok:
  assumes "read_ok g like rows" "FindAllActive g d = Inr ws"
  shows "mset ws = mset (active_entities (rows d))"
proof -
  obtain ms where ms: "g_find g [StatusIs 1] d = Inr ms" "ws = map ToEntity ms"
    using assms(2) by (auto simp: FindAllActive_def split: sum.splits)
  have "mset ms = mset (selected like [StatusIs 1] (rows d))" using assms(1) ms(1) unfolding read_ok_def by blast
  then show ?thesis by (simp add: ms(2) active_entities_def selected_active)
qed

lemma timely_le: "timely hist a tks b \<Longrightarrow> a \<le> b"
  by (induction tks arbitrary: a) (auto, metis order_trans)

context word_engine begin

lemma failed_attempts_change_nothing:
  assumes "eo_rebuild ops = rb" "\<forall>k. admissible (tk_ord tk k)" "1 \<le> pc_maxAttempts cfg"
    and "rebuildWithRetry (dp_gorm dp) ops cfg tk (po_engine s) m = Some (Some err, e', m', waits)"
    and "reconcileOnce dp ops cfg tk s = Some s'"
    and "m = (po_metrics s)\<lparr>em_checks_changed := em_checks_changed (po_metrics s) + 1\<rparr>"
  shows "po_engine s' = po_engine s" "po_last s' = po_last s" "po_cache s' = po_cache s"
  using rebuild_loop_result [OF assms(1,2) assms(4) [unfolded rebuildWithRetry_def] assms(3)] assms(4-6)
  by (auto simp: reconcileOnce_def Let_def split: sum.splits if_splits)

lemma rounds_behind:
  assumes "eo_rebuild ops = rb" "1 \<le> pc_maxAttempts cfg"
    and "read_ok (dp_gorm dp) like rows" "fingerprint_ok (dp_gorm dp) rows"
  shows "\<forall>tk \<in> set tks. \<forall>k. admissible (tk_ord tk k) \<Longrightarrow> timely hist a tks b \<Longrightarrow>
    behind holds (\<lambda>t. rows (hist t)) a s \<Longrightarrow> poll_rounds dp ops cfg tks s = Some (s', waits) \<Longrightarrow>
    behind holds (\<lambda>t. rows (hist t)) b s'"
proof (induction tks arbitrary: a s waits)
  case Nil
  then show ?case by (auto intro: behind_later)
next
  case (Cons tk tks)
  obtain tm c where t: "mono tm" "a \<le> tm 0" "\<forall>k. tm k \<le> c \<and> tk_db tk k = hist (tm k)" "timely hist c tks b"
    using Cons.prems(2) by auto
  obtain s1 where s1: "reconcileOnce dp ops cfg tk s = Some s1"
    "s' = s1 \<or> (\<exists>ws. poll_rounds dp ops cfg tks s1 = Some (s', ws))"
    using Cons.prems(4) by (auto split: option.splits if_splits)
  have "behind holds (\<lambda>t. rows (hist t)) c s1"
  proof -
    have "a \<le> c" using t(2,3) order_trans by blast
    consider "po_last s1 = po_last s" "po_engine s1 = po_engine s"
      | k ws where "ActiveFingerprint (dp_gorm dp) (tk_db tk 0) = Inr (po_last s1)"
          "FindAllActive (dp_gorm dp) (tk_db tk k) = Inr ws" "holds (po_engine s1) ws"
      using round_result [OF assms(1) _ assms(2) s1(1)] Cons.prems(1) by auto
    then show ?thesis
    proof cases
      case 1
      with behind_later [OF Cons.prems(3) \<open>a \<le> c\<close>] show ?thesis by (simp add: behind_def)
    next
      case (2 k ws)
      have "po_last s1 = fingerprint_of (active_rows (rows (hist (tm 0))))"
        using ActiveFingerprint_ok [OF assms(4) 2(1)] t(3) by simp
      moreover have "mset ws = mset (active_entities (rows (hist (tm k))))"
        using FindAllActive_ok [OF assms(3) 2(2)] t(3) by simp
      ultimately show ?thesis unfolding behind_def using 2(3) t(3) monoD [OF t(1), of 0 k] by blast
    qed
  qed
  with s1(2) Cons.IH [OF _ t(4)] Cons.prems(1) behind_later timely_le [OF t(4)] show ?case by auto
qed

end

text \<open>A round that finds the fingerprint it remembers does nothing but count.\<close>

lemma skipped_round:
  assumes "\<And>fp. ActiveFingerprint (dp_gorm dp) (tk_db tk 0) = Inr fp \<Longrightarrow> fp = po_last s"
  shows "\<exists>m. reconcileOnce dp ops cfg tk s = Some (s\<lparr>po_metrics := m\<rparr>)"
  using assms by (cases "ActiveFingerprint (dp_gorm dp) (tk_db tk 0)") (auto simp: reconcileOnce_def Let_def)

lemma skipped_rounds:
  assumes "\<forall>tk \<in> set tks. \<forall>fp. ActiveFingerprint (dp_gorm dp) (tk_db tk 0) = Inr fp \<longrightarrow> fp = po_last s"
    and "poll_rounds dp ops cfg tks s = Some (s', waits)"
  shows "\<exists>m. s' = s\<lparr>po_metrics := m\<rparr>"
  using assms
proof (induction tks arbitrary: s waits)
  case Nil
  then show ?case by (auto intro: exI [of _ "po_metrics s"])
next
  case (Cons tk tks)
  have "\<And>fp. ActiveFingerprint (dp_gorm dp) (tk_db tk 0) = Inr fp \<Longrightarrow> fp = po_last s"
    using Cons.prems(1) by simp
  then obtain m where "reconcileOnce dp ops cfg tk s = Some (s\<lparr>po_metrics := m\<rparr>)"
    using skipped_round by blast
  with Cons.prems(2) have "s' = s\<lparr>po_metrics := m\<rparr> \<or>
      (\<exists>ws. poll_rounds dp ops cfg tks (s\<lparr>po_metrics := m\<rparr>) = Some (s', ws))"
    by (auto split: option.splits if_splits)
  then show ?case
  proof
    assume "\<exists>ws. poll_rounds dp ops cfg tks (s\<lparr>po_metrics := m\<rparr>) = Some (s', ws)"
    then obtain ws where "poll_rounds dp ops cfg tks (s\<lparr>po_metrics := m\<rparr>) = Some (s', ws)" by blast
    from Cons.IH [OF _ this] Cons.prems(1) show ?thesis by simp
  qed blast
qed

section \<open>What the engine answers\<close>

definition answers_for :: "unicode_data \<Rightarrow> ACFilterEngine \<Rightarrow> SensitiveWordModel list \<Rightarrow> bool" where
  "answers_for u e active \<longleftrightarrow>
     (\<forall>t. \<exists>r. Match u e t = Some r \<and>
        (mr_Matches r \<noteq> [] \<longleftrightarrow>
          (\<exists>m \<in> set active. \<exists>pos. occurs_at (runes_of (Normalize u (md_Text m))) (runes_of (Normalize u t)) pos)))"

lemma holds_answers:
  assumes "engine_holds u e ws" "mset ws = mset (active_entities rows)"
  shows "answers_for u e (active_rows rows)"
proof -
  have "set ws = ToEntity ` set (active_rows rows)"
    using mset_eq_setD [OF assms(2)] by (simp add: active_entities_def)
  moreover have "IsActive (ToEntity m)" if "m \<in> set (active_rows rows)" for m
    using that by (simp add: active_rows_def IsActive_def ToEntity_def WordStatus_IsActive_def WordStatusActive_def)
  ultimately have "mr_Matches (engine_verdict u ws t) \<noteq> [] \<longleftrightarrow>
      (\<exists>m \<in> set (active_rows rows).
         \<exists>pos. occurs_at (runes_of (Normalize u (md_Text m))) (runes_of (Normalize u t)) pos)" for t
    by (simp add: verdict_hit_iff word_pattern_def) (simp add: ToEntity_def)
  moreover have "Match u e t = Some (engine_verdict u ws t)" for t by (rule eng.lookup_holds [OF assms(1)])
  ultimately show ?thesis by (simp add: answers_for_def)
qed

section \<open>Examples\<close>

definition steady_tick :: "'d \<Rightarrow> ('d, range_order) tick" where
  "steady_tick d =
     \<lparr>tk_db = (\<lambda>_. d), tk_ord = (\<lambda>_ _ xs. xs), tk_done = (\<lambda>_. None), tk_stop = False, tk_rand = 0\<rparr>"

definition sample_table :: "SensitiveWordModel list \<Rightarrow> table" where
  "sample_table rows = \<lparr>tb_rows = rows, tb_next = 9, tb_clock = 9000\<rparr>"

definition sample_poller :: "ACFilterEngine \<Rightarrow> (ACFilterEngine, (gostring, bytes) gomap) poller" where
  "sample_poller e =
     \<lparr>po_engine = e, po_last = fingerprint_of [], po_cache = None,
      po_metrics = \<lparr>em_checks_error = 0, em_checks_unchanged = 0, em_checks_changed = 0,
        em_failures_fingerprint = 0, em_failures_rebuild = 0, em_failures_load = 0, em_rebuilds = 0,
        em_word_count = 0\<rparr>\<rparr>"

lemma steady_tick_select [simp]:
  "tk_db (steady_tick d) k = d" "tk_ord (steady_tick d) k a = (\<lambda>xs. xs)" "tk_done (steady_tick d) k = None"
  "tk_stop (steady_tick d) = False" "tk_rand (steady_tick d) = 0"
  by (simp_all add: steady_tick_def)

lemma sample_poller_select [simp]:
  "po_engine (sample_poller e) = e" "po_last (sample_poller e) = fingerprint_of []"
  "po_cache (sample_poller e) = None"
  by (simp_all add: sample_poller_def)

lemma sample_queries:
  "ActiveFingerprint table_gorm (sample_table rows) = Inr (fingerprint_of (active_rows rows))"
  "FindAllActive table_gorm (sample_table rows) = Inr (active_entities rows)"
  by (simp_all add: ActiveFingerprint_def FindAllActive_def table_gorm_def sample_table_def selected_active
      fingerprint_row_def fingerprint_of_def active_entities_def)

lemma sample_invalidate:
  "invalidatePrefix sample_deps pfx \<lparr>st_db = d, st_cache = None\<rparr> = Some \<lparr>st_db = d, st_cache = None\<rparr>"
  by (simp add: invalidatePrefix_def)

lemma default_next_wait: "next_wait defaultPollConfig 0 = Some (500 * millisecond)"
  by (simp add: next_wait_def defaultPollConfig_def Int63n_def)

lemma sample_ok:
  "read_ok (dp_gorm sample_deps) contains tb_rows" "fingerprint_ok (dp_gorm sample_deps) tb_rows"
  by (simp_all add: table_read_ok table_fingerprint_ok)

lemma default_attempts: "pc_maxAttempts defaultPollConfig = 3" by (simp add: defaultPollConfig_def)

lemma sample_round:
  assumes "\<forall>k a. iteration_order (tk_ord tk k a)" "tk_db tk 0 = sample_table rows0"
    "tk_db tk 1 = sample_table rows1" "active_rows rows0 \<noteq> []"
  shows "\<exists>s'. reconcileOnce sample_deps (ac_engine_ops ascii_data) defaultPollConfig tk (sample_poller e) = Some s' \<and>
    po_last s' = fingerprint_of (active_rows rows0)"
proof -
  let ?s = "sample_poller e"
  have "ActiveFingerprint (dp_gorm sample_deps) (tk_db tk 0) = Inr (fingerprint_of (active_rows rows0))"
    "FindAllActive (dp_gorm sample_deps) (tk_db tk 1) = Inr (active_entities rows1)"
    "fingerprint_of (active_rows rows0) \<noteq> po_last ?s"
    "invalidatePrefix sample_deps ''filter:'' \<lparr>st_db = tk_db tk 0, st_cache = po_cache ?s\<rparr> =
      Some \<lparr>st_db = tk_db tk 0, st_cache = None\<rparr>"
    using assms by (simp_all add: sample_queries sample_invalidate fingerprint_of_def)
  from ac_engine.healing_round [OF refl _ this(1,3) _ _ this(2) _ this(4), of defaultPollConfig ascii_data] assms(1)
  show ?thesis by (auto simp: default_attempts)
qed

section \<open>Properties\<close>



text \<open>
  Claim C29. The loop heals itself: when the fingerprint differs from the one remembered and some attempt
  within the limit loads the words, the attempts before it failing without the context ending,
  the round returns with the fingerprint it took first remembered, one rebuild and the failed loads
  counted, and an engine that answers by the active words of the table as it was loaded. Rounds
  after it that meet the same fingerprint, or an error, leave engine, fingerprint and cache alone.
\<close>

theorem quiet_table_is_loaded:
  assumes "read_ok (dp_gorm dp) like rows" and "\<forall>k a. iteration_order (tk_ord tk k a)"
    and "ActiveFingerprint (dp_gorm dp) (tk_db tk 0) = Inr fp" and "fp \<noteq> po_last s"
    and "1 \<le> k" and "int k \<le> pc_maxAttempts cfg" and "FindAllActive (dp_gorm dp) (tk_db tk k) = Inr ws"
    and "\<forall>j. 1 \<le> j \<and> j < k \<longrightarrow>
      (\<exists>err. FindAllActive (dp_gorm dp) (tk_db tk j) = Inl err) \<and> tk_done tk j = None"
    and "invalidatePrefix dp ''filter:'' \<lparr>st_db = tk_db tk 0, st_cache = po_cache s\<rparr> = Some t"
    and "\<forall>tk' \<in> set tks. \<forall>fp'. ActiveFingerprint (dp_gorm dp) (tk_db tk' 0) = Inr fp' \<longrightarrow> fp' = fp"
  shows "\<exists>s'. reconcileOnce dp (ac_engine_ops u) cfg tk s = Some s' \<and> po_last s' = fp \<and>
    answers_for u (po_engine s') (active_rows (rows (tk_db tk k))) \<and>
    em_rebuilds (po_metrics s') = em_rebuilds (po_metrics s) + 1 \<and>
    em_failures_load (po_metrics s') = em_failures_load (po_metrics s) + (k - 1) \<and>
    (\<forall>s'' waits. poll_rounds dp (ac_engine_ops u) cfg tks s' = Some (s'', waits) \<longrightarrow>
       (\<exists>m. s'' = s'\<lparr>po_metrics := m\<rparr>))"
proof -
  have o: "\<forall>k. \<forall>a. iteration_order (tk_ord tk k a)" using assms(2) by blast
  obtain s' where s': "reconcileOnce dp (ac_engine_ops u) cfg tk s = Some s'" "po_last s' = fp"
    "engine_holds u (po_engine s') ws" "em_rebuilds (po_metrics s') = em_rebuilds (po_metrics s) + 1"
    "em_failures_load (po_metrics s') = em_failures_load (po_metrics s) + (k - 1)"
    using ac_engine.healing_round [OF refl o assms(3-9)] by blast
  have "answers_for u (po_engine s') (active_rows (rows (tk_db tk k)))"
    by (rule holds_answers [OF s'(3) FindAllActive_ok [OF assms(1,7)]])
  with s' skipped_rounds [of tks dp s'] assms(10) show ?thesis by blast
qed

theorem quiet_table_is_loaded_witness:
  "\<exists>e s'. reconcileOnce sample_deps (ac_engine_ops ascii_data) defaultPollConfig
      (steady_tick (sample_table [sample_row 1 ''spam'' 7])) (sample_poller e) = Some s' \<and>
    answers_for ascii_data (po_engine s') [sample_row 1 ''spam'' 7] \<and> em_rebuilds (po_metrics s') = 1"
proof -
  fix e :: ACFilterEngine
  let ?rows = "[sample_row 1 ''spam'' 7]"
  let ?tk = "steady_tick (sample_table ?rows)"
  have active: "active_rows ?rows = ?rows" by (simp add: active_rows_def sample_row_def)
  have f: "ActiveFingerprint (dp_gorm sample_deps) (tk_db ?tk 0) = Inr (fingerprint_of ?rows)"
    "FindAllActive (dp_gorm sample_deps) (tk_db ?tk 1) = Inr (active_entities ?rows)"
    by (simp_all add: sample_queries active)
  have i: "invalidatePrefix sample_deps ''filter:'' \<lparr>st_db = tk_db ?tk 0, st_cache = po_cache (sample_poller e)\<rparr> =
      Some \<lparr>st_db = tk_db ?tk 0, st_cache = None\<rparr>" by (simp add: sample_invalidate)
  have ne: "fingerprint_of ?rows \<noteq> po_last (sample_poller e)" by (simp add: fingerprint_of_def)
  have m: "em_rebuilds (po_metrics (sample_poller e)) = 0" by (simp add: sample_poller_def)
  from quiet_table_is_loaded [where tks = "[]" and u = ascii_data and cfg = defaultPollConfig,
      OF sample_ok(1) _ f(1) ne _ _ f(2) _ i] m
  have "\<exists>s'. reconcileOnce sample_deps (ac_engine_ops ascii_data) defaultPollConfig ?tk (sample_poller e) = Some s' \<and>
    answers_for ascii_data (po_engine s') ?rows \<and> em_rebuilds (po_metrics s') = 1"
    by (auto simp: sample_table_def active default_attempts)
  then show ?thesis by blast
qed

text \<open>
  Claim C30. A deleted word can stay in the engine. If the words are loaded while the table holds other
  active rows than when the fingerprint was taken, and the table then returns to that
  fingerprint, as when a word is added just before the load and deleted before the next round,
  the engine answers by the loaded words, and goes on to in every later round until the
  fingerprint changes again.
\<close>

theorem returning_fingerprint_keeps_deleted_word:
  assumes "read_ok (dp_gorm dp) like rows" and "fingerprint_ok (dp_gorm dp) rows"
    and "\<forall>k a. iteration_order (tk_ord tk k a)"
    and "ActiveFingerprint (dp_gorm dp) (tk_db tk 0) = Inr fp" and "fp \<noteq> po_last s"
    and "1 \<le> pc_maxAttempts cfg" and "FindAllActive (dp_gorm dp) (tk_db tk 1) = Inr ws"
    and "invalidatePrefix dp ''filter:'' \<lparr>st_db = tk_db tk 0, st_cache = po_cache s\<rparr> = Some t"
    and "\<forall>tk' \<in> set tks. active_rows (rows (tk_db tk' 0)) = active" and "fingerprint_of active = fp"
  shows "\<exists>s'. reconcileOnce dp (ac_engine_ops u) cfg tk s = Some s' \<and>
    (\<forall>s'' waits. poll_rounds dp (ac_engine_ops u) cfg tks s' = Some (s'', waits) \<longrightarrow>
       answers_for u (po_engine s'') (active_rows (rows (tk_db tk 1))))"
proof -
  have o: "\<forall>k. \<forall>a. iteration_order (tk_ord tk k a)" using assms(3) by blast
  obtain s' where s': "reconcileOnce dp (ac_engine_ops u) cfg tk s = Some s'" "po_last s' = fp"
    "engine_holds u (po_engine s') ws"
    using ac_engine.healing_round [OF refl o assms(4,5) _ _ assms(7) _ assms(8)] assms(6) by force
  have "\<forall>tk' \<in> set tks. \<forall>fp'. ActiveFingerprint (dp_gorm dp) (tk_db tk' 0) = Inr fp' \<longrightarrow> fp' = po_last s'"
    using ActiveFingerprint_ok [OF assms(2)] assms(9,10) s'(2) by metis
  from skipped_rounds [OF this] holds_answers [OF s'(3) FindAllActive_ok [OF assms(1,7)]] s'(1)
  show ?thesis by fastforce
qed

text \<open>The word \<open>ham\<close> is added after the fingerprint is taken and deleted after the words are loaded.\<close>

theorem returning_fingerprint_keeps_deleted_word_witness:
  "\<exists>e s'. reconcileOnce sample_deps (ac_engine_ops ascii_data) defaultPollConfig
      ((steady_tick (sample_table []))\<lparr>tk_db := (\<lambda>k. if k = 0 then sample_table [sample_row 1 ''spam'' 7]
         else sample_table [sample_row 1 ''spam'' 7, sample_row 2 ''ham'' 8])\<rparr>) (sample_poller e) = Some s' \<and>
    (\<forall>s'' waits. poll_rounds sample_deps (ac_engine_ops ascii_data) defaultPollConfig
         (replicate 5 (steady_tick (sample_table [sample_row 1 ''spam'' 7]))) s' = Some (s'', waits) \<longrightarrow>
       answers_for ascii_data (po_engine s'') [sample_row 1 ''spam'' 7, sample_row 2 ''ham'' 8])"
proof -
  fix e :: ACFilterEngine
  let ?r0 = "[sample_row 1 ''spam'' 7]" and ?r1 = "[sample_row 1 ''spam'' 7, sample_row 2 ''ham'' 8]"
  let ?tk = "(steady_tick (sample_table []))\<lparr>tk_db := (\<lambda>k. if k = 0 then sample_table ?r0 else sample_table ?r1)\<rparr>"
  have active: "active_rows ?r0 = ?r0" "active_rows ?r1 = ?r1" by (simp_all add: active_rows_def sample_row_def)
  have f: "ActiveFingerprint (dp_gorm sample_deps) (tk_db ?tk 0) = Inr (fingerprint_of ?r0)"
    "FindAllActive (dp_gorm sample_deps) (tk_db ?tk 1) = Inr (active_entities ?r1)"
    by (simp_all add: sample_queries active)
  have i: "invalidatePrefix sample_deps ''filter:'' \<lparr>st_db = tk_db ?tk 0, st_cache = po_cache (sample_poller e)\<rparr> =
      Some \<lparr>st_db = tk_db ?tk 0, st_cache = None\<rparr>" by (simp add: sample_invalidate)
  have ne: "fingerprint_of ?r0 \<noteq> po_last (sample_poller e)" by (simp add: fingerprint_of_def)
  have o: "\<forall>k a. iteration_order (tk_ord ?tk k a)" by (simp add: steady_tick_def)
  have "tb_rows (tk_db ?tk 1) = ?r1" by (simp add: sample_table_def)
  moreover have "\<forall>tk' \<in> set (replicate 5 (steady_tick (sample_table ?r0))). active_rows (tb_rows (tk_db tk' 0)) = ?r0"
    by (simp add: sample_table_def active)
  ultimately have "\<exists>s'. reconcileOnce sample_deps (ac_engine_ops ascii_data) defaultPollConfig ?tk (sample_poller e) = Some s' \<and>
      (\<forall>s'' waits. poll_rounds sample_deps (ac_engine_ops ascii_data) defaultPollConfig
         (replicate 5 (steady_tick (sample_table ?r0))) s' = Some (s'', waits) \<longrightarrow> answers_for ascii_data (po_engine s'') ?r1)"
    using returning_fingerprint_keeps_deleted_word [where cfg = defaultPollConfig and u = ascii_data
        and active = ?r0 and tks = "replicate 5 (steady_tick (sample_table ?r0))", OF sample_ok o f(1) ne _ f(2) i]
    by (simp add: default_attempts active)
  then show ?thesis by blast
qed

text \<open>
  \<open>InitEngine\<close> can skip a write: when the table changes between its load of the words and its
  fingerprint, the fingerprint it remembers is ahead of the engine, so that every later round
  finds nothing to do and the engine goes on answering by the earlier table until the
  fingerprint changes again.
\<close>

theorem init_engine_can_skip_a_write:
  assumes "read_ok (dp_gorm dp) like rows" and "fingerprint_ok (dp_gorm dp) rows"
    and "\<forall>k a. iteration_order (tk_ord tk k a)" and "FindAllActive (dp_gorm dp) (tk_db tk 0) = Inr ws"
    and "ActiveFingerprint (dp_gorm dp) (tk_db tk 1) = Inr fp"
    and "\<forall>tk' \<in> set tks. active_rows (rows (tk_db tk' 0)) = active_rows (rows (tk_db tk 1))"
  shows "\<exists>s'. InitEngine dp (ac_engine_ops u) tk s = Some (None, s') \<and>
    (\<forall>s'' waits. poll_rounds dp (ac_engine_ops u) cfg tks s' = Some (s'', waits) \<longrightarrow>
       answers_for u (po_engine s'') (active_rows (rows (tk_db tk 0))))"
proof -
  have o: "\<forall>a. iteration_order (tk_ord tk 0 a)" using assms(3) by blast
  obtain e' where e': "eo_rebuild (ac_engine_ops u) (tk_ord tk 0) (po_engine s) ws = Some (None, e')"
    using ac_engine.rb_returns [OF o] by blast
  obtain s' where s': "InitEngine dp (ac_engine_ops u) tk s = Some (None, s')" "po_engine s' = e'" "po_last s' = fp"
    using assms(4,5) e' by (simp add: InitEngine_def Let_def)
  have "\<forall>tk' \<in> set tks. \<forall>fp'. ActiveFingerprint (dp_gorm dp) (tk_db tk' 0) = Inr fp' \<longrightarrow> fp' = po_last s'"
    using ActiveFingerprint_ok [OF assms(2)] assms(5,6) s'(3) by metis
  from skipped_rounds [OF this] holds_answers [OF ac_engine.rb_holds [OF o e'] FindAllActive_ok [OF assms(1,4)]] s'(1,2)
  show ?thesis by fastforce
qed

theorem init_engine_can_skip_a_write_witness:
  "\<exists>e s'. InitEngine sample_deps (ac_engine_ops ascii_data)
      ((steady_tick (sample_table []))\<lparr>tk_db := (\<lambda>k. if k = 0 then sample_table []
         else sample_table [sample_row 1 ''spam'' 7])\<rparr>) (sample_poller e) = Some (None, s') \<and>
    (\<forall>s'' waits. poll_rounds sample_deps (ac_engine_ops ascii_data) defaultPollConfig
         (replicate 5 (steady_tick (sample_table [sample_row 1 ''spam'' 7]))) s' = Some (s'', waits) \<longrightarrow>
       answers_for ascii_data (po_engine s'') [])"
proof -
  fix e :: ACFilterEngine
  let ?r = "[sample_row 1 ''spam'' 7]"
  let ?tk = "(steady_tick (sample_table []))\<lparr>tk_db := (\<lambda>k. if k = 0 then sample_table [] else sample_table ?r)\<rparr>"
  have active: "active_rows ?r = ?r" "active_rows [] = []" by (simp_all add: active_rows_def sample_row_def)
  have f: "FindAllActive (dp_gorm sample_deps) (tk_db ?tk 0) = Inr (active_entities [])"
    "ActiveFingerprint (dp_gorm sample_deps) (tk_db ?tk 1) = Inr (fingerprint_of ?r)"
    by (simp_all add: sample_queries active)
  have o: "\<forall>k a. iteration_order (tk_ord ?tk k a)" by (simp add: steady_tick_def)
  have "tb_rows (tk_db ?tk 0) = []" "tb_rows (tk_db ?tk 1) = ?r" by (simp_all add: sample_table_def)
  moreover have "\<forall>tk' \<in> set (replicate 5 (steady_tick (sample_table ?r))). active_rows (tb_rows (tk_db tk' 0)) = ?r"
    by (simp add: sample_table_def active)
  ultimately have "\<exists>s'. InitEngine sample_deps (ac_engine_ops ascii_data) ?tk (sample_poller e) = Some (None, s') \<and>
      (\<forall>s'' waits. poll_rounds sample_deps (ac_engine_ops ascii_data) defaultPollConfig
         (replicate 5 (steady_tick (sample_table ?r))) s' = Some (s'', waits) \<longrightarrow> answers_for ascii_data (po_engine s'') [])"
    using init_engine_can_skip_a_write [OF sample_ok o f,
        of "replicate 5 (steady_tick (sample_table ?r))" ascii_data "sample_poller e" defaultPollConfig]
    by (simp add: active)
  then show ?thesis by blast
qed

text \<open>
  Claim C31. The retries of a round end and are bounded: \<open>rebuildWithRetry\<close> returns, after at most
  \<open>maxAttempts\<close> attempts, with waits that start at the backoff and double; an error means the engine is the
  one before. With the configuration of the server that is at most two waits, 600 milliseconds of
  the 10 seconds of a round, and the wait for the next round is at least 500 and less than 750
  milliseconds.
\<close>

theorem retries_are_bounded:
  assumes "\<forall>k a. iteration_order (tk_ord tk k a)" and "1 \<le> pc_maxAttempts cfg"
  shows "\<exists>x e' m' waits. rebuildWithRetry g (ac_engine_ops u) cfg tk e m = Some (x, e', m', waits) \<and>
    waits = map (\<lambda>i. pc_retryBackoff cfg * 2 ^ i) [0 ..< length waits] \<and>
    int (length waits) \<le> pc_maxAttempts cfg - 1 \<and> (x \<noteq> None \<longrightarrow> e' = e) \<and>
    (cfg = defaultPollConfig \<longrightarrow>
      sum_list waits \<le> 600 * millisecond \<and> sum_list waits < pc_queryTimeout cfg \<and>
      (\<forall>r. \<exists>w. next_wait cfg r = Some w \<and> 500 * millisecond \<le> w \<and> w < 750 * millisecond))"
proof -
  have o: "\<forall>k. \<forall>a. iteration_order (tk_ord tk k a)" using assms(1) by blast
  obtain x e' m' waits where r: "rebuildWithRetry g (ac_engine_ops u) cfg tk e m = Some (x, e', m', waits)"
    using ac_engine.rebuild_loop_returns [where u = u and g = g and n = "pc_maxAttempts cfg" and a = 1 and
        b = "pc_retryBackoff cfg" and err = None and e = e and m = m, OF refl o]
    by (auto simp: rebuildWithRetry_def)
  note R = ac_engine.rebuild_loop_result [OF refl o r [unfolded rebuildWithRetry_def] assms(2)]
  have "sum_list waits \<le> 600 * millisecond \<and> sum_list waits < pc_queryTimeout cfg" if "cfg = defaultPollConfig"
  proof -
    have n: "int (length waits) \<le> 2" "waits = map (\<lambda>i. 200 * millisecond * 2 ^ i) [0 ..< length waits]"
      using R that by (simp_all add: defaultPollConfig_def)
    from n(1) consider "length waits = 0" | "length waits = 1" | "length waits = 2" by linarith
    then have "waits = [] \<or> waits = [200 * millisecond] \<or> waits = [200 * millisecond, 400 * millisecond]"
      by cases (use n(2) in \<open>simp_all add: upt_rec\<close>)
    then show ?thesis using that by (auto simp: defaultPollConfig_def)
  qed
  moreover have "\<exists>w. next_wait defaultPollConfig r = Some w \<and> 500 * millisecond \<le> w \<and> w < 750 * millisecond" for r
    by (simp add: next_wait_def defaultPollConfig_def Int63n_def)
  ultimately show ?thesis using r R by blast
qed

theorem retries_are_bounded_witness:
  "\<exists>e m x e' m' waits. rebuildWithRetry table_gorm (ac_engine_ops ascii_data) defaultPollConfig
      (steady_tick (sample_table [])) e m = Some (x, e', m', waits) \<and> length waits \<le> 2"
proof -
  fix e m
  have "\<exists>x e' m' waits. rebuildWithRetry table_gorm (ac_engine_ops ascii_data) defaultPollConfig
      (steady_tick (sample_table [])) e m = Some (x, e', m', waits) \<and> length waits \<le> 2"
    using retries_are_bounded [of "steady_tick (sample_table [])" defaultPollConfig table_gorm ascii_data e m]
    by (auto simp: default_attempts)
  then show ?thesis by blast
qed

section \<open>Start and Close\<close>

datatype lifecycle_call = StartCall | CloseCall

fun lifecycle_run :: "lifecycle_call list \<Rightarrow> lifecycle \<Rightarrow> lifecycle" where
  "lifecycle_run [] s = s"
| "lifecycle_run (StartCall # cs) s = lifecycle_run cs (Start s)"
| "lifecycle_run (CloseCall # cs) s = lifecycle_run cs (Close s)"

lemma lifecycle_run_state:
  "lifecycle_run cs s =
     \<lparr>lc_cancel = (lc_cancel s \<or> StartCall \<in> set cs), lc_once = (lc_once s \<or> CloseCall \<in> set cs),
      lc_stopped = (lc_stopped s \<or> \<not> lc_once s \<and> CloseCall \<in> set cs \<and>
        (lc_cancel s \<or> StartCall \<in> set (takeWhile (\<lambda>c. c \<noteq> CloseCall) cs))),
      lc_loops = lc_loops s + (if \<not> lc_cancel s \<and> StartCall \<in> set cs then 1 else 0)\<rparr>"
  by (induction cs s rule: lifecycle_run.induct) (auto simp: Start_def Close_def)

text \<open>
  However often \<open>Start\<close> and \<open>Close\<close> are called, at most one loop is started, by the first
  \<open>Start\<close>; its context is cancelled exactly if a \<open>Start\<close> came before the first \<open>Close\<close>. A \<open>Close\<close> before
  the first \<open>Start\<close> uses up the one cancellation: the loop started after it is never stopped.
\<close>

theorem start_and_close:
  "lc_loops (lifecycle_run cs NewWordAppService) = (if StartCall \<in> set cs then 1 else 0) \<and>
   (lc_stopped (lifecycle_run cs NewWordAppService) \<longleftrightarrow>
      CloseCall \<in> set cs \<and> StartCall \<in> set (takeWhile (\<lambda>c. c \<noteq> CloseCall) cs))"
  by (simp add: lifecycle_run_state NewWordAppService_def)

end
