(* ===== verification/System.thy ===== *)
theory System
  imports Http Grpc Config Reconcile
begin

text \<open>
  \<open>cmd/server/main.go\<close>: how the server is put together, and the whole program: a state in which
  the requests of both interfaces, the polling and the writes of other instances take turns.
  The engine and the cache are shared by reference between the two services, so the state holds
  them twice and every step keeps the copies equal. A request is one step here; how requests
  and rebuilds interleave within a request is in theory \<open>Freshness\<close>.
\<close>

section \<open>Starting\<close>

text \<open>What \<open>main\<close> takes the middlewares and the limits from.\<close>

definition http_config :: "Config \<Rightarrow> mw_config" where
  "http_config cfg =
     \<lparr>mc_MaxBodySize = ht_MaxBodySize (sc_HTTP (cf_Server cfg)),
      mc_AllowedOrigins = co_AllowedOrigins (cf_CORS cfg),
      mc_SampleRate_positive = float_positive (tr_SampleRate (cf_Trace cfg)),
      mc_APIKeys = au_APIKeys (cf_Auth cfg)\<rparr>"

text \<open>
  The libraries and the machine: an error of one of these ends \<open>main\<close>. An error of the tracer does
  not; the order of the steps with their cleanups is in theory \<open>Lifecycle\<close>. The databases \<open>InitEngine\<close> meets are those of \<open>su_tick\<close>.
\<close>

record ('v, 'd, 'r) surroundings =
  su_viper :: "'v viper_library"
  su_getenv :: "gostring \<Rightarrow> gostring"
  su_exists :: "gostring \<Rightarrow> bool"
  su_logger :: "LogConfig \<Rightarrow> error option"
  su_mysql :: "Config \<Rightarrow> 'd result"
  su_migrate :: "'d \<Rightarrow> 'd result"
  su_redis :: "Config \<Rightarrow> 'r result"
  su_order :: range_order
  su_tick :: "'d \<Rightarrow> ('d, range_order) tick"

definition no_engine_metrics :: engine_metrics where
  "no_engine_metrics =
     \<lparr>em_checks_error = 0, em_checks_unchanged = 0, em_checks_changed = 0, em_failures_fingerprint = 0,
      em_failures_rebuild = 0, em_failures_load = 0, em_rebuilds = 0, em_word_count = 0\<rparr>"

text \<open>The running program: the configuration, the HTTP and the gRPC server, and the polling.\<close>

record ('l, 'd, 'r) program =
  pg_config :: Config
  pg_http :: "('l, ('d, 'r) app) server"
  pg_bucket :: 'l
  pg_poller :: "(ACFilterEngine, 'r) poller"
  pg_loop :: lifecycle

datatype 'p started = Exited gostring | Running 'p

text \<open>A new word service has not seen a fingerprint yet.\<close>

definition no_fingerprint :: WordFingerprint where
  "no_fingerprint = \<lparr>fp_Count = 0, fp_MaxID = 0, fp_MaxUpdatedUnixMicro = 0\<rparr>"

definition NewFilterAppService ::
  "ACFilterEngine \<Rightarrow> (FilterStrategyType, strategy_fun) gomap \<Rightarrow> 'r MultiLevelCache \<Rightarrow> 'r FilterAppService" where
  "NewFilterAppService e strategies c =
     \<lparr>fa_engine = e, fa_strategies = strategies, fa_cache = Some c, fa_hits = []\<rparr>"

text \<open>Steps 6 to 8 of \<open>main\<close>, once the connections are there.\<close>

definition build ::
  "'l rate_library \<Rightarrow> ('d, 'r) word_deps \<Rightarrow> ('d, range_order) tick \<Rightarrow> range_order \<Rightarrow> Config \<Rightarrow> 'd \<Rightarrow> 'r \<Rightarrow>
   ('l, 'd, 'r) program started option" where
  "build rl dp tk ord cfg db rdb =
     (case NewACFilterEngine (dp_unicode dp) ord of
        None \<Rightarrow> None
      | Some engine \<Rightarrow>
          (let localCache = NewLocalCache (cc_LocalTTL (cf_Cache cfg)) (cc_LocalMaxItems (cf_Cache cfg));
               multiCache = NewMultiLevelCache localCache rdb (cc_RedisTTL (cf_Cache cfg)) no_metrics;
               words = \<lparr>po_engine = engine, po_last = no_fingerprint, po_cache = Some multiCache,
                 po_metrics = no_engine_metrics\<rparr>
           in case InitEngine dp (ac_engine_ops (dp_unicode dp)) tk words of
                None \<Rightarrow> None
              | Some (Some err, _) \<Rightarrow> Some (Exited ''failed to init engine'')
              | Some (None, words) \<Rightarrow>
                  Some (Running
                    \<lparr>pg_config = cfg,
                     pg_http = \<lparr>sv_limiter = newPerClientLimiter (rl_RequestsPerSecond (cf_RateLimit cfg)) (rl_Burst (cf_RateLimit cfg)),
                       sv_app = \<lparr>ap_db = db, ap_filter = NewFilterAppService (po_engine words) main_strategies multiCache\<rparr>\<rparr>,
                     pg_bucket = rt_new rl (rl_RequestsPerSecond (cf_RateLimit cfg)) (rl_Burst (cf_RateLimit cfg)),
                     pg_poller = words, pg_loop = Start NewWordAppService\<rparr>)))"

definition main ::
  "'l rate_library \<Rightarrow> ('d, 'r) word_deps \<Rightarrow> ('v, 'd, 'r) surroundings \<Rightarrow> gostring \<Rightarrow> gostring \<Rightarrow>
   ('l, 'd, 'r) program started option" where
  "main rl dp su configPath env =
     (case LoadWithEnv (su_viper su) (su_getenv su) (su_exists su) configPath env of
        Inl err \<Rightarrow> Some (Exited ''failed to load config'')
      | Inr cfg \<Rightarrow>
          if su_logger su (cf_Log cfg) \<noteq> None then Some (Exited ''failed to init logger'')
          else
            (case su_mysql su cfg of
               Inl err \<Rightarrow> Some (Exited ''failed to connect MySQL'')
             | Inr db0 \<Rightarrow>
                 (case su_migrate su db0 of
                    Inl err \<Rightarrow> Some (Exited ''failed to migrate database'')
                  | Inr db \<Rightarrow>
                      (case su_redis su cfg of
                         Inl err \<Rightarrow> Some (Exited ''failed to connect Redis'')
                       | Inr rdb \<Rightarrow> build rl dp (su_tick su db) (su_order su) cfg db rdb))))"

section \<open>Running\<close>

text \<open>A call of gRPC, as the handler the chain ends in.\<close>

datatype rpc_request = DetectCall gostring | ReplaceCall gostring | BatchCall "gostring list"

datatype rpc_response = Single ProtoFilterResponse | Batch ProtoBatchResponse

definition rpc_reply ::
  "('a \<Rightarrow> rpc_response) \<Rightarrow> ('l, 's) rpc_server \<Rightarrow> ((rpc_status + 'a) \<times> 's) option \<Rightarrow>
   ((rpc_request, rpc_response) rpc_result \<times> ('l, 's) rpc_server) option" where
  "rpc_reply f s x = map_option (\<lambda>(y, t). (Returned (map_sum id f y), s\<lparr>rs_app := t\<rparr>)) x"

definition rpc_method ::
  "('d, 'r) http_deps \<Rightarrow> (rpc_request, rpc_response, 'l, 'r FilterAppService) rpc_handler" where
  "rpc_method dp ctx req s =
     (let u = dp_unicode (hd_words dp); client = dp_client (hd_words dp) in
      case req of
        DetectCall t \<Rightarrow> rpc_reply Single s (Grpc_Detect u client (hd_codec dp) (hd_clock dp) (rs_app s) t)
      | ReplaceCall t \<Rightarrow> rpc_reply Single s (Grpc_Replace u client (hd_codec dp) (hd_clock dp) (rs_app s) t)
      | BatchCall ts \<Rightarrow> rpc_reply Batch s
          (Grpc_BatchDetect u client (hd_codec dp) (hd_clock dp) (hd_cpus dp) (hd_moves dp) (hd_ctx dp) (rs_app s) ts))"

definition rpc_serve ::
  "'l rate_library \<Rightarrow> gostring list \<Rightarrow> ('d, 'r) http_deps \<Rightarrow> (rpc_request, rpc_response, 'l, 'r FilterAppService) rpc_handler" where
  "rpc_serve rl keys dp = grpc_chain rl keys (rpc_method dp)"

text \<open>The engine and the cache the word service writes are those the filter service reads.\<close>

definition with_app :: "('l, ('d, 'r) app) server \<Rightarrow> ('l, 'd, 'r) program \<Rightarrow> ('l, 'd, 'r) program" where
  "with_app s p =
     p\<lparr>pg_http := s, pg_poller := (pg_poller p)\<lparr>po_cache := fa_cache (ap_filter (sv_app s))\<rparr>\<rparr>"

definition with_poller :: "(ACFilterEngine, 'r) poller \<Rightarrow> ('l, 'd, 'r) program \<Rightarrow> ('l, 'd, 'r) program" where
  "with_poller w p =
     (let a = sv_app (pg_http p); f = (ap_filter a)\<lparr>fa_engine := po_engine w, fa_cache := po_cache w\<rparr>
      in p\<lparr>pg_poller := w, pg_http := (pg_http p)\<lparr>sv_app := a\<lparr>ap_filter := f\<rparr>\<rparr>\<rparr>)"

definition with_filter :: "'l \<Rightarrow> 'r FilterAppService \<Rightarrow> ('l, 'd, 'r) program \<Rightarrow> ('l, 'd, 'r) program" where
  "with_filter b f p =
     with_app ((pg_http p)\<lparr>sv_app := (sv_app (pg_http p))\<lparr>ap_filter := f\<rparr>\<rparr>) (p\<lparr>pg_bucket := b\<rparr>)"

definition with_db :: "'d \<Rightarrow> ('l, 'd, 'r) program \<Rightarrow> ('l, 'd, 'r) program" where
  "with_db d p = p\<lparr>pg_http := (pg_http p)\<lparr>sv_app := (sv_app (pg_http p))\<lparr>ap_db := d\<rparr>\<rparr>\<rparr>"

section \<open>What keeps the filter service sound\<close>

lemma world_of:
  assumes "service_ok u client js stored A ws f"
  obtains w where "world_inv u client js stored w" "w_engine w = fa_engine f" "w_cache w = fa_cache f"
    "w_flight w = []" "\<not> w_mid w" "last (w_lists w) = ws" "set (w_asked w) \<subseteq> A" "w_done w < 2 ^ 64"
    "fa_strategies f = main_strategies"
  using assms by (auto simp: service_ok_def)

lemma service_of:
  assumes "world_inv u client js stored w" "w_engine w = fa_engine f" "w_cache w = fa_cache f"
    "w_flight w = []" "\<not> w_mid w" "last (w_lists w) = ws" "set (w_asked w) \<subseteq> A" "w_done w < 2 ^ 64"
    "fa_strategies f = main_strategies"
  shows "service_ok u client js stored A ws f"
  unfolding service_ok_def using assms by blast

lemma invalidation_keeps_service:
  assumes "service_ok u client js stored A ws f" "codec_ok js"
    and "fa_cache f = Some c" "iteration_order ord" "InvalidateByPrefix client ord now later pfx c = Some (e, c')"
  shows "service_ok u client js stored A ws (f\<lparr>fa_cache := Some c'\<rparr>)"
proof -
  obtain w where w: "world_inv u client js stored w" "w_engine w = fa_engine f" "w_cache w = fa_cache f"
    "w_flight w = []" "\<not> w_mid w" "last (w_lists w) = ws" "set (w_asked w) \<subseteq> A" "w_done w < 2 ^ 64"
    "fa_strategies f = main_strategies" by (rule world_of [OF assms(1)])
  have "world_step u client js w (w\<lparr>w_cache := Some c'\<rparr>)"
    by (rule world_step.invalidate [OF _ assms(4,5)]) (simp add: w(3) assms(3))
  from world_step_inv [OF this w(1) assms(2)] w(8) have "world_inv u client js stored (w\<lparr>w_cache := Some c'\<rparr>)"
    by simp
  then show ?thesis by (rule service_of) (use w in simp_all)
qed

lemma rebuild_keeps_service:
  assumes "service_ok u client js stored A ws0 f" "codec_ok js" "\<forall>a. iteration_order (ord a)"
    and "Rebuild u ord (fa_engine f) ws = Some e" "Version e \<noteq> 0"
  shows "service_ok u client js stored A ws (f\<lparr>fa_engine := e\<rparr>)"
proof -
  obtain w where w: "world_inv u client js stored w" "w_engine w = fa_engine f" "w_cache w = fa_cache f"
    "w_flight w = []" "\<not> w_mid w" "last (w_lists w) = ws0" "set (w_asked w) \<subseteq> A" "w_done w < 2 ^ 64"
    "fa_strategies f = main_strategies" by (rule world_of [OF assms(1)])
  obtain ac where ac: "NewAhoCorasick u ord (rebuild_entries ws) = Some ac"
    "e = Rebuild_bump (Rebuild_store ac (fa_engine f))"
    using assms(4) by (auto simp: Rebuild_def split: option.splits)
  let ?w1 = "w\<lparr>w_engine := Rebuild_store ac (w_engine w), w_mid := True, w_lists := w_lists w @ [ws]\<rparr>"
  let ?w2 = "?w1\<lparr>w_engine := Rebuild_bump (w_engine ?w1), w_mid := False, w_done := Suc (w_done ?w1)\<rparr>"
  have "Version (fa_engine f) = of_nat (w_done w)" using w(1,2) by (simp add: world_inv_def engine_ok_def)
  then have "Version e = of_nat (Suc (w_done w))"
    by (simp add: ac(2) Version_def Rebuild_bump_def Rebuild_store_def)
  moreover have "Suc (w_done w) \<noteq> 2 ^ 64"
  proof
    assume "Suc (w_done w) = 2 ^ 64"
    then have "of_nat (Suc (w_done w)) = (0 :: 64 word)" by (simp only: of_nat_power) simp
    with calculation assms(5) show False by simp
  qed
  ultimately have d: "Suc (w_done w) < 2 ^ 64" using w(8) by linarith
  have s1: "world_step u client js w ?w1" by (rule world_step.store [OF w(5) assms(3) ac(1)])
  have i1: "world_inv u client js stored ?w1" by (rule world_step_inv [OF s1 w(1) assms(2)]) (use w(8) in simp)
  have s2: "world_step u client js ?w1 ?w2" by (rule world_step.bump) simp
  have "world_inv u client js stored ?w2" by (rule world_step_inv [OF s2 i1 assms(2)]) (use d in simp)
  then show ?thesis by (rule service_of) (use d w in \<open>simp_all add: ac(2)\<close>)
qed

lemma batch_keeps:
  assumes "\<And>t s x s'. P s \<Longrightarrow> filt t s = Some (x, s') \<Longrightarrow> P s'"
  shows "batch_run filt ms st = Some st' \<Longrightarrow> P (bs_service st) \<Longrightarrow> P (bs_service st')"
proof (induction ms arbitrary: st)
  case (Cons m ms)
  obtain st1 where st1: "move filt m st = Some st1" "batch_run filt ms st1 = Some st'"
    using Cons.prems(1) by (auto split: option.splits)
  have "P (bs_service st1)"
  proof (cases m)
    case Produce
    with st1(1) Cons.prems(2) show ?thesis by (auto simp: producer_move_def split: list.splits)
  next
    case (Work i b)
    have "bs_service st1 = bs_service st \<or> (\<exists>t x. filt t (bs_service st) = Some (x, bs_service st1))"
      using st1(1) Work
      by (auto simp: worker_move_def split: if_splits worker.splits list.splits option.splits sum.splits)
    with assms Cons.prems(2) show ?thesis by metis
  qed
  with Cons.IH [OF st1(2)] show ?case by simp
qed simp

section \<open>Requests keep it\<close>

text \<open>A condition on the filter service that filtering and the requests on words keep.\<close>

definition filter_closed ::
  "unicode_data \<Rightarrow> 'r redis_client \<Rightarrow> codec \<Rightarrow> ('r FilterAppService \<Rightarrow> bool) \<Rightarrow> bool" where
  "filter_closed u client js P \<longleftrightarrow>
     (\<forall>ck f req x f'. P f \<longrightarrow> Filter u client js ck f req = Some (x, f') \<longrightarrow> P f')"

definition cache_closed :: "('d, 'r) word_deps \<Rightarrow> ('r FilterAppService \<Rightarrow> bool) \<Rightarrow> bool" where
  "cache_closed dp P \<longleftrightarrow> (\<forall>f d t. P f \<longrightarrow> word_request dp \<lparr>st_db = d, st_cache = fa_cache f\<rparr> t \<longrightarrow>
     P (f\<lparr>fa_cache := st_cache t\<rparr>))"

lemma filter_closedD: "filter_closed u client js P \<Longrightarrow> Filter u client js ck f req = Some (x, f') \<Longrightarrow> P f \<Longrightarrow> P f'"
  unfolding filter_closed_def by blast

lemma BatchDetect_closed:
  assumes "filter_closed u client js P" "P f"
    and "BatchDetect (batch_filter u client js ck) cpus moves ctx_err f req = Some (x, f')"
  shows "P f'"
proof -
  have "f' = f \<or> (\<exists>strat st. batch_run (batch_filter u client js ck strat) moves
      (batch_start cpus (bq_Texts req) f) = Some st \<and> f' = bs_service st)"
    using assms(3) by (auto simp: BatchDetect_def Let_def split: if_splits option.splits)
  moreover have "P (bs_service st)"
    if "batch_run (batch_filter u client js ck strat) moves (batch_start cpus (bq_Texts req) f) = Some st" for strat st
  proof (rule batch_keeps [where P = P, OF _ that])
    show "P s'" if "P s" "batch_filter u client js ck strat t s = Some (x, s')" for t s x s'
      using filter_closedD [OF assms(1)] that unfolding batch_filter_def by blast
    show "P (bs_service (batch_start cpus (bq_Texts req) f))"
      using assms(2) by (simp add: batch_start_def Let_def)
  qed
  ultimately show ?thesis using assms(2) by blast
qed

text \<open>A request on words leaves the cache or invalidates a prefix of it.\<close>

lemma word_request_cache:
  assumes "word_request dp s s'"
  shows "st_cache s' = st_cache s \<or> (\<exists>c c' e. st_cache s = Some c \<and> st_cache s' = Some c' \<and>
    InvalidateByPrefix (dp_client dp) (dp_items_order dp) (dp_now dp) (dp_later dp) ''words:'' c = Some (e, c'))"
proof -
  have i: "st_cache t' = st_cache t \<or> (\<exists>c c' e. st_cache t = Some c \<and> st_cache t' = Some c' \<and>
      InvalidateByPrefix (dp_client dp) (dp_items_order dp) (dp_now dp) (dp_later dp) pfx c = Some (e, c'))"
    if "then_invalidate dp pfx x t = Some (y, t')" for pfx t y t' and x :: 'x
    using that by (auto simp: then_invalidate_def invalidatePrefix_def split: option.splits)
  from assms show ?thesis
    by (cases rule: word_request.cases)
      (auto simp: Word_Create_def Word_Update_def Word_Delete_def Word_Import_def Let_def
        split: option.splits sum.splits prod.splits dest!: i)
qed

lemma word_request_keeps_service:
  assumes "service_ok u (dp_client dp) js stored A ws f" "codec_ok js" "iteration_order (dp_items_order dp)"
    and "word_request dp \<lparr>st_db = d, st_cache = fa_cache f\<rparr> t"
  shows "service_ok u (dp_client dp) js stored A ws (f\<lparr>fa_cache := st_cache t\<rparr>)"
proof (cases "st_cache t = fa_cache f")
  case True
  then have "f\<lparr>fa_cache := st_cache t\<rparr> = f" by simp
  then show ?thesis using assms(1) by (simp only:)
next
  case False
  then obtain c c' e where c: "fa_cache f = Some c" "st_cache t = Some c'"
    "InvalidateByPrefix (dp_client dp) (dp_items_order dp) (dp_now dp) (dp_later dp) ''words:'' c = Some (e, c')"
    using word_request_cache [OF assms(4)] by auto
  from invalidation_keeps_service [OF assms(1,2) c(1) assms(3) c(3)] show ?thesis by (simp only: c(2))
qed

lemma on_filter_keeps:
  assumes "on_filter data call c s = Some (p, c', s')"
  obtains x where "call (ap_filter (sv_app s)) = Some (x, ap_filter (sv_app s'))"
  using assms that by (auto simp: on_filter_def finish_def Let_def split: option.splits sum.splits)

text \<open>What the surroundings of a request have to be: the libraries of the whole program.\<close>

definition request_deps ::
  "unicode_data \<Rightarrow> 'r redis_client \<Rightarrow> codec \<Rightarrow> ('d \<Rightarrow> SensitiveWordModel list) \<Rightarrow> (gostring \<Rightarrow> gostring \<Rightarrow> bool) \<Rightarrow>
   ('d, 'r) http_deps \<Rightarrow> bool" where
  "request_deps u client js rows like dp \<longleftrightarrow>
     dp_unicode (hd_words dp) = u \<and> dp_client (hd_words dp) = client \<and> hd_codec dp = js \<and>
     iteration_order (dp_items_order (hd_words dp)) \<and> write_ok (dp_gorm (hd_words dp)) rows \<and>
     read_ok (dp_gorm (hd_words dp)) like rows"

text \<open>The page of the metrics leaves what the handlers work on alone.\<close>

definition only_reads :: "('p, 'l, 't) handler \<Rightarrow> bool" where
  "only_reads h \<longleftrightarrow> (\<forall>rq c s p c' s'. h rq c s = Some (p, c', s') \<longrightarrow> sv_app s' = sv_app s)"

lemma only_reads_keeps: "only_reads h \<Longrightarrow> keeps P h"
  unfolding only_reads_def keeps_def by metis

lemma filter_handler_keeps:
  assumes "FilterHandler_with dp service rq c s = Some (p, c', s')"
    and "\<And>f req x f'. P f \<Longrightarrow> service f req = Some (x, f') \<Longrightarrow> P f'" "P (ap_filter (sv_app s))"
  shows "P (ap_filter (sv_app s'))"
proof -
  have "s' = s \<or> (\<exists>req x. service (ap_filter (sv_app s)) req = Some (x, ap_filter (sv_app s')))"
    using assms(1) by (auto simp: FilterHandler_with_def finish_def split: sum.splits elim!: on_filter_keeps)
  with assms(2,3) show ?thesis by metis
qed

lemma endpoint_closed:
  fixes dp :: "('d, 'r) http_deps" and prom :: "('l, 'd, 'r) http_handler"
  assumes F: "filter_closed (dp_unicode (hd_words dp)) (dp_client (hd_words dp)) (hd_codec dp) P"
    and C: "cache_closed (hd_words dp) P" and prom: "only_reads prom"
  shows "keeps (\<lambda>a. P (ap_filter a)) (endpoint dp prom r)"
proof (rule keepsI)
  fix rq c p c' and s s' :: "('l, ('d, 'r) app) server"
  let ?u = "dp_unicode (hd_words dp)" and ?client = "dp_client (hd_words dp)" and ?js = "hd_codec dp"
  assume v: "P (ap_filter (sv_app s))" and h: "endpoint dp prom r rq c s = Some (p, c', s')"
  have wr: "P (ap_filter (sv_app s'))"
    if "s' = s \<or> (\<exists>w. word_request (hd_words dp) (word_view (sv_app s)) w \<and> s' = put_view w s)"
    using that v C unfolding cache_closed_def word_view_def
    by (elim disjE exE conjE) (simp_all add: put_view_def)
  have fh: "P (ap_filter (sv_app s'))"
    if "FilterHandler_with dp (\<lambda>f req. Filter ?u ?client ?js ck f (g req)) rq c s = Some (p, c', s')" for g ck
    by (rule filter_handler_keeps [where P = P, OF that _ v]) (rule filter_closedD [OF F])
  have services: "Service_Detect u client js ck = (\<lambda>f req. Filter u client js ck f (req\<lparr>rq_Strategy := StrategyDetect\<rparr>))"
    "Service_Replace u client js ck = (\<lambda>f req. Filter u client js ck f (req\<lparr>rq_Strategy := StrategyReplace\<rparr>))"
    "Service_Highlight u client js ck = (\<lambda>f req. Filter u client js ck f (req\<lparr>rq_Strategy := StrategyHighlight\<rparr>))"
    for u js ck and client :: "'r redis_client"
    by (simp_all add: fun_eq_iff Service_Detect_def Service_Replace_def Service_Highlight_def)
  show "P (ap_filter (sv_app s'))"
  proof (cases r)
    case FilterDetect
    with h show ?thesis by (intro fh) (simp add: endpoint_def FilterHandler_Detect_def services)
  next
    case FilterReplace
    with h show ?thesis by (intro fh) (simp add: endpoint_def FilterHandler_Replace_def services)
  next
    case FilterHighlight
    with h show ?thesis by (intro fh) (simp add: endpoint_def FilterHandler_Highlight_def services)
  next
    case FilterBatch
    have "s' = s \<or> (\<exists>req x. BatchDetect (batch_filter ?u ?client ?js (hd_clock dp)) (hd_cpus dp) (hd_moves dp) (hd_ctx dp)
        (ap_filter (sv_app s)) req = Some (x, ap_filter (sv_app s')))"
      using h FilterBatch
      by (auto simp: endpoint_def FilterHandler_BatchDetect_def finish_def split: sum.splits elim!: on_filter_keeps)
    with v BatchDetect_closed [OF F v] show ?thesis by blast
  next
    case MetricsPage
    with h prom v show ?thesis by (simp add: endpoint_def only_reads_def)
  next
    case NoRoute
    with h v show ?thesis by (simp add: endpoint_def finish_def)
  qed (use h v in \<open>auto simp: endpoint_def intro: wr dest: reading_handlers_db writing_handlers_request\<close>)
qed

definition rpc_keeps :: "('t \<Rightarrow> bool) \<Rightarrow> ('q, 'p, 'l, 't) rpc_handler \<Rightarrow> bool" where
  "rpc_keeps P h \<longleftrightarrow> (\<forall>ctx req s x s'. P (rs_app s) \<longrightarrow> h ctx req s = Some (x, s') \<longrightarrow> P (rs_app s'))"

lemma rpc_keepsD: "rpc_keeps P h \<Longrightarrow> h ctx req s = Some (x, s') \<Longrightarrow> P (rs_app s) \<Longrightarrow> P (rs_app s')"
  unfolding rpc_keeps_def by blast

lemma rpc_keeps_chain:
  assumes "rpc_keeps P h"
  shows "rpc_keeps P (grpc_chain rl keys h)"
proof -
  have a: "rpc_keeps P (AuthInterceptor keys h)"
    unfolding rpc_keeps_def
    by (auto simp: AuthInterceptor_def Let_def split: if_splits option.splits dest: rpc_keepsD [OF assms])
  have "rpc_keeps P (RateLimitInterceptor rl (AuthInterceptor keys h))"
    unfolding rpc_keeps_def
    by (auto simp: RateLimitInterceptor_def Let_def split: if_splits prod.splits dest: rpc_keepsD [OF a])
  note r = rpc_keepsD [OF this]
  show ?thesis
    unfolding rpc_keeps_def grpc_chain_def
    by (auto simp: RecoveryInterceptor_def split: option.splits prod.splits rpc_result.splits dest: r)
qed

lemma rpc_reply_app:
  "rpc_reply f s x = Some (y, s') \<Longrightarrow> \<exists>z. x = Some (z, rs_app s')"
  by (auto simp: rpc_reply_def)

lemma rpc_method_closed:
  fixes dp :: "('d, 'r) http_deps"
  assumes F: "filter_closed (dp_unicode (hd_words dp)) (dp_client (hd_words dp)) (hd_codec dp) P"
  shows "rpc_keeps P (rpc_method dp)"
proof -
  have outcome: "f' = f \<or> (\<exists>z. call = Some (z, f'))"
    if "(if b then Some (e, f) else rpc_outcome what conv call) = Some (y, f')"
    for b f f' what y and e :: "rpc_status + 'z" and conv :: "'x \<Rightarrow> 'z" and call :: "('x result \<times> 'r FilterAppService) option"
    using that by (auto simp: rpc_outcome_def split: if_splits option.splits sum.splits)
  show ?thesis
    unfolding rpc_keeps_def
  proof (intro allI impI)
    fix ctx req x and s s' :: "('l, 'r FilterAppService) rpc_server"
    let ?u = "dp_unicode (hd_words dp)" and ?client = "dp_client (hd_words dp)"
    assume v: "P (rs_app s)" and h: "rpc_method dp ctx req s = Some (x, s')"
    show "P (rs_app s')"
    proof (cases req)
      case (DetectCall t)
      with h obtain z where "Grpc_Detect ?u ?client (hd_codec dp) (hd_clock dp) (rs_app s) t = Some (z, rs_app s')"
        by (auto simp: rpc_method_def dest: rpc_reply_app)
      from outcome [OF this [unfolded Grpc_Detect_def Service_Detect_def]] v filter_closedD [OF F] show ?thesis by metis
    next
      case (ReplaceCall t)
      with h obtain z where "Grpc_Replace ?u ?client (hd_codec dp) (hd_clock dp) (rs_app s) t = Some (z, rs_app s')"
        by (auto simp: rpc_method_def dest: rpc_reply_app)
      from outcome [OF this [unfolded Grpc_Replace_def Service_Replace_def]] v filter_closedD [OF F] show ?thesis by metis
    next
      case (BatchCall ts)
      with h obtain z where "Grpc_BatchDetect ?u ?client (hd_codec dp) (hd_clock dp) (hd_cpus dp) (hd_moves dp) (hd_ctx dp)
          (rs_app s) ts = Some (z, rs_app s')"
        by (auto simp: rpc_method_def dest: rpc_reply_app)
      from outcome [OF this [unfolded Grpc_BatchDetect_def]] v BatchDetect_closed [OF F v] show ?thesis by metis
    qed
  qed
qed

section \<open>The polling keeps it\<close>

lemma rebuild_loop_engine:
  "rebuild_loop g (ac_engine_ops u) n tk a b err e m = Some (x, e', m', waits) \<Longrightarrow>
    e' = e \<or> (\<exists>k ws. FindAllActive g (tk_db tk k) = Inr ws \<and> Rebuild u (tk_ord tk k) e ws = Some e')"
proof (induction "nat (n + 1 - a)" arbitrary: a b err m x waits m' rule: less_induct)
  case less
  have att: "rebuild_attempt g (ac_engine_ops u) ord d e m = Some (y, e1, m1) \<Longrightarrow>
      (if y = None then \<exists>ws. FindAllActive g d = Inr ws \<and> Rebuild u ord e ws = Some e1 else e1 = e)" for ord d y e1 m1
    by (auto simp: rebuild_attempt_def ac_engine_ops_def split: sum.splits option.splits)
  show ?case
  proof (cases "a > n")
    case True
    with less.prems show ?thesis by (subst (asm) rebuild_loop.simps) simp
  next
    case False
    then obtain y e1 m1 where y: "rebuild_attempt g (ac_engine_ops u) (tk_ord tk (nat a)) (tk_db tk (nat a)) e m = Some (y, e1, m1)"
      using less.prems by (subst (asm) rebuild_loop.simps) (auto split: option.splits)
    show ?thesis
    proof (cases y)
      case None
      with less.prems False y att [OF y] show ?thesis by (subst (asm) rebuild_loop.simps) auto
    next
      case (Some err1)
      with att [OF y] have "e1 = e" by simp
      with less.prems False y Some have "e' = e \<or>
          (\<exists>m'' w. rebuild_loop g (ac_engine_ops u) n tk (a + 1) (b * 2) (Some err1) e m1 = Some (x, e', m'', w))"
        by (subst (asm) rebuild_loop.simps) (auto split: if_splits option.splits)
      with less.hyps [of "a + 1"] False show ?thesis by fastforce
    qed
  qed
qed

lemma round_cases:
  assumes "reconcileOnce dp (ac_engine_ops u) cfg tk s = Some s'"
  shows "(po_engine s' = po_engine s \<or> (\<exists>k ws. FindAllActive (dp_gorm dp) (tk_db tk k) = Inr ws \<and>
      Rebuild u (tk_ord tk k) (po_engine s) ws = Some (po_engine s'))) \<and>
    (po_cache s' = po_cache s \<or> (\<exists>c c' e. po_cache s = Some c \<and> po_cache s' = Some c' \<and>
      InvalidateByPrefix (dp_client dp) (dp_items_order dp) (dp_now dp) (dp_later dp) ''filter:'' c = Some (e, c')))"
proof -
  note L = rebuild_loop_engine [of "dp_gorm dp" u _ tk 1]
  have "po_engine s' = po_engine s \<or> (\<exists>k ws. FindAllActive (dp_gorm dp) (tk_db tk k) = Inr ws \<and>
      Rebuild u (tk_ord tk k) (po_engine s) ws = Some (po_engine s'))"
    using assms by (auto simp: reconcileOnce_def rebuildWithRetry_def Let_def
        split: sum.splits option.splits if_splits dest!: L)
  moreover have "po_cache s' = po_cache s \<or> (\<exists>c c' e. po_cache s = Some c \<and> po_cache s' = Some c' \<and>
      InvalidateByPrefix (dp_client dp) (dp_items_order dp) (dp_now dp) (dp_later dp) ''filter:'' c = Some (e, c'))"
    using assms by (auto simp: reconcileOnce_def invalidatePrefix_def Let_def
        split: sum.splits option.splits if_splits)
  ultimately show ?thesis ..
qed

lemma round_keeps_service:
  assumes S: "service_ok u (dp_client dp) js stored A ws0 f" and js: "codec_ok js"
    and o: "\<forall>k a. iteration_order (tk_ord tk k a)" "iteration_order (dp_items_order dp)"
    and shared: "po_engine s = fa_engine f" "po_cache s = fa_cache f"
    and round: "reconcileOnce dp (ac_engine_ops u) cfg tk s = Some s'"
    and fits: "Version (po_engine s') = 0 \<Longrightarrow> po_engine s' = po_engine s"
  obtains ws where "service_ok u (dp_client dp) js stored A ws (f\<lparr>fa_engine := po_engine s', fa_cache := po_cache s'\<rparr>)"
proof -
  let ?f = "f\<lparr>fa_engine := po_engine s'\<rparr>"
  obtain ws where ws: "service_ok u (dp_client dp) js stored A ws ?f"
  proof (cases "po_engine s' = po_engine s")
    case True
    with shared have "?f = f" by simp
    with S show thesis by (intro that [of ws0]) (simp only:)
  next
    case False
    then obtain k ws where k: "Rebuild u (tk_ord tk k) (fa_engine f) ws = Some (po_engine s')"
      using round_cases [OF round] shared(1) by auto
    have "\<forall>a. iteration_order (tk_ord tk k a)" using o(1) by blast
    from rebuild_keeps_service [OF S js this k] fits False show thesis using that by blast
  qed
  show thesis
  proof (cases "po_cache s' = po_cache s")
    case True
    with shared have "f\<lparr>fa_engine := po_engine s', fa_cache := po_cache s'\<rparr> = ?f" by simp
    with ws show thesis by (intro that [of ws]) (simp only:)
  next
    case False
    then obtain c c' e where c: "po_cache s = Some c" "po_cache s' = Some c'"
      "InvalidateByPrefix (dp_client dp) (dp_items_order dp) (dp_now dp) (dp_later dp) ''filter:'' c = Some (e, c')"
      using round_cases [OF round] by auto
    have "fa_cache ?f = Some c" using c(1) shared(2) by simp
    from invalidation_keeps_service [OF ws js this o(2) c(3)] show thesis by (intro that) (simp add: c(2))
  qed
qed

section \<open>The whole program\<close>

text \<open>
  The steps: a request on a route, a call of gRPC, a round of the polling against whatever
  databases its queries meet, and a change of the table by another instance that keeps it valid.
  A round whose rebuild wraps the 64-bit version around is left out.
\<close>

inductive program_step ::
  "unicode_data \<Rightarrow> 'r redis_client \<Rightarrow> codec \<Rightarrow> ('d \<Rightarrow> SensitiveWordModel list) \<Rightarrow> (gostring \<Rightarrow> gostring \<Rightarrow> bool) \<Rightarrow>
   'l rate_library \<Rightarrow> ('l, 'd, 'r) http_handler \<Rightarrow> ('l, 'd, 'r) program \<Rightarrow> ('l, 'd, 'r) program \<Rightarrow> bool"
  for u client js rows like rl prom where
  http: "request_deps u client js rows like dp \<Longrightarrow>
    NewRouter rl (http_config (pg_config p)) dp prom r rq new_gin (pg_http p) = Some (x, c, s') \<Longrightarrow>
    program_step u client js rows like rl prom p (with_app s' p)"
| rpc: "request_deps u client js rows like dp \<Longrightarrow>
    rpc_serve rl (au_APIKeys (cf_Auth (pg_config p))) dp ctx req
      \<lparr>rs_limiter = pg_bucket p, rs_app = ap_filter (sv_app (pg_http p))\<rparr> = Some (y, t) \<Longrightarrow>
    program_step u client js rows like rl prom p (with_filter (rs_limiter t) (rs_app t) p)"
| poll: "request_deps u client js rows like dp \<Longrightarrow> \<forall>k a. iteration_order (tk_ord tk k a) \<Longrightarrow>
    reconcileOnce (hd_words dp) (ac_engine_ops u) defaultPollConfig tk (pg_poller p) = Some w \<Longrightarrow>
    Version (po_engine w) \<noteq> 0 \<or> po_engine w = po_engine (pg_poller p) \<Longrightarrow>
    program_step u client js rows like rl prom p (with_poller w p)"
| elsewhere: "table_valid u (rows d) \<Longrightarrow> program_step u client js rows like rl prom p (with_db d p)"

text \<open>The table is valid, the shared references agree, and the filter service is sound.\<close>

definition program_ok ::
  "unicode_data \<Rightarrow> 'r redis_client \<Rightarrow> codec \<Rightarrow> ('r \<Rightarrow> gostring \<Rightarrow> bytes \<Rightarrow> bool) \<Rightarrow> ('d \<Rightarrow> SensitiveWordModel list) \<Rightarrow>
   ('l, 'd, 'r) program \<Rightarrow> bool" where
  "program_ok u client js stored rows p \<longleftrightarrow>
     db_valid u rows (sv_app (pg_http p)) \<and>
     po_engine (pg_poller p) = fa_engine (ap_filter (sv_app (pg_http p))) \<and>
     po_cache (pg_poller p) = fa_cache (ap_filter (sv_app (pg_http p))) \<and>
     (\<exists>ws. service_ok u client js stored UNIV ws (ap_filter (sv_app (pg_http p))))"


text \<open>What a request keeps: the service is sound and the engine is the same.\<close>

definition sound_with ::
  "unicode_data \<Rightarrow> 'r redis_client \<Rightarrow> codec \<Rightarrow> ('r \<Rightarrow> gostring \<Rightarrow> bytes \<Rightarrow> bool) \<Rightarrow> SensitiveWord list \<Rightarrow> ACFilterEngine \<Rightarrow>
   'r FilterAppService \<Rightarrow> bool" where
  "sound_with u client js stored ws e f \<longleftrightarrow> service_ok u client js stored UNIV ws f \<and> fa_engine f = e"

lemma sound_with_closed:
  assumes "request_deps u client js rows like dp" "codec_ok js"
  shows "filter_closed (dp_unicode (hd_words dp)) (dp_client (hd_words dp)) (hd_codec dp) (sound_with u client js stored ws e)"
    and "cache_closed (hd_words dp) (sound_with u client js stored ws e)"
proof -
  have d: "dp_unicode (hd_words dp) = u" "dp_client (hd_words dp) = client" "hd_codec dp = js"
    "iteration_order (dp_items_order (hd_words dp))" using assms(1) by (simp_all add: request_deps_def)
  show "filter_closed (dp_unicode (hd_words dp)) (dp_client (hd_words dp)) (hd_codec dp) (sound_with u client js stored ws e)"
    unfolding filter_closed_def d
  proof (intro allI impI)
    fix ck f req x f'
    assume s: "sound_with u client js stored ws e f" and h: "Filter u client js ck f req = Some (x, f')"
    have "fa_engine f' = fa_engine f"
      using h by (auto simp: Filter_def Filter_at_def Let_def split: prod.splits option.splits)
    moreover obtain tx strat where "req = \<lparr>rq_Text = tx, rq_Strategy = strat\<rparr>" by (cases req) simp
    ultimately show "sound_with u client js stored ws e f'"
      using s h Filter_keeps_service [OF _ assms(2) UNIV_I, of u client stored ws f ck tx strat]
      by (auto simp: sound_with_def)
  qed
  show "cache_closed (hd_words dp) (sound_with u client js stored ws e)"
    unfolding cache_closed_def
  proof (intro allI impI)
    fix f d t
    assume s: "sound_with u client js stored ws e f" "word_request (hd_words dp) \<lparr>st_db = d, st_cache = fa_cache f\<rparr> t"
    then have "service_ok u (dp_client (hd_words dp)) js stored UNIV ws f" by (simp add: sound_with_def d)
    from word_request_keeps_service [OF this assms(2) d(4) s(2)] s(1)
    show "sound_with u client js stored ws e (f\<lparr>fa_cache := st_cache t\<rparr>)" by (simp add: sound_with_def d)
  qed
qed

lemma program_step_ok:
  fixes prom :: "('l, 'd, 'r) http_handler"
  assumes "program_step u client js rows like rl prom p p'" "program_ok u client js stored rows p"
    and js: "codec_ok js" and prom: "only_reads prom"
  shows "program_ok u client js stored rows p'"
  using assms(1,2)
proof (induction rule: program_step.induct)
  case (http dp p r rq x c s')
  let ?e = "fa_engine (ap_filter (sv_app (pg_http p)))"
  obtain ws where ws: "sound_with u client js stored ws ?e (ap_filter (sv_app (pg_http p)))"
    using http.prems by (auto simp: program_ok_def sound_with_def)
  have "keeps (\<lambda>a. sound_with u client js stored ws ?e (ap_filter a)) (NewRouter rl (http_config (pg_config p)) dp prom r)"
    by (intro router_keeps endpoint_closed sound_with_closed [OF http.hyps(1) js] prom)
  from keepsD [OF this http.hyps(2)] ws have "sound_with u client js stored ws ?e (ap_filter (sv_app s'))" by simp
  moreover have "keeps (db_valid u rows) (NewRouter rl (http_config (pg_config p)) dp prom r)"
    using router_keeps_db [of dp rows like prom] http.hyps(1) only_reads_keeps [OF prom] by (simp add: request_deps_def)
  note keepsD [OF this http.hyps(2)]
  ultimately show ?case using http.prems by (auto simp: program_ok_def sound_with_def with_app_def)
next
  case (rpc dp p ctx req y t)
  let ?e = "fa_engine (ap_filter (sv_app (pg_http p)))"
  obtain ws where ws: "sound_with u client js stored ws ?e (ap_filter (sv_app (pg_http p)))"
    using rpc.prems by (auto simp: program_ok_def sound_with_def)
  have "rpc_keeps (sound_with u client js stored ws ?e) (rpc_serve rl (au_APIKeys (cf_Auth (pg_config p))) dp)"
    unfolding rpc_serve_def by (intro rpc_keeps_chain rpc_method_closed sound_with_closed [OF rpc.hyps(1) js])
  from rpc_keepsD [OF this rpc.hyps(2)] ws have "sound_with u client js stored ws ?e (rs_app t)" by simp
  with rpc.prems show ?case by (auto simp: program_ok_def sound_with_def with_filter_def with_app_def db_valid_def)
next
  case (poll dp tk p w)
  have d: "dp_client (hd_words dp) = client" "iteration_order (dp_items_order (hd_words dp))"
    using poll.hyps(1) by (simp_all add: request_deps_def)
  obtain ws0 where ws0: "service_ok u (dp_client (hd_words dp)) js stored UNIV ws0 (ap_filter (sv_app (pg_http p)))"
    using poll.prems by (auto simp: program_ok_def d)
  have shared: "po_engine (pg_poller p) = fa_engine (ap_filter (sv_app (pg_http p)))"
    "po_cache (pg_poller p) = fa_cache (ap_filter (sv_app (pg_http p)))"
    using poll.prems by (simp_all add: program_ok_def)
  obtain ws where "service_ok u (dp_client (hd_words dp)) js stored UNIV ws
      ((ap_filter (sv_app (pg_http p)))\<lparr>fa_engine := po_engine w, fa_cache := po_cache w\<rparr>)"
    by (rule round_keeps_service [OF ws0 js poll.hyps(2) d(2) shared poll.hyps(3)]) (use poll.hyps(4) in blast)+
  with poll.prems show ?case by (auto simp: program_ok_def with_poller_def Let_def db_valid_def d)
next
  case (elsewhere d p)
  then show ?case by (auto simp: program_ok_def with_db_def db_valid_def)
qed

lemma program_steps_ok:
  fixes prom :: "('l, 'd, 'r) http_handler"
  assumes "(program_step u client js rows like rl prom)\<^sup>*\<^sup>* p p'" "program_ok u client js stored rows p"
    and "codec_ok js" "only_reads prom"
  shows "program_ok u client js stored rows p'"
  using assms(1,2)
  by (induction rule: rtranclp_induct) (auto intro: program_step_ok [OF _ _ assms(3,4)])

section \<open>From the start\<close>

lemma new_service_ok:
  assumes "\<forall>a. iteration_order (ord a)" "NewACFilterEngine u ord = Some e" "redis_faithful client stored"
    and "\<forall>k v. \<not> stored rdb k v"
  shows "service_ok u client js stored A [] (NewFilterAppService e main_strategies (NewMultiLevelCache (NewLocalCache t n) rdb rt mt))"
proof -
  let ?c = "NewMultiLevelCache (NewLocalCache t n) rdb rt mt"
  have "world_inv u client js stored (initial_world e (Some ?c))"
    by (rule initial_world_inv [OF assms(1-3)])
      (use assms(4) in \<open>simp add: NewMultiLevelCache_def local_inv_new ml_holds_def\<close>)
  then show ?thesis by (rule service_of) (simp_all add: initial_world_def NewFilterAppService_def)
qed

lemma InitEngine_cases:
  assumes "InitEngine dp (ac_engine_ops u) tk s = Some (None, s')"
  obtains ws where "FindAllActive (dp_gorm dp) (tk_db tk 0) = Inr ws"
    "Rebuild u (tk_ord tk 0) (po_engine s) ws = Some (po_engine s')" "po_cache s' = po_cache s"
  using assms that by (auto simp: InitEngine_def ac_engine_ops_def Let_def split: sum.splits option.splits)

lemma main_running:
  assumes "main rl dp su path env = Some (Running p)"
  obtains cfg d0 d rdb where "LoadWithEnv (su_viper su) (su_getenv su) (su_exists su) path env = Inr cfg"
    "su_mysql su cfg = Inr d0" "su_migrate su d0 = Inr d" "su_redis su cfg = Inr rdb"
    "build rl dp (su_tick su d) (su_order su) cfg d rdb = Some (Running p)"
  using assms that by (auto simp: main_def split: sum.splits if_splits)

lemma build_running:
  assumes "build rl dp tk ord cfg d rdb = Some (Running p)"
    and "\<forall>a. iteration_order (ord a)" "\<forall>k a. iteration_order (tk_ord tk k a)" "codec_ok js"
    and "redis_faithful (dp_client dp) stored" "\<forall>k v. \<not> stored rdb k v" "table_valid (dp_unicode dp) (rows d)"
  obtains ws where "FindAllActive (dp_gorm dp) (tk_db tk 0) = Inr ws" "program_ok (dp_unicode dp) (dp_client dp) js stored rows p"
    "service_ok (dp_unicode dp) (dp_client dp) js stored UNIV ws (ap_filter (sv_app (pg_http p)))"
    "pg_config p = cfg" "pg_loop p = Start NewWordAppService" "pl_limiters (sv_limiter (pg_http p)) = []"
proof -
  let ?u = "dp_unicode dp"
  let ?c = "NewMultiLevelCache (NewLocalCache (cc_LocalTTL (cf_Cache cfg)) (cc_LocalMaxItems (cf_Cache cfg))) rdb
    (cc_RedisTTL (cf_Cache cfg)) no_metrics"
  obtain e w where e: "NewACFilterEngine ?u ord = Some e"
    and w: "InitEngine dp (ac_engine_ops ?u) tk \<lparr>po_engine = e, po_last = no_fingerprint, po_cache = Some ?c,
      po_metrics = no_engine_metrics\<rparr> = Some (None, w)"
    and p: "p = \<lparr>pg_config = cfg,
      pg_http = \<lparr>sv_limiter = newPerClientLimiter (rl_RequestsPerSecond (cf_RateLimit cfg)) (rl_Burst (cf_RateLimit cfg)),
        sv_app = \<lparr>ap_db = d, ap_filter = NewFilterAppService (po_engine w) main_strategies ?c\<rparr>\<rparr>,
      pg_bucket = rt_new rl (rl_RequestsPerSecond (cf_RateLimit cfg)) (rl_Burst (cf_RateLimit cfg)),
      pg_poller = w, pg_loop = Start NewWordAppService\<rparr>"
    using assms(1) by (auto simp: build_def Let_def split: option.splits prod.splits)
  obtain ws where ws: "FindAllActive (dp_gorm dp) (tk_db tk 0) = Inr ws"
    "Rebuild ?u (tk_ord tk 0) e ws = Some (po_engine w)" "po_cache w = Some ?c"
    by (rule InitEngine_cases [OF w]) simp
  have s0: "service_ok ?u (dp_client dp) js stored UNIV [] (NewFilterAppService e main_strategies ?c)"
    by (rule new_service_ok [OF assms(2) e assms(5,6)])
  have o: "\<forall>a. iteration_order (tk_ord tk 0 a)" using assms(3) by blast
  have "Version e = 0" using e by (auto simp: NewACFilterEngine_def Version_def split: option.splits)
  then have v: "Version (po_engine w) \<noteq> 0" using eng.rebuild_version [OF ws(2)] by simp
  have "Rebuild ?u (tk_ord tk 0) (fa_engine (NewFilterAppService e main_strategies ?c)) ws = Some (po_engine w)"
    using ws(2) by (simp add: NewFilterAppService_def)
  from rebuild_keeps_service [OF s0 assms(4) o this v]
  have s1: "service_ok ?u (dp_client dp) js stored UNIV ws (NewFilterAppService (po_engine w) main_strategies ?c)"
    by (simp add: NewFilterAppService_def)
  have pl: "pl_limiters (newPerClientLimiter x y) = []" for x y by (simp add: newPerClientLimiter_def)
  have "program_ok ?u (dp_client dp) js stored rows p"
    using s1 ws(3) assms(7) by (auto simp: program_ok_def p db_valid_def NewFilterAppService_def)
  then show thesis using ws(1) s1 by (intro that) (simp_all add: p pl)
qed

section \<open>A word on its way\<close>

lemma same_hits:
  assumes "engine_holds u e ws" "engine_holds u e ws'"
  shows "(\<exists>v \<in> set ws. IsActive v \<and> (\<exists>pos. occurs_at (word_pattern u v) (runes_of (Normalize u t)) pos)) \<longleftrightarrow>
    (\<exists>v \<in> set ws'. IsActive v \<and> (\<exists>pos. occurs_at (word_pattern u v) (runes_of (Normalize u t)) pos))"
proof -
  have "Some (engine_verdict u ws t) = Some (engine_verdict u ws' t)"
    using eng.lookup_holds [OF assms(1), of t] eng.lookup_holds [OF assms(2), of t] by simp
  then show ?thesis using verdict_hit_iff [of u ws t] verdict_hit_iff [of u ws' t] by simp
qed

text \<open>What a sound service answers for an engine that holds \<open>ws\<close>.\<close>

lemma sound_answer:
  assumes "service_ok u client js stored UNIV ws' f" "codec_ok js" "engine_holds u (fa_engine f) ws"
  shows "\<exists>resp f'. Filter u client js ck f \<lparr>rq_Text = tx, rq_Strategy = strat\<rparr> = Some (Inr resp, f') \<and>
    fnv64a (rp_Original resp) = fnv64a tx \<and>
    (rp_IsHit resp \<longleftrightarrow> (\<exists>v \<in> set ws. IsActive v \<and>
       (\<exists>pos. occurs_at (word_pattern u v) (runes_of (Normalize u (rp_Original resp))) pos)))"
proof -
  obtain w where w: "world_inv u client js stored w" "w_engine w = fa_engine f" "last (w_lists w) = ws'"
    by (rule world_of [OF assms(1)])
  then have h: "engine_holds u (fa_engine f) ws'" by (simp add: world_inv_def engine_ok_def)
  obtain resp f' t where r: "Filter u client js ck f \<lparr>rq_Text = tx, rq_Strategy = strat\<rparr> = Some (Inr resp, f')"
    "fnv64a t = fnv64a tx" "answers u ws' (choose_strategy strat) t resp"
    using Filter_keeps_service [OF assms(1,2) UNIV_I, of ck tx strat] by blast
  from answers_verdict [OF r(3)] r(1,2) same_hits [OF h assms(3)] show ?thesis by metis
qed

lemma round_version:
  assumes "reconcileOnce dp (ac_engine_ops u) cfg tk s = Some s'" "Version (po_engine s) \<noteq> - 1"
  shows "Version (po_engine s') \<noteq> 0 \<or> po_engine s' = po_engine s"
proof -
  have "Version (po_engine s') = Version (po_engine s) + 1 \<or> po_engine s' = po_engine s"
    using round_cases [OF assms(1)] eng.rebuild_version by metis
  with assms(2) show ?thesis by (metis add.commute eq_neg_iff_add_eq_0)
qed

lemma created_active:
  assumes "write_ok (dp_gorm dp) rows" "Word_Create dp req s = Some (Inr r, t)"
  obtains m where "m \<in> set (active_rows (rows (st_db t)))" "md_Text m = wr_Text r"
proof -
  obtain m where m: "rows (st_db t) = rows (st_db s) @ [m]" "r = EntityToDTO (ToEntity m)"
    "filled (FromEntity (CreateDTOToEntity (dp_unicode dp) req)) m"
    "Validate (CreateDTOToEntity (dp_unicode dp) req) = None" by (rule created_row [OF assms])
  have "md_Status m = 1"
    using m(3,4) by (auto simp: filled_def with_defaults_def FromEntity_def CreateDTOToEntity_def
        Validate_None_iff WordStatusActive_def)
  with m show thesis by (intro that [of m]) (simp_all add: active_rows_def EntityToDTO_def ToEntity_def)
qed


definition sample_program :: "ACFilterEngine \<Rightarrow> (int, table, (gostring, bytes) gomap) program" where
  "sample_program e =
     \<lparr>pg_config = sample_settings [] [],
      pg_http = \<lparr>sv_limiter = newPerClientLimiter 10 10,
        sv_app = \<lparr>ap_db = st_db (sample_state [] 1),
          ap_filter = \<lparr>fa_engine = e, fa_strategies = main_strategies, fa_cache = None, fa_hits = []\<rparr>\<rparr>\<rparr>,
      pg_bucket = 10, pg_poller = sample_poller e, pg_loop = Start NewWordAppService\<rparr>"

lemma sample_request_deps: "request_deps ascii_data map_client silent_codec tb_rows contains sample_http"
  by (simp add: request_deps_def sample_http_def sample_deps_def silent_codec_def table_write_ok table_read_ok)

lemma silent_codec_ok: "codec_ok silent_codec"
  by (simp add: codec_ok_def silent_codec_def)

lemma sample_program_ok:
  assumes "engine_holds ascii_data e []" "Version e = 0"
  shows "program_ok ascii_data map_client silent_codec (\<lambda>r k v. map_of r k = Some v) tb_rows (sample_program e)"
  using fresh_service_ok [OF assms, of UNIV]
  by (auto simp: program_ok_def sample_program_def db_valid_def sample_poller_def sample_state_def table_valid_def)

lemma sample_created:
  "succeeds (Word_Create sample_deps (sample_create ''spam'') (sample_state [] 1))
     (\<lambda>r t. wr_Text r = ''spam'' \<and> st_cache t = None \<and> map md_Status (tb_rows (st_db t)) = [1])"
  by code_simp



definition sample_surroundings :: "(viper_view, table, (gostring, bytes) gomap) surroundings" where
  "sample_surroundings =
     \<lparr>su_viper = sample_viper (\<lambda>_ _. None) (\<lambda>_ _ _. []), su_getenv = (\<lambda>_. []), su_exists = (\<lambda>_. False),
      su_logger = (\<lambda>_. None), su_mysql = (\<lambda>_. Inr (sample_table [])), su_migrate = (\<lambda>_. Inr (sample_table [])), su_redis = (\<lambda>_. Inr []),
      su_order = (\<lambda>_ xs. xs), su_tick = steady_tick\<rparr>"

lemma sample_main: "\<exists>p. main counting_bucket sample_deps sample_surroundings ''c.yaml'' [] = Some (Running p)"
proof -
  have o: "\<forall>a. iteration_order ((\<lambda>(_::addr) xs. xs) a)" by simp
  obtain e where e: "NewACFilterEngine ascii_data (\<lambda>_ xs. xs) = Some e"
    using acm.build_total [OF o, of ascii_data "[]"] by (auto simp: NewACFilterEngine_def)
  obtain e' where "eo_rebuild (ac_engine_ops ascii_data) (\<lambda>_ xs. xs) e (active_entities []) = Some (None, e')"
    using ac_engine.rb_returns [OF o] by blast
  then have i: "InitEngine sample_deps (ac_engine_ops ascii_data) (steady_tick (sample_table []))
      \<lparr>po_engine = e, po_last = no_fingerprint, po_cache = c, po_metrics = no_engine_metrics\<rparr> \<noteq> None \<and>
    (\<forall>y w. InitEngine sample_deps (ac_engine_ops ascii_data) (steady_tick (sample_table []))
      \<lparr>po_engine = e, po_last = no_fingerprint, po_cache = c, po_metrics = no_engine_metrics\<rparr> = Some (y, w) \<longrightarrow> y = None)" for c
    by (simp add: InitEngine_def Let_def sample_queries steady_tick_def)
  obtain cfg where "LoadWithEnv (sample_viper (\<lambda>_ _. None) (\<lambda>_ _ _. [])) (\<lambda>_. []) (\<lambda>_. False) ''c.yaml'' [] = Inr cfg"
    using sample_viper_loads by blast
  then show ?thesis
    using i e by (auto simp: main_def build_def sample_surroundings_def Let_def split: option.splits)
qed


end
