(* ===== verification/CacheHazards.thy ===== *)
theory CacheHazards
  imports Freshness
begin

text \<open>
  What the freshness of answers rests on, shown by what happens without it: a cache that did not
  start empty, because Redis outlives the process whose rebuilds the version counts, and two
  texts with the same 64-bit hash.
\<close>

section \<open>One service, one map behind Redis\<close>

definition sample_clock :: filter_clock where
  "sample_clock = \<lparr>ck_start = 0, ck_get = 0, ck_get_later = 0, ck_apply = 0, ck_cost = 0, ck_set = 0,
     ck_set_later = 0\<rparr>"

definition new_cache :: "(gostring, bytes) gomap \<Rightarrow> (gostring, bytes) gomap MultiLevelCache" where
  "new_cache r = NewMultiLevelCache (NewLocalCache 5 100) r 60 no_metrics"

definition service_with ::
  "ACFilterEngine \<Rightarrow> 'r MultiLevelCache \<Rightarrow> 'r FilterAppService" where
  "service_with e c =
     \<lparr>fa_engine = e, fa_strategies = main_strategies, fa_cache = Some c, fa_hits = []\<rparr>"

text \<open>A codec for one response.\<close>

definition codec_for :: "FilterResponse \<Rightarrow> codec" where
  "codec_for resp =
     \<lparr>marshal = (\<lambda>r. if r = resp then Some ''{}'' else None),
      unmarshal = (\<lambda>d. if d = ''{}'' then Some resp else None)\<rparr>"

lemma sample_clock_select [simp]:
  "ck_start sample_clock = 0" "ck_get sample_clock = 0" "ck_get_later sample_clock = 0"
  "ck_cost sample_clock = 0" "ck_set sample_clock = 0" "ck_set_later sample_clock = 0"
  by (simp_all add: sample_clock_def)

lemma codec_for_select [simp]:
  "marshal (codec_for resp) resp = Some ''{}''" "unmarshal (codec_for resp) ''{}'' = Some resp"
  by (simp_all add: codec_for_def)

lemma codec_for_ok: "codec_ok (codec_for resp)"
  by (simp add: codec_ok_def codec_for_def)

lemma new_cache_Get:
  "\<exists>c'. Cache_Get map_client now later k (new_cache r) =
      (case map_of r k of None \<Rightarrow> Inl RedisNil | Some v \<Rightarrow> Inr v, c') \<and>
    ml_redis c' = r \<and> state (ml_breaker c') = stateClosed"
  by (auto simp: Cache_Get_def new_cache_def NewMultiLevelCache_def Local_Get_entry breaker_defs
      NewCircuitBreaker_def map_client_def Redis_Get_def count_op_def record_success_def
      updateBreakerMetric_def split: option.splits)

lemma closed_cache_Set:
  "state (ml_breaker c) = stateClosed \<Longrightarrow>
   ml_redis (snd (Cache_Set map_client now later k d c)) = map_put k d (ml_redis c)"
  by (auto simp: Cache_Set_def breaker_defs map_client_def Redis_Set_def record_success_def)

text \<open>The first request for a text computes its answer and leaves it in Redis under the key.\<close>

lemma first_request:
  assumes "engine_holds u e ws" "map_of r (filterCacheKey tx StrategyDetect (Version e)) = None"
  shows "\<exists>resp s c. Filter u map_client (codec_for resp) sample_clock (service_with e (new_cache r))
      \<lparr>rq_Text = tx, rq_Strategy = []\<rparr> = Some (Inr resp, s) \<and> fa_cache s = Some c \<and> fa_engine s = e \<and>
    ml_redis c = map_put (filterCacheKey tx StrategyDetect (Version e)) ''{}'' r \<and>
    answers u ws StrategyDetect tx resp"
proof -
  let ?k = "filterCacheKey tx StrategyDetect (Version e)"
  have v: "FilterStrategyType_IsValid StrategyDetect" by code_simp
  obtain resp where resp: "Filter_compute u main_strategies sample_clock e StrategyDetect tx = Some resp"
    "answers u ws StrategyDetect tx resp"
    using Filter_compute_ok [OF assms(1) v] by blast
  obtain c1 where c1: "Cache_Get map_client 0 0 ?k (new_cache r) = (Inl RedisNil, c1)"
    "ml_redis c1 = r" "state (ml_breaker c1) = stateClosed"
    using new_cache_Get [of 0 0 ?k r] assms(2) by auto
  have "Filter_lookup map_client (codec_for resp) sample_clock ?k (Some (new_cache r)) = (None, Some c1)"
    using c1(1) by (simp add: Filter_lookup_def)
  moreover have "Filter_store map_client (codec_for resp) sample_clock ?k resp (Some c1) =
      Some (snd (Cache_Set map_client 0 0 ?k ''{}'' c1))"
    by (simp add: Filter_store_def)
  ultimately have F: "Filter u map_client (codec_for resp) sample_clock (service_with e (new_cache r))
      \<lparr>rq_Text = tx, rq_Strategy = []\<rparr> = Some (Inr resp, (service_with e (new_cache r))
      \<lparr>fa_cache := Some (snd (Cache_Set map_client 0 0 ?k ''{}'' c1)),
       fa_hits := [(StrategyDetect, rp_IsHit resp)]\<rparr>)"
    using resp(1) by (simp add: Filter_def Filter_at_def service_with_def choose_strategy_def Let_def)
  show ?thesis
    by (rule exI [of _ resp], rule exI, rule exI [of _ "snd (Cache_Set map_client 0 0 ?k ''{}'' c1)"],
        rule conjI [OF F])
      (use resp(2) closed_cache_Set [OF c1(3), of 0 0 ?k "''{}''"] c1(2) in
        \<open>simp add: service_with_def\<close>)
qed

text \<open>A later process finds it, whatever its engine holds.\<close>

lemma later_request:
  assumes "map_of r (filterCacheKey tx StrategyDetect (Version e)) = Some ''{}''"
  shows "\<exists>s. Filter u map_client (codec_for resp) sample_clock (service_with e (new_cache r))
      \<lparr>rq_Text = tx, rq_Strategy = []\<rparr> = Some (Inr (resp\<lparr>rp_CostMs := 0\<rparr>), s)"
proof -
  let ?k = "filterCacheKey tx StrategyDetect (Version e)"
  obtain c1 where "Cache_Get map_client 0 0 ?k (new_cache r) = (Inr ''{}'', c1)"
    using new_cache_Get [of 0 0 ?k r] assms by auto
  then show ?thesis
    by (simp add: Filter_def Filter_at_def service_with_def choose_strategy_def Filter_lookup_def
        Milliseconds_def Let_def)
qed

section \<open>Properties\<close>

text \<open>
  The version in the key counts the rebuilds of one process, but Redis is shared and
  outlives it: a process that has rebuilt once from a list without a word serves, under the
  same key, the hit that an earlier process cached when its own first list had the word.
\<close>

theorem restarted_process_serves_old_verdict:
  assumes "engine_holds u e ws" and "engine_holds u e' ws'" and "Version e' = Version e"
  shows "\<exists>resp s c resp' s'.
    Filter u map_client (codec_for resp) sample_clock (service_with e (new_cache []))
      \<lparr>rq_Text = tx, rq_Strategy = []\<rparr> = Some (Inr resp, s) \<and> fa_cache s = Some c \<and>
    Filter u map_client (codec_for resp) sample_clock (service_with e' (new_cache (ml_redis c)))
      \<lparr>rq_Text = tx, rq_Strategy = []\<rparr> = Some (Inr resp', s') \<and>
    (rp_IsHit resp' \<longleftrightarrow> (\<exists>v \<in> set ws. IsActive v \<and>
       (\<exists>pos. occurs_at (word_pattern u v) (runes_of (Normalize u tx)) pos)))"
proof -
  obtain resp s c where f: "Filter u map_client (codec_for resp) sample_clock
      (service_with e (new_cache [])) \<lparr>rq_Text = tx, rq_Strategy = []\<rparr> = Some (Inr resp, s)"
    "fa_cache s = Some c" "ml_redis c = map_put (filterCacheKey tx StrategyDetect (Version e)) ''{}'' []"
    "answers u ws StrategyDetect tx resp"
    using first_request [OF assms(1), of "[]" tx] by auto
  have "map_of (ml_redis c) (filterCacheKey tx StrategyDetect (Version e')) = Some ''{}''"
    using f(3) assms(3) by simp
  from later_request [OF this, of u resp] f answers_verdict [OF f(4)] show ?thesis by fastforce
qed

lemma sample_engine:
  "\<exists>e. engine_holds ascii_data e ws \<and> Version e = 1"
proof -
  have o: "\<forall>a. iteration_order ((\<lambda>(_::addr) xs. xs) a)" by simp
  let ?e0 = "\<lparr>current = \<lparr>heap = [newACNode], wordCount = 0\<rparr>, version = 0\<rparr>"
  obtain e where e: "Rebuild ascii_data (\<lambda>_ xs. xs) ?e0 ws = Some e"
    using eng.rebuild_total [OF o] by blast
  from eng.rebuild_holds [OF o e] eng.rebuild_version [OF e] show ?thesis by (auto simp: Version_def)
qed

theorem restarted_process_serves_old_verdict_witness:
  "\<exists>e' js r resp' s'. engine_holds ascii_data e' [] \<and>
    Filter ascii_data map_client js sample_clock (service_with e' (new_cache r))
      \<lparr>rq_Text = ''a bad text'', rq_Strategy = []\<rparr> = Some (Inr resp', s') \<and> rp_IsHit resp'"
proof -
  let ?ws = "[sample_word ''bad'' WordStatusActive]"
  obtain e where e: "engine_holds ascii_data e ?ws" "Version e = 1" using sample_engine by blast
  obtain e' where e': "engine_holds ascii_data e' []" "Version e' = 1" using sample_engine by blast
  have "IsActive (sample_word ''bad'' WordStatusActive)"
    "occurs_at (word_pattern ascii_data (sample_word ''bad'' WordStatusActive))
       (runes_of (Normalize ascii_data ''a bad text'')) 2" by code_simp+
  then have "\<exists>v \<in> set ?ws. IsActive v \<and> (\<exists>pos. occurs_at (word_pattern ascii_data v)
      (runes_of (Normalize ascii_data ''a bad text'')) pos)" by auto
  with restarted_process_serves_old_verdict [OF e(1) e'(1), of "''a bad text''"] e(2) e' show ?thesis
    by metis
qed

text \<open>
  The key holds a 64-bit hash of the text and nothing checks the text behind it: after a
  request for \<open>tx\<close>, a request for any \<open>ty\<close> with the same FNV-1a hash is answered with the
  original, the verdict and the filtered text of \<open>tx\<close>.
\<close>

theorem colliding_text_gets_other_answer:
  assumes "engine_holds u e ws" and "fnv64a ty = fnv64a tx"
  shows "\<exists>resp s c resp' s'.
    Filter u map_client (codec_for resp) sample_clock (service_with e (new_cache []))
      \<lparr>rq_Text = tx, rq_Strategy = []\<rparr> = Some (Inr resp, s) \<and> fa_cache s = Some c \<and>
    Filter u map_client (codec_for resp) sample_clock (service_with e (new_cache (ml_redis c)))
      \<lparr>rq_Text = ty, rq_Strategy = []\<rparr> = Some (Inr resp', s') \<and>
    rp_Original resp' = tx \<and> rp_Filtered resp' = rp_Filtered resp \<and>
    (rp_IsHit resp' \<longleftrightarrow> (\<exists>v \<in> set ws. IsActive v \<and>
       (\<exists>pos. occurs_at (word_pattern u v) (runes_of (Normalize u tx)) pos)))"
proof -
  obtain resp s c where f: "Filter u map_client (codec_for resp) sample_clock
      (service_with e (new_cache [])) \<lparr>rq_Text = tx, rq_Strategy = []\<rparr> = Some (Inr resp, s)"
    "fa_cache s = Some c" "ml_redis c = map_put (filterCacheKey tx StrategyDetect (Version e)) ''{}'' []"
    "answers u ws StrategyDetect tx resp"
    using first_request [OF assms(1), of "[]" tx] by auto
  have "filterCacheKey ty StrategyDetect (Version e) = filterCacheKey tx StrategyDetect (Version e)"
    by (simp add: filterCacheKey_def assms(2))
  then have "map_of (ml_redis c) (filterCacheKey ty StrategyDetect (Version e)) = Some ''{}''"
    using f(3) by simp
  from later_request [OF this, of u resp] f answers_verdict [OF f(4)] show ?thesis by fastforce
qed

text \<open>Two such texts; with a word that is the second, lower case, it goes unnoticed.\<close>

theorem colliding_text_gets_other_answer_witness:
  "\<exists>e js r resp' s'. engine_holds ascii_data e [sample_word ''GReLUrM4wMqfg9yzV3KQ'' WordStatusActive] \<and>
    Filter ascii_data map_client js sample_clock (service_with e (new_cache r))
      \<lparr>rq_Text = ''GReLUrM4wMqfg9yzV3KQ'', rq_Strategy = []\<rparr> = Some (Inr resp', s') \<and>
    \<not> rp_IsHit resp' \<and> rp_Original resp' = ''8yn0iYCKYHlIj4-BwPqk''"
proof -
  let ?t = "''8yn0iYCKYHlIj4-BwPqk''"
  let ?w = "sample_word ''GReLUrM4wMqfg9yzV3KQ'' WordStatusActive"
  obtain e where e: "engine_holds ascii_data e [?w]" using sample_engine by blast
  have h: "fnv64a ''GReLUrM4wMqfg9yzV3KQ'' = fnv64a ?t" by (simp add: fnv64a_def of_char_def)
  have n: "reference_search ascii_data (rebuild_entries [?w]) (runes_of (Normalize ascii_data ?t)) = []"
    by code_simp
  then have "\<not> (\<exists>v \<in> set [?w]. IsActive v \<and>
      (\<exists>pos. occurs_at (word_pattern ascii_data v) (runes_of (Normalize ascii_data ?t)) pos))"
    using verdict_hit_iff [of ascii_data "[?w]" ?t] by (simp add: engine_verdict_def)
  with colliding_text_gets_other_answer [OF e h] e show ?thesis by metis
qed

end
