(* ===== verification/Cluster.thy ===== *)
theory Cluster
  imports CacheHazards Batch
begin

text \<open>
  Several instances behind one Redis. Each has an engine, a first cache level and a count of rebuilds of its
  own, and all read and write the same entries, under keys that carry only the version of the instance
  that wrote them. Instances start at any time, with a new process or in the place of one that ended, and every one
  takes the steps of theory \<open>Freshness\<close>.
\<close>

section \<open>The cluster\<close>

text \<open>
  An instance that has stopped stays in the list and takes no more steps: what it has cached remains. The
  Redis in the cache of an instance is a copy, which a step takes afresh from the shared one.
\<close>

record 'r cluster =
  cl_redis :: 'r
  cl_nodes :: "'r world list"

definition on_redis :: "'r \<Rightarrow> 'r world \<Rightarrow> 'r world" where
  "on_redis r w = w\<lparr>w_cache := map_option (\<lambda>c. c\<lparr>ml_redis := r\<rparr>) (w_cache w)\<rparr>"

definition redis_left :: "'r \<Rightarrow> 'r world \<Rightarrow> 'r" where
  "redis_left r w = (case w_cache w of Some c \<Rightarrow> ml_redis c | None \<Rightarrow> r)"

definition new_node :: "ACFilterEngine \<Rightarrow> duration \<Rightarrow> int \<Rightarrow> 'r \<Rightarrow> duration \<Rightarrow> cache_metrics \<Rightarrow> 'r world" where
  "new_node e t n r rt mt = initial_world e (Some (NewMultiLevelCache (NewLocalCache t n) r rt mt))"

definition put_node :: "nat \<Rightarrow> 'r \<Rightarrow> 'r world \<Rightarrow> 'r cluster \<Rightarrow> 'r cluster" where
  "put_node i r w cl = \<lparr>cl_redis = r, cl_nodes = (cl_nodes cl)[i := w]\<rparr>"

text \<open>A step of an instance, the start of one, and Redis losing entries, by expiry or a restart of its own.\<close>

inductive cluster_step ::
  "unicode_data \<Rightarrow> 'r redis_client \<Rightarrow> codec \<Rightarrow> ('r \<Rightarrow> gostring \<Rightarrow> bytes \<Rightarrow> bool) \<Rightarrow> 'r cluster \<Rightarrow> 'r cluster \<Rightarrow> bool"
  for u client js stored where
  node: "i < length (cl_nodes cl) \<Longrightarrow> world_step u client js (on_redis (cl_redis cl) (cl_nodes cl ! i)) w \<Longrightarrow>
    cluster_step u client js stored cl (put_node i (redis_left (cl_redis cl) w) w cl)"
| join: "\<forall>a. iteration_order (ord a) \<Longrightarrow> NewACFilterEngine u ord = Some e \<Longrightarrow>
    cluster_step u client js stored cl
      (cl\<lparr>cl_nodes := cl_nodes cl @ [new_node e t n (cl_redis cl) rt mt]\<rparr>)"
| lose: "\<forall>k v. stored r k v \<longrightarrow> stored (cl_redis cl) k v \<Longrightarrow>
    cluster_step u client js stored cl (cl\<lparr>cl_redis := r\<rparr>)"

definition no_instance :: "'r \<Rightarrow> 'r cluster" where
  "no_instance r = \<lparr>cl_redis = r, cl_nodes = []\<rparr>"

section \<open>What some instance knows\<close>

definition known_since ::
  "unicode_data \<Rightarrow> 'r world list \<Rightarrow> nat \<Rightarrow> FilterStrategyType \<Rightarrow> gostring \<Rightarrow> FilterResponse \<Rightarrow> bool" where
  "known_since u ws n s t resp \<longleftrightarrow> (\<exists>w \<in> set ws. fresh_since u w n s t resp)"

definition known_entry :: "unicode_data \<Rightarrow> codec \<Rightarrow> 'r world list \<Rightarrow> gostring \<Rightarrow> bytes \<Rightarrow> bool" where
  "known_entry u js ws k d \<longleftrightarrow> (\<exists>w \<in> set ws. entry_ok u js w k d)"

definition nodes_extend :: "'r world list \<Rightarrow> 'r world list \<Rightarrow> bool" where
  "nodes_extend ws ws' \<longleftrightarrow> length ws \<le> length ws' \<and> (\<forall>i < length ws. extends (ws ! i) (ws' ! i))"

lemma extends_refl [simp]: "extends w w"
  by (simp add: extends_def)

lemma extends_trans: "extends w w' \<Longrightarrow> extends w' w'' \<Longrightarrow> extends w w''"
  by (auto simp: extends_def)

lemma nodes_extend_mem: "nodes_extend ws ws' \<Longrightarrow> w \<in> set ws \<Longrightarrow> \<exists>w' \<in> set ws'. extends w w'"
  by (auto simp: nodes_extend_def in_set_conv_nth) (metis nth_mem order_less_le_trans)

lemma known_since_extend: "nodes_extend ws ws' \<Longrightarrow> known_since u ws n s t resp \<Longrightarrow> known_since u ws' n s t resp"
  unfolding known_since_def using nodes_extend_mem fresh_since_extends by metis

lemma known_entry_extend: "nodes_extend ws ws' \<Longrightarrow> known_entry u js ws k d \<Longrightarrow> known_entry u js ws' k d"
  unfolding known_entry_def using nodes_extend_mem entry_ok_extends by metis

text \<open>Looking at another Redis changes nothing but the cache.\<close>

lemma on_redis_simps [simp]:
  "w_engine (on_redis r w) = w_engine w" "w_mid (on_redis r w) = w_mid w" "w_flight (on_redis r w) = w_flight w"
  "w_lists (on_redis r w) = w_lists w" "w_done (on_redis r w) = w_done w" "w_asked (on_redis r w) = w_asked w"
  "w_answered (on_redis r w) = w_answered w"
  "w_cache (on_redis r w) = map_option (\<lambda>c. c\<lparr>ml_redis := r\<rparr>) (w_cache w)"
  by (simp_all add: on_redis_def)

lemma on_redis_left [simp]: "on_redis (redis_left r w) w = w"
  by (cases "w_cache w") (simp_all add: on_redis_def redis_left_def)

lemma extends_on_redis [simp]: "extends (on_redis r w) w' = extends w w'" "extends w (on_redis r w') = extends w w'"
  by (simp_all add: extends_def)

lemma ml_holds_redis: "ml_holds stored (c\<lparr>ml_redis := r\<rparr>) k v \<longleftrightarrow>
    (\<exists>item. entry (ml_local c) k = Some item \<and> ci_value item = v) \<or> stored r k v"
  by (simp add: ml_holds_def)

lemma ml_inv_redis [simp]: "ml_inv client stored (c\<lparr>ml_redis := r\<rparr>) = ml_inv client stored c"
  by (simp add: ml_inv_def)

lemma within_redis:
  assumes "world_within u client stored K F (on_redis r w)" "\<And>k d. stored r' k d \<Longrightarrow> K k d"
  shows "world_within u client stored K F (on_redis r' w)"
proof -
  have "engine_ok u (on_redis r' w)" "\<forall>q \<in> set (w_flight w). request_ok u (on_redis r' w) q"
    using assms(1) engine_ok_same [of u "on_redis r w" "on_redis r' w"]
      request_ok_extends [of "on_redis r w" "on_redis r' w"] by (auto simp: world_within_def)
  moreover have "cache_within client stored K (w_cache (on_redis r' w))"
    using assms by (auto simp: world_within_def cache_within_def ml_holds_redis)
  ultimately show ?thesis using assms(1) by (simp add: world_within_def)
qed

lemma world_within_mono:
  assumes "world_within u client stored K F w" "\<And>k d. K k d \<Longrightarrow> K' k d"
    and "\<And>n s t resp. F n s t resp \<Longrightarrow> F' n s t resp"
  shows "world_within u client stored K' F' w"
  using assms cache_within_mono [OF _ assms(2)] by (fastforce simp: world_within_def)

section \<open>The invariant\<close>

definition cluster_inv ::
  "unicode_data \<Rightarrow> 'r redis_client \<Rightarrow> codec \<Rightarrow> ('r \<Rightarrow> gostring \<Rightarrow> bytes \<Rightarrow> bool) \<Rightarrow> 'r cluster \<Rightarrow> bool" where
  "cluster_inv u client js stored cl \<longleftrightarrow>
     (\<forall>k d. stored (cl_redis cl) k d \<longrightarrow> known_entry u js (cl_nodes cl) k d) \<and>
     (\<forall>w \<in> set (cl_nodes cl). world_within u client stored (known_entry u js (cl_nodes cl))
        (known_since u (cl_nodes cl)) (on_redis (cl_redis cl) w))"

definition counts_fit :: "'r cluster \<Rightarrow> bool" where
  "counts_fit cl \<longleftrightarrow> (\<forall>w \<in> set (cl_nodes cl). w_done w < 2 ^ 64)"

lemma cluster_step_extend: "cluster_step u client js stored cl cl' \<Longrightarrow> nodes_extend (cl_nodes cl) (cl_nodes cl')"
proof (induction rule: cluster_step.induct)
  case (node i cl w)
  then show ?case using world_step_extends [OF node(2)] by (auto simp: nodes_extend_def put_node_def nth_list_update)
qed (auto simp: nodes_extend_def nth_append)

lemma counts_fit_before: "nodes_extend (cl_nodes cl) (cl_nodes cl') \<Longrightarrow> counts_fit cl' \<Longrightarrow> counts_fit cl"
  using nodes_extend_mem unfolding counts_fit_def extends_def by (metis order_le_less_trans)

text \<open>A value found under the key of a version answers by a list that its writer held with or after that many rebuilds.\<close>

lemma known_entry_key:
  assumes "known_entry u js ws (filterCacheKey t s (of_nat n)) d" "unmarshal js d = Some resp"
    and "FilterStrategyType_IsValid s" "n < 2 ^ 64" "\<forall>w \<in> set ws. w_done w < 2 ^ 64"
  shows "known_since u ws n s t (resp\<lparr>rp_CostMs := c\<rparr>)"
proof -
  obtain w where w: "w \<in> set ws" "entry_ok u js w (filterCacheKey t s (of_nat n)) d"
    using assms(1) by (auto simp: known_entry_def)
  have "fresh_since u w n s t resp" by (rule entry_ok_key [OF w(2) assms(2-4)]) (use assms(5) w(1) in blast)
  then show ?thesis using w(1) by (auto simp: known_since_def)
qed

lemma cluster_inv_carry:
  assumes "cluster_inv u client js stored cl" "nodes_extend (cl_nodes cl) ws"
    and "\<And>k d. stored r k d \<Longrightarrow> known_entry u js ws k d" "w \<in> set (cl_nodes cl)"
  shows "world_within u client stored (known_entry u js ws) (known_since u ws) (on_redis r w)"
proof -
  have "world_within u client stored (known_entry u js (cl_nodes cl)) (known_since u (cl_nodes cl))
      (on_redis (cl_redis cl) w)" using assms(1,4) by (simp add: cluster_inv_def)
  then have "world_within u client stored (known_entry u js ws) (known_since u ws) (on_redis (cl_redis cl) w)"
    by (rule world_within_mono) (use known_entry_extend known_since_extend assms(2) in blast)+
  then show ?thesis by (rule within_redis) (rule assms(3))
qed

lemma cluster_step_inv:
  assumes "cluster_step u client js stored cl cl'" "cluster_inv u client js stored cl"
    and "redis_faithful client stored" "codec_ok js" "counts_fit cl'"
  shows "cluster_inv u client js stored cl'"
proof -
  note X = cluster_step_extend [OF assms(1)]
  let ?K = "known_entry u js (cl_nodes cl')" and ?F = "known_since u (cl_nodes cl')"
  have old: "?K k d" if "stored (cl_redis cl) k d" for k d
    using assms(2) that known_entry_extend [OF X] by (auto simp: cluster_inv_def)
  note carry = cluster_inv_carry [OF assms(2) X]
  from assms(1) show ?thesis
  proof (cases rule: cluster_step.cases)
    case (node i w)
    let ?w0 = "on_redis (cl_redis cl) (cl_nodes cl ! i)"
    have i: "cl_nodes cl' = (cl_nodes cl)[i := w]" "cl_redis cl' = redis_left (cl_redis cl) w" "w \<in> set (cl_nodes cl')"
      using node(1,2) by (simp_all add: put_node_def set_update_memI)
    have "world_within u client stored ?K ?F ?w0" by (rule carry [OF old]) (use node(2) in simp_all)
    then have W: "world_within u client stored ?K ?F w"
    proof (rule world_step_within [OF node(3) _ assms(4)])
      show "w_done w < 2 ^ 64" using assms(5) i(3) by (simp add: counts_fit_def)
      show "?K k d" if "entry_ok u js w k d" for k d using that i(3) by (auto simp: known_entry_def)
      show "?F n s t resp" if "fresh_since u w n s t resp" for n s t resp
        using that i(3) by (auto simp: known_since_def)
      show "?F n s t (resp\<lparr>rp_CostMs := c\<rparr>)"
        if "?K (filterCacheKey t s (of_nat n)) d" "unmarshal js d = Some resp" "FilterStrategyType_IsValid s" "n < 2 ^ 64"
        for n s t d resp c
        using known_entry_key [OF that] assms(5) by (auto simp: counts_fit_def)
    qed
    have R: "?K k d" if "stored (cl_redis cl') k d" for k d
    proof (cases "w_cache w")
      case None
      then show ?thesis using that i(2) old by (simp add: redis_left_def)
    next
      case (Some c)
      then have "ml_holds stored c k d" using that i(2) by (simp add: redis_left_def ml_holds_def)
      then show ?thesis using W Some by (auto simp: world_within_def cache_within_def)
    qed
    have "world_within u client stored ?K ?F (on_redis (cl_redis cl') v)" if v: "v \<in> set (cl_nodes cl')" for v
    proof (cases "v = w")
      case True
      then show ?thesis using W i(2) by simp
    next
      case False
      then have "v \<in> set (cl_nodes cl)" using v i(1) set_update_subset_insert by fastforce
      then show ?thesis by (intro carry R)
    qed
    with R show ?thesis by (simp add: cluster_inv_def)
  next
    case (join ord e t n rt mt)
    let ?w = "new_node e t n (cl_redis cl) rt mt"
    have "world_inv u client js stored (initial_world e None)"
      by (rule initial_world_inv [OF join(2,3) assms(3)]) simp
    note e0 = this [unfolded world_inv_def, THEN conjunct1]
    have "engine_ok u ?w" by (rule engine_ok_same [OF e0]) (simp_all add: new_node_def initial_world_def)
    then have "world_within u client stored ?K ?F ?w"
      using old assms(3) by (auto simp: world_within_def new_node_def initial_world_def cache_within_def ml_inv_def
          NewMultiLevelCache_def local_inv_new ml_holds_def)
    moreover have "on_redis (cl_redis cl) ?w = ?w"
      by (simp add: on_redis_def new_node_def initial_world_def NewMultiLevelCache_def)
    ultimately show ?thesis using carry [OF old] old join(1) by (auto simp: cluster_inv_def)
  next
    case (lose r)
    then have "?K k d" if "stored (cl_redis cl') k d" for k d using old that by simp
    then show ?thesis using carry lose(1) by (auto simp: cluster_inv_def)
  qed
qed

lemma cluster_steps_inv:
  assumes "(cluster_step u client js stored)\<^sup>*\<^sup>* cl0 cl" "cluster_inv u client js stored cl0"
    and "redis_faithful client stored" "codec_ok js"
  shows "counts_fit cl \<Longrightarrow> cluster_inv u client js stored cl"
  using assms(1)
proof (induction rule: rtranclp_induct)
  case base
  show ?case by (rule assms(2))
next
  case (step y z)
  have "counts_fit y" by (rule counts_fit_before [OF cluster_step_extend [OF step.hyps(2)] step.prems])
  from cluster_step_inv [OF step.hyps(2) step.IH [OF this] assms(3,4) step.prems] show ?case .
qed

lemma cluster_answer_known:
  assumes "redis_faithful client stored" "codec_ok js" "\<forall>k v. \<not> stored r k v"
    and "(cluster_step u client js stored)\<^sup>*\<^sup>* (no_instance r) cl" "counts_fit cl"
    and "w \<in> set (cl_nodes cl)" "(tx, s, n, resp) \<in> set (w_answered w)"
  obtains w' t g where "w' \<in> set (cl_nodes cl)" "t \<in> set (w_asked w')" "fnv64a t = fnv64a tx"
    "n \<le> g" "g < length (w_lists w')" "answers u (w_lists w' ! g) s t resp"
proof -
  have "cluster_inv u client js stored (no_instance r)" using assms(3) by (simp add: cluster_inv_def no_instance_def)
  from cluster_steps_inv [OF assms(4) this assms(1,2,5)] assms(6,7)
  have "known_since u (cl_nodes cl) n s tx resp" by (fastforce simp: cluster_inv_def world_within_def)
  then show thesis using that unfolding known_since_def fresh_since_def by blast
qed

text \<open>
  Where the instances have stored the same lists in the same order, sharing Redis costs nothing: the list is one
  this history has at or after the place of the last rebuild the answering instance had completed.
\<close>

lemma lockstep_answers_are_fresh:
  assumes "redis_faithful client stored" "codec_ok js" "\<forall>k v. \<not> stored r k v"
    and "(cluster_step u client js stored)\<^sup>*\<^sup>* (no_instance r) cl" "counts_fit cl"
    and "w \<in> set (cl_nodes cl)" "(tx, s, n, resp) \<in> set (w_answered w)"
    and "\<forall>w \<in> set (cl_nodes cl). \<forall>g < length (w_lists w). w_lists w ! g = H g"
  shows "\<exists>t g. fnv64a t = fnv64a tx \<and> n \<le> g \<and> answers u (H g) s t resp"
  by (rule cluster_answer_known [OF assms(1-7)]) (use assms(8) in metis)

section \<open>Properties\<close>

text \<open>
  Claim C3. Whatever instances start, stop, rebuild and answer, in whatever order, and whatever Redis loses: an answer of an
  instance to a request that came when it had completed \<open>n\<close> rebuilds is the reference answer by a list that
  some instance, though perhaps another one, stored with or after its own \<open>n\<close>-th rebuild, for a
  text asked there with the same hash. No answer comes from anything else.
\<close>

theorem cluster_answers_are_known:
  assumes "redis_faithful client stored" and "codec_ok js" and "\<forall>k v. \<not> stored r k v"
    and "(cluster_step u client js stored)\<^sup>*\<^sup>* (no_instance r) cl" and "counts_fit cl"
    and "w \<in> set (cl_nodes cl)" and "(tx, s, n, resp) \<in> set (w_answered w)"
  shows "\<exists>w' t g. w' \<in> set (cl_nodes cl) \<and> t \<in> set (w_asked w') \<and> fnv64a t = fnv64a tx \<and>
    n \<le> g \<and> g < length (w_lists w') \<and> answers u (w_lists w' ! g) s t resp \<and> rp_Original resp = t \<and>
    (rp_IsHit resp \<longleftrightarrow> (\<exists>v \<in> set (w_lists w' ! g). IsActive v \<and>
       (\<exists>pos. occurs_at (word_pattern u v) (runes_of (Normalize u t)) pos)))"
proof -
  obtain w' t g where f: "w' \<in> set (cl_nodes cl)" "t \<in> set (w_asked w')" "fnv64a t = fnv64a tx"
    "n \<le> g" "g < length (w_lists w')" "answers u (w_lists w' ! g) s t resp"
    by (rule cluster_answer_known [OF assms])
  with answers_verdict [OF f(6)] show ?thesis by blast
qed

section \<open>A run of two instances\<close>

text \<open>Runs of one instance that has seen the last of Redis are runs of the cluster.\<close>

definition node_current :: "'r cluster \<Rightarrow> nat \<Rightarrow> 'r MultiLevelCache \<Rightarrow> bool" where
  "node_current cl i c \<longleftrightarrow> i < length (cl_nodes cl) \<and> w_cache (cl_nodes cl ! i) = Some c \<and> ml_redis c = cl_redis cl"

lemma node_current_on_redis: "node_current cl i c \<Longrightarrow> on_redis (cl_redis cl) (cl_nodes cl ! i) = cl_nodes cl ! i"
  by (auto simp: node_current_def on_redis_def)

lemma world_step_keeps_cache: "world_step u client js w w' \<Longrightarrow> w_cache w \<noteq> None \<Longrightarrow> w_cache w' \<noteq> None"
  by (induction rule: world_step.induct)
    (auto simp: Filter_lookup_def Filter_store_def split: option.splits prod.splits sum.splits)

lemma world_steps_keep_cache: "(world_step u client js)\<^sup>*\<^sup>* w w' \<Longrightarrow> w_cache w \<noteq> None \<Longrightarrow> w_cache w' \<noteq> None"
  by (induction rule: rtranclp_induct) (use world_step_keeps_cache in blast)+

lemma node_run:
  assumes "(world_step u client js)\<^sup>*\<^sup>* (cl_nodes cl ! i) w" "node_current cl i c"
  shows "\<exists>c'. w_cache w = Some c' \<and>
    (cluster_step u client js stored)\<^sup>*\<^sup>* cl (put_node i (ml_redis c') w cl)"
  using assms(1)
proof (induction rule: rtranclp_induct)
  case base
  have "put_node i (ml_redis c) (cl_nodes cl ! i) cl = cl"
    using assms(2) by (cases cl) (simp add: put_node_def node_current_def)
  then show ?case using assms(2) by (simp add: node_current_def)
next
  case (step v w)
  then obtain c1 where c1: "w_cache v = Some c1" "(cluster_step u client js stored)\<^sup>*\<^sup>* cl (put_node i (ml_redis c1) v cl)"
    by blast
  let ?cl = "put_node i (ml_redis c1) v cl"
  have n: "node_current ?cl i c1" "cl_nodes ?cl ! i = v"
    using assms(2) c1(1) by (simp_all add: node_current_def put_node_def)
  have "world_step u client js (on_redis (cl_redis ?cl) (cl_nodes ?cl ! i)) w"
    using step(2) node_current_on_redis [OF n(1)] n(2) by simp
  from cluster_step.node [OF _ this] n(1)
  have s: "cluster_step u client js stored ?cl (put_node i (redis_left (cl_redis ?cl) w) w ?cl)"
    by (simp add: node_current_def)
  obtain c2 where c2: "w_cache w = Some c2" using world_step_keeps_cache [OF step(2)] c1(1) by auto
  have "put_node i (redis_left (cl_redis ?cl) w) w ?cl = put_node i (ml_redis c2) w cl"
    by (simp add: put_node_def redis_left_def c2)
  then show ?case using c2 c1(2) s by auto
qed

text \<open>A new instance that has rebuilt once and then answers one text with the default strategy.\<close>

lemma rebuild_run:
  assumes "Rebuild u ord (w_engine w) ws = Some e" "\<forall>a. iteration_order (ord a)" "\<not> w_mid w"
  shows "(world_step u client js)\<^sup>*\<^sup>* w
    (w\<lparr>w_engine := e, w_mid := False, w_lists := w_lists w @ [ws], w_done := Suc (w_done w)\<rparr>)"
proof -
  obtain ac where ac: "NewAhoCorasick u ord (rebuild_entries ws) = Some ac"
    "e = Rebuild_bump (Rebuild_store ac (w_engine w))"
    using assms(1) by (auto simp: Rebuild_def split: option.splits)
  let ?w1 = "w\<lparr>w_engine := Rebuild_store ac (w_engine w), w_mid := True, w_lists := w_lists w @ [ws]\<rparr>"
  have "world_step u client js w ?w1" by (rule world_step.store [OF assms(3,2) ac(1)])
  moreover have "world_step u client js ?w1
      (?w1\<lparr>w_engine := Rebuild_bump (w_engine ?w1), w_mid := False, w_done := Suc (w_done ?w1)\<rparr>)"
    by (rule world_step.bump) simp
  ultimately have "(world_step u client js)\<^sup>*\<^sup>* w
      (?w1\<lparr>w_engine := Rebuild_bump (w_engine ?w1), w_mid := False, w_done := Suc (w_done ?w1)\<rparr>)"
    by (meson rtranclp.rtrancl_into_rtrancl rtranclp.rtrancl_refl)
  then show ?thesis by (cases w) (simp add: ac(2))
qed

lemma request_run:
  assumes "Filter u client js ck s \<lparr>rq_Text = tx, rq_Strategy = []\<rparr> = Some (Inr resp, s')" "fa_strategies s = main_strategies"
    and "w_engine w = fa_engine s" "w_cache w = fa_cache s" "w_flight w = []"
  obtains w' where "(world_step u client js)\<^sup>*\<^sup>* w w'" "w_cache w' = fa_cache s'" "w_lists w' = w_lists w"
    "w_done w' = w_done w" "w_asked w' = tx # w_asked w"
    "w_answered w' = (tx, StrategyDetect, w_done w, resp) # w_answered w"
  using Filter_is_a_run [OF assms(1,3,4,5,2)] that by (auto simp: choose_strategy_def)

definition one_answer :: "SensitiveWord list \<Rightarrow> gostring \<Rightarrow> FilterResponse \<Rightarrow> 'r world \<Rightarrow> bool" where
  "one_answer ws tx resp w \<longleftrightarrow> w_lists w = [[], ws] \<and> w_done w = 1 \<and> w_asked w = [tx] \<and>
     w_answered w = [(tx, StrategyDetect, 1, resp)]"

lemma instance_run:
  fixes cl :: "(gostring, bytes) gomap cluster"
  assumes "\<forall>a. iteration_order (ord a)" "NewACFilterEngine u ord = Some e0" "Rebuild u ord e0 ws = Some e"
    and "Filter u map_client js sample_clock (service_with e (new_cache (cl_redis cl)))
      \<lparr>rq_Text = tx, rq_Strategy = []\<rparr> = Some (Inr resp, s)" "fa_cache s = Some c"
  shows "\<exists>w. one_answer ws tx resp w \<and> (cluster_step u map_client js stored)\<^sup>*\<^sup>* cl
      \<lparr>cl_redis = ml_redis c, cl_nodes = cl_nodes cl @ [w]\<rparr>"
proof -
  let ?n0 = "new_node e0 5 100 (cl_redis cl) 60 no_metrics"
  let ?cl = "cl\<lparr>cl_nodes := cl_nodes cl @ [?n0]\<rparr>" and ?i = "length (cl_nodes cl)"
  let ?n1 = "?n0\<lparr>w_engine := e, w_mid := False, w_lists := w_lists ?n0 @ [ws], w_done := Suc (w_done ?n0)\<rparr>"
  have j: "cluster_step u map_client js stored cl ?cl" by (rule cluster_step.join [OF assms(1,2)])
  have n0: "w_engine ?n0 = e0" "w_cache ?n0 = Some (new_cache (cl_redis cl))" "w_flight ?n0 = []" "w_lists ?n0 = [[]]"
    "w_done ?n0 = 0" "w_asked ?n0 = []" "w_answered ?n0 = []" "\<not> w_mid ?n0"
    by (simp_all add: new_node_def initial_world_def new_cache_def)
  have r: "(world_step u map_client js)\<^sup>*\<^sup>* ?n0 ?n1"
    by (rule rebuild_run) (use assms(1,3) n0 in simp_all)
  obtain w where w: "(world_step u map_client js)\<^sup>*\<^sup>* ?n1 w" "w_cache w = Some c" "w_lists w = [[], ws]" "w_done w = 1"
    "w_asked w = [tx]" "w_answered w = [(tx, StrategyDetect, 1, resp)]"
    by (rule request_run [OF assms(4), of ?n1]) (use n0 assms(5) in \<open>simp_all add: service_with_def\<close>)
  have cur: "node_current ?cl ?i (new_cache (cl_redis cl))"
    by (simp add: node_current_def n0 new_cache_def NewMultiLevelCache_def)
  have "(world_step u map_client js)\<^sup>*\<^sup>* (cl_nodes ?cl ! ?i) w" using r w(1) by simp
  from node_run [OF this cur, of stored] w(2)
  have "(cluster_step u map_client js stored)\<^sup>*\<^sup>* ?cl (put_node ?i (ml_redis c) w ?cl)" by simp
  then have "(cluster_step u map_client js stored)\<^sup>*\<^sup>* cl (put_node ?i (ml_redis c) w ?cl)"
    using j by (rule converse_rtranclp_into_rtranclp [rotated])
  moreover have "put_node ?i (ml_redis c) w ?cl = \<lparr>cl_redis = ml_redis c, cl_nodes = cl_nodes cl @ [w]\<rparr>"
    by (simp add: put_node_def)
  ultimately show ?thesis using w by (auto simp: one_answer_def)
qed

text \<open>
  An instance that starts later than another, both running, serves what the other one has cached at the
  same count of rebuilds, whatever list each of them holds.
\<close>

lemma later_instance_serves_older_verdict:
  fixes ord :: range_order
  assumes "\<forall>a. iteration_order (ord a)"
  shows "\<exists>js cl v w resp resp'. codec_ok js \<and> (cluster_step u map_client js stored)\<^sup>*\<^sup>* (no_instance []) cl \<and>
    cl_nodes cl = [v, w] \<and> one_answer ws tx resp v \<and> one_answer ws' tx resp' w \<and>
    answers u ws StrategyDetect tx resp'"
proof -
  obtain ac where ac: "NewAhoCorasick u ord [] = Some ac" using acm.build_total [OF assms] by blast
  then obtain e0 where e0: "NewACFilterEngine u ord = Some e0" by (simp add: NewACFilterEngine_def)
  obtain e e' where e: "Rebuild u ord e0 ws = Some e" "Rebuild u ord e0 ws' = Some e'"
    using eng.rebuild_total [OF assms] by meson
  have v: "Version e' = Version e" using eng.rebuild_version [OF e(1)] eng.rebuild_version [OF e(2)] by simp
  obtain resp s c where f: "Filter u map_client (codec_for resp) sample_clock (service_with e (new_cache []))
      \<lparr>rq_Text = tx, rq_Strategy = []\<rparr> = Some (Inr resp, s)" "fa_cache s = Some c"
    "ml_redis c = map_put (filterCacheKey tx StrategyDetect (Version e)) ''{}'' []" "answers u ws StrategyDetect tx resp"
    using first_request [OF eng.rebuild_holds [OF assms e(1)], of "[]" tx] by auto
  let ?cl0 = "no_instance ([] :: (gostring, bytes) gomap)"
  obtain a where a: "one_answer ws tx resp a" "(cluster_step u map_client (codec_for resp) stored)\<^sup>*\<^sup>* ?cl0
      \<lparr>cl_redis = ml_redis c, cl_nodes = [a]\<rparr>"
    using instance_run [OF assms e0 e(1), of "codec_for resp" ?cl0 tx resp s c stored] f(1,2) by (auto simp: no_instance_def)
  let ?cl1 = "\<lparr>cl_redis = ml_redis c, cl_nodes = [a]\<rparr>"
  obtain s' where s': "Filter u map_client (codec_for resp) sample_clock (service_with e' (new_cache (ml_redis c)))
      \<lparr>rq_Text = tx, rq_Strategy = []\<rparr> = Some (Inr (resp\<lparr>rp_CostMs := 0\<rparr>), s')"
    using later_request [of "ml_redis c" tx e' u resp] f(3) v by auto
  obtain c' where c': "fa_cache s' = Some c'"
    using Filter_is_a_run [OF s', of "initial_world e' (Some (new_cache (ml_redis c)))"]
      world_steps_keep_cache [of u map_client "codec_for resp" "initial_world e' (Some (new_cache (ml_redis c)))"]
    by (fastforce simp: initial_world_def service_with_def)
  obtain b where b: "one_answer ws' tx (resp\<lparr>rp_CostMs := 0\<rparr>) b" "(cluster_step u map_client (codec_for resp) stored)\<^sup>*\<^sup>* ?cl1
      \<lparr>cl_redis = ml_redis c', cl_nodes = [a, b]\<rparr>"
    using instance_run [OF assms e0 e(2), of "codec_for resp" ?cl1 tx "resp\<lparr>rp_CostMs := 0\<rparr>" s' c' stored] s' c' by auto
  have "(cluster_step u map_client (codec_for resp) stored)\<^sup>*\<^sup>* ?cl0 \<lparr>cl_redis = ml_redis c', cl_nodes = [a, b]\<rparr>"
    using a(2) b(2) by (rule rtranclp_trans)
  moreover have "answers u ws StrategyDetect tx (resp\<lparr>rp_CostMs := 0\<rparr>)" using f(4) by simp
  ultimately show ?thesis using a(1) b(1) codec_for_ok by (metis cluster.select_convs(2))
qed

text \<open>The word is gone from the list of the second instance, and its verdict is still the first one's.\<close>

theorem cluster_answers_are_known_witness:
  "\<exists>js cl v w resp. (cluster_step ascii_data map_client js (\<lambda>r k v. map_of r k = Some v))\<^sup>*\<^sup>* (no_instance []) cl \<and>
    cl_nodes cl = [v, w] \<and> w_lists w = [[], []] \<and> (''a bad text'', StrategyDetect, 1, resp) \<in> set (w_answered w) \<and>
    rp_IsHit resp"
proof -
  let ?ws = "[sample_word ''bad'' WordStatusActive]" and ?tx = "''a bad text''"
  have o: "\<forall>a. iteration_order ((\<lambda>(_::addr) xs. xs) a)" by simp
  obtain js cl v w resp resp' where r: "codec_ok js"
    "(cluster_step ascii_data map_client js (\<lambda>r k v. map_of r k = Some v))\<^sup>*\<^sup>* (no_instance []) cl" "cl_nodes cl = [v, w]"
    "one_answer ?ws ?tx resp v" "one_answer [] ?tx resp' w" "answers ascii_data ?ws StrategyDetect ?tx resp'"
    using later_instance_serves_older_verdict [OF o] by metis
  have "IsActive (sample_word ''bad'' WordStatusActive)"
    "occurs_at (word_pattern ascii_data (sample_word ''bad'' WordStatusActive))
       (runes_of (Normalize ascii_data ?tx)) 2" by code_simp+
  then have "rp_IsHit resp'" using answers_verdict [OF r(6)] by auto
  have fit: "counts_fit cl" "w \<in> set (cl_nodes cl)" "(?tx, StrategyDetect, 1, resp') \<in> set (w_answered w)"
    using r(3-5) by (simp_all add: counts_fit_def one_answer_def)
  have "\<forall>k v. \<not> map_of ([] :: (gostring, bytes) gomap) k = Some v" by simp
  from cluster_answers_are_known [OF map_client_faithful r(1) this r(2) fit]
  obtain w' g where "w' \<in> set (cl_nodes cl)" "1 \<le> g" "g < length (w_lists w')"
    "rp_IsHit resp' \<longleftrightarrow> (\<exists>v \<in> set (w_lists w' ! g). IsActive v \<and>
       (\<exists>pos. occurs_at (word_pattern ascii_data v) (runes_of (Normalize ascii_data (rp_Original resp'))) pos))"
    by metis
  with \<open>rp_IsHit resp'\<close> r(2,3,5) fit(3) show ?thesis unfolding one_answer_def by blast
qed

end
