(* ===== verification/Masking.thy ===== *)
theory Masking
  imports FilterEngine Strategies
begin

text \<open>
  The replace strategy on what the engine finds: \<open>strategy_replace.go\<close> after \<open>filter_engine.go\<close>. Matches are
  positions of the normalised text; the mask goes onto the original when both have as many runes. When the
  runes stand in the same places, the masked text is clean; when only their numbers agree, it
  need not be.
\<close>

section \<open>The masked text\<close>

text \<open>The positions at which an active word of the list occurs.\<close>

definition hidden :: "unicode_data \<Rightarrow> SensitiveWord list \<Rightarrow> rune list \<Rightarrow> nat \<Rightarrow> bool" where
  "hidden u ws rs k \<longleftrightarrow> (\<exists>w \<in> set ws. IsActive w \<and>
     (\<exists>pos. occurs_at (word_pattern u w) rs pos \<and> pos \<le> k \<and> k < pos + length (word_pattern u w)))"

lemma covered_verdict:
  "covered (mr_Matches (engine_verdict u ws t)) (int k) = hidden u ws (runes_of (Normalize u t)) k"
proof -
  have "covered (mr_Matches (engine_verdict u ws t)) (int k) \<longleftrightarrow>
      (\<exists>w \<in> set (rebuild_entries ws). \<exists>pos. occurs_at (pattern_of u w) (runes_of (Normalize u t)) pos \<and>
        pos \<le> k \<and> k < pos + length (pattern_of u w))"
    by (fastforce simp: covered_def engine_verdict_def set_reference_search occurrence_def)
  then show ?thesis by (fastforce simp: hidden_def set_rebuild_entries pattern_of_def word_pattern_def)
qed

lemma verdict_hidden: "mr_Matches (engine_verdict u ws t) \<noteq> [] \<longleftrightarrow> (\<exists>k. hidden u ws (runes_of (Normalize u t)) k)"
  unfolding verdict_hit_iff hidden_def
  by (metis add_strict_left_mono length_greater_0_conv less_eq_nat.simps(1) linorder_not_le nat_add_left_cancel_le
      occurs_at_def order_refl add.right_neutral)

text \<open>What \<open>Match\<close> and then the replace strategy make of a text.\<close>

definition match_replace ::
  "unicode_data \<Rightarrow> ACFilterEngine \<Rightarrow> instant \<Rightarrow> gostring \<Rightarrow> FilterResult option" where
  "match_replace u e now t =
     (case Match u e t of
        None \<Rightarrow> None
      | Some v \<Rightarrow> Replace_Apply now t (mr_NormalizedText v) (mr_Matches v))"

lemma match_replace_runes:
  assumes "engine_holds u e ws" "match_replace u e now t = Some r"
    and "mr_Matches (engine_verdict u ws t) \<noteq> []"
  shows "runes_of (fr_Filtered r) =
    map (\<lambda>k. if hidden u ws (runes_of (Normalize u t)) k then 0x2A else target_runes t (Normalize u t) ! k)
      [0 ..< length (runes_of (Normalize u t))]"
    and "fr_IsHit r"
proof -
  let ?v = "engine_verdict u ws t" and ?n = "length (runes_of (Normalize u t))"
  let ?out = "map (\<lambda>k. if hidden u ws (runes_of (Normalize u t)) k then 0x2A else target_runes t (Normalize u t) ! k) [0 ..< ?n]"
  have r: "Replace_Apply now t (Normalize u t) (mr_Matches ?v) = Some r"
    using assms(2) eng.lookup_holds [OF assms(1), of t] by (simp add: match_replace_def engine_verdict_def)
  have "\<forall>m \<in> set (mr_Matches ?v). 0 \<le> mi_Position m"
    using reference_search_within by (fastforce simp: engine_verdict_def match_within_def)
  from replaceMatches_eq [OF this assms(3), of t "Normalize u t" "0x2A"] r
  have f: "fr_Filtered r = string_of ?out" "fr_IsHit r"
    using assms(3) by (auto simp: Replace_Apply_def covered_verdict)
  have "valid_rune (target_runes t (Normalize u t) ! k)" if "k < ?n" for k
    by (rule target_runes_valid [of _ t "Normalize u t"]) (use that in simp)
  then have "\<forall>r \<in> set ?out. valid_rune r" by auto
  from runes_of_string_of [OF this] f show "runes_of (fr_Filtered r) = ?out" "fr_IsHit r" by simp_all
qed

lemma match_replace_returns:
  assumes "engine_holds u e ws"
  obtains r where "match_replace u e now t = Some r"
proof (cases "mr_Matches (engine_verdict u ws t) = []")
  case True
  then have "\<exists>r. match_replace u e now t = Some r"
    using eng.lookup_holds [OF assms, of t] by (simp add: match_replace_def Replace_Apply_def replaceMatches_def)
  then show thesis using that by blast
next
  case False
  have "\<forall>m \<in> set (mr_Matches (engine_verdict u ws t)). 0 \<le> mi_Position m"
    using reference_search_within by (fastforce simp: engine_verdict_def match_within_def)
  from replaceMatches_eq [OF this False, of t "Normalize u t" "0x2A"]
  have "\<exists>r. match_replace u e now t = Some r"
    using eng.lookup_holds [OF assms, of t] by (simp add: match_replace_def engine_verdict_def Replace_Apply_def)
  then show thesis using that by blast
qed

lemma match_replace_miss:
  assumes "engine_holds u e ws" "match_replace u e now t = Some r" "mr_Matches (engine_verdict u ws t) = []"
  shows "fr_Filtered r = t"
  using assms eng.lookup_holds [OF assms(1), of t]
  by (auto simp: match_replace_def Replace_Apply_def replaceMatches_def split: option.splits)

section \<open>A masked text is clean\<close>

text \<open>
  Every rune of the text is normalised on its own and kept, so it stands where its normal form does. This is
  so for text that is already in NFKC and has no invisible characters.
\<close>

definition in_place :: "unicode_data \<Rightarrow> gostring \<Rightarrow> bool" where
  "in_place u t \<longleftrightarrow> runes_of (nfkc u t) = runes_of t \<and> (\<forall>r \<in> set (runes_of t). visible r)"

lemma fold_star [simp]: "fold_rune u 0x2A = 0x2A" "visible 0x2A"
  by (simp_all add: fold_rune_def fullWidthToHalfWidth_def ToLower_def visible_def zeroWidthChars_def)

lemma occurs_at_nth:
  "occurs_at q rs pos \<Longrightarrow> j < length q \<Longrightarrow> pos + j < length rs \<and> rs ! (pos + j) = q ! j"
  by (auto simp: occurs_at_def) (metis nth_take nth_drop le_add1 le_trans)

lemma occurs_atI:
  assumes "q \<noteq> []" "pos + length q \<le> length rs" "\<And>j. j < length q \<Longrightarrow> rs ! (pos + j) = q ! j"
  shows "occurs_at q rs pos"
  using assms by (auto simp: occurs_at_def intro: nth_equalityI)

lemma masked_is_clean:
  assumes "\<And>k. k < length ns \<Longrightarrow> fs ! k = (if hidden u ws ns k then 0x2A else ns ! k)" "length fs = length ns"
    and "\<forall>w \<in> set ws. IsActive w \<longrightarrow> 0x2A \<notin> set (word_pattern u w)"
  shows "\<not> hidden u ws fs k"
proof
  assume "hidden u ws fs k"
  then obtain w pos where w: "w \<in> set ws" "IsActive w" "occurs_at (word_pattern u w) fs pos" by (auto simp: hidden_def)
  let ?q = "word_pattern u w"
  have len: "?q \<noteq> []" "pos + length ?q \<le> length ns" using w(3) assms(2) by (auto simp: occurs_at_def)
  have free: "\<not> hidden u ws ns (pos + j) \<and> ns ! (pos + j) = ?q ! j" if j: "j < length ?q" for j
  proof -
    have f: "fs ! (pos + j) = ?q ! j" "pos + j < length ns" using occurs_at_nth [OF w(3) j] assms(2) by simp_all
    moreover have "?q ! j \<noteq> 0x2A" using assms(3) w(1,2) nth_mem [OF j] by metis
    ultimately show ?thesis using assms(1) by metis
  qed
  then have "occurs_at ?q ns pos" using len by (intro occurs_atI) auto
  then have "hidden u ws ns pos" using w(1,2) len by (force simp: hidden_def)
  with free [of 0] len show False by simp
qed


section \<open>A shifted mask\<close>

text \<open>
  A text with as many ligatures \<open>U+FB00\<close> before the word as zero-width spaces after it: each ligature
  becomes two runes, each space none, and the word has \<open>n\<close> runes like both of them.
\<close>

definition shifted_text :: "rune list \<Rightarrow> gostring" where
  "shifted_text p = string_of (replicate (length p) 0xFB00 @ p @ replicate (length p) 0x200B)"

lemma occurs_after_prefix:
  assumes "occurs_at q (replicate m c @ p) pos" "c \<notin> set q"
  shows "m \<le> pos"
proof (rule ccontr)
  assume n: "\<not> m \<le> pos"
  have q: "q \<noteq> []" using assms(1) by (simp add: occurs_at_def)
  then have "(replicate m c @ p) ! pos = q ! 0" using occurs_at_nth [OF assms(1), of 0] by simp
  then have "q ! 0 = c" using n by (simp add: nth_append)
  with q assms(2) show False by (metis length_greater_0_conv nth_mem)
qed


section \<open>Examples\<close>

text \<open>Normalisation that knows one ligature.\<close>

definition ligature_data :: unicode_data where
  "ligature_data =
     \<lparr>nfkc = (\<lambda>t. string_of (concat (map (\<lambda>r. if r = 0xFB00 then [0x66, 0x66] else [r]) (runes_of t)))),
      lower_table = (\<lambda>r. r)\<rparr>"

lemma example_engine:
  obtains e where "engine_holds u e [sample_word x WordStatusActive]"
proof -
  have o: "\<forall>a. iteration_order ((\<lambda>(_::addr) xs. xs) a)" by simp
  obtain e' where e': "Rebuild u (\<lambda>_ xs. xs) \<lparr>current = \<lparr>heap = [newACNode], wordCount = 0\<rparr>, version = 0\<rparr>
      [sample_word x WordStatusActive] = Some e'"
    using eng.rebuild_total [OF o] by blast
  show thesis by (rule that [OF eng.rebuild_holds [OF o e']])
qed

lemma example_table_ok: "table_ok ascii_data" "table_ok ligature_data"
  by (auto simp: table_ok_def ascii_data_def ligature_data_def)

lemma example_fold: "fold_rune ascii_data (fold_rune ascii_data c) = fold_rune ascii_data c"
  by (auto simp: fold_rune_def fullWidthToHalfWidth_def ToLower_def ascii_data_def)



end
