(* ===== verification/WordRaces.thy ===== *)
theory WordRaces
  imports WordService
begin

text \<open>
  Requests of \<open>word_app_service.go\<close> that run at the same time. A request reads the table, then
  writes it, then invalidates the cache, and nothing locks the row in between: here every call of
  the repository is a step of its own, and any number of requests take their steps in any order.
\<close>

section \<open>Requests in their steps\<close>

datatype word_call =
    CreateCall CreateWordRequest
  | UpdateCall "64 word" UpdateWordRequest
  | DeleteCall "64 word"
  | ImportCall ImportRequest

datatype outcome =
    Answered "WordResponse result"
  | Deleted "error option"
  | Imported "ImportResponse result"

text \<open>
  How far a request is: what the code holds in its variables before its next call. \<open>Saving\<close> also
  carries the request and the word as it was read, for the statements.
\<close>

datatype progress =
    Waiting word_call
  | Creating SensitiveWord
  | Saving UpdateWordRequest SensitiveWord SensitiveWord
  | Deleting "64 word"
  | Invalidating outcome
  | Finished outcome

text \<open>The first call of each request, with what the code decides before and after it.\<close>

definition Create_lookup :: "('d, 'r) word_deps \<Rightarrow> CreateWordRequest \<Rightarrow> 'd \<Rightarrow> progress" where
  "Create_lookup dp req d =
     (let wd = CreateDTOToEntity (dp_unicode dp) req in
      case Validate wd of
        Some err \<Rightarrow> Finished (Answered (Inl (BizErr (Wrap ErrInvalidRequest (error_text err)))))
      | None \<Rightarrow>
          (case FindByText (dp_gorm dp) (sw_Text wd) d of
             Inr existing \<Rightarrow> Finished (Answered (Inl (BizErr ErrWordAlreadyExists)))
           | Inl _ \<Rightarrow> Creating wd))"

definition Update_lookup :: "('d, 'r) word_deps \<Rightarrow> 64 word \<Rightarrow> UpdateWordRequest \<Rightarrow> 'd \<Rightarrow> progress" where
  "Update_lookup dp i req d =
     (case FindByID (dp_gorm dp) i d of
        Inl err \<Rightarrow> Finished (Answered (Inl (not_found err)))
      | Inr w0 \<Rightarrow>
          (case apply_update (dp_unicode dp) req w0 of
             Inl err \<Rightarrow> Finished (Answered (Inl err))
           | Inr wd \<Rightarrow>
               (case Validate wd of
                  Some err \<Rightarrow> Finished (Answered (Inl (BizErr (Wrap ErrInvalidRequest (error_text err)))))
                | None \<Rightarrow> Saving req w0 wd)))"

definition Delete_lookup :: "('d, 'r) word_deps \<Rightarrow> 64 word \<Rightarrow> 'd \<Rightarrow> progress" where
  "Delete_lookup dp i d =
     (case FindByID (dp_gorm dp) i d of
        Inl err \<Rightarrow> Finished (Deleted (Some (not_found err)))
      | Inr _ \<Rightarrow> Deleting i)"

definition Import_write :: "('d, 'r) word_deps \<Rightarrow> ImportRequest \<Rightarrow> 'd \<Rightarrow> progress \<times> 'd" where
  "Import_write dp req d =
     (let (wds, failures) = import_loop (dp_unicode dp) 0 (im_Words req) in
      case BatchCreate (dp_gorm dp) wds d of
        (Inl err, d') \<Rightarrow> (Finished (Imported (Inl (BizErr (Wrap ErrImportFailed (error_text err))))), d')
      | (Inr imported, d') \<Rightarrow>
          (Invalidating (Imported (Inr \<lparr>ir_Total = int (length (im_Words req)), ir_Imported = imported,
             ir_Skipped = int (length failures), ir_Failures = failures\<rparr>)), d'))"

fun advance ::
  "('d, 'r) word_deps \<Rightarrow> progress \<Rightarrow> ('d, 'r) word_state \<Rightarrow> (progress \<times> ('d, 'r) word_state) option" where
  "advance dp (Waiting (CreateCall req)) s = Some (Create_lookup dp req (st_db s), s)"
| "advance dp (Waiting (UpdateCall i req)) s = Some (Update_lookup dp i req (st_db s), s)"
| "advance dp (Waiting (DeleteCall i)) s = Some (Delete_lookup dp i (st_db s), s)"
| "advance dp (Waiting (ImportCall req)) s =
     (let (p, d') = Import_write dp req (st_db s) in Some (p, s\<lparr>st_db := d'\<rparr>))"
| "advance dp (Creating wd) s =
     (case Repo_Create (dp_gorm dp) wd (st_db s) of
        (Inl err, d') \<Rightarrow> Some (Finished (Answered (Inl err)), s\<lparr>st_db := d'\<rparr>)
      | (Inr wd', d') \<Rightarrow> Some (Invalidating (Answered (Inr (EntityToDTO wd'))), s\<lparr>st_db := d'\<rparr>))"
| "advance dp (Saving req w0 wd) s =
     (case Repo_Update (dp_gorm dp) wd (st_db s) of
        (Some err, d') \<Rightarrow> Some (Finished (Answered (Inl err)), s\<lparr>st_db := d'\<rparr>)
      | (None, d') \<Rightarrow> Some (Invalidating (Answered (Inr (EntityToDTO wd))), s\<lparr>st_db := d'\<rparr>))"
| "advance dp (Deleting i) s =
     (case Repo_Delete (dp_gorm dp) i (st_db s) of
        (Some err, d') \<Rightarrow> Some (Finished (Deleted (Some err)), s\<lparr>st_db := d'\<rparr>)
      | (None, d') \<Rightarrow> Some (Invalidating (Deleted None), s\<lparr>st_db := d'\<rparr>))"
| "advance dp (Invalidating x) s = map_option (\<lambda>s'. (Finished x, s')) (invalidatePrefix dp ''words:'' s)"
| "advance dp (Finished x) s = None"

text \<open>A request alone: at most \<open>n\<close> steps, ending early where it is finished.\<close>

fun alone ::
  "('d, 'r) word_deps \<Rightarrow> nat \<Rightarrow> progress \<Rightarrow> ('d, 'r) word_state \<Rightarrow> (progress \<times> ('d, 'r) word_state) option" where
  "alone dp n (Finished x) s = Some (Finished x, s)"
| "alone dp 0 p s = Some (p, s)"
| "alone dp (Suc n) p s = (case advance dp p s of None \<Rightarrow> None | Some (p', s') \<Rightarrow> alone dp n p' s')"

definition whole_request ::
  "('d, 'r) word_deps \<Rightarrow> word_call \<Rightarrow> ('d, 'r) word_state \<Rightarrow> (progress \<times> ('d, 'r) word_state) option" where
  "whole_request dp c s =
     (case c of
        CreateCall req \<Rightarrow> map_option (\<lambda>(x, s'). (Finished (Answered x), s')) (Word_Create dp req s)
      | UpdateCall i req \<Rightarrow> map_option (\<lambda>(x, s'). (Finished (Answered x), s')) (Word_Update dp i req s)
      | DeleteCall i \<Rightarrow> map_option (\<lambda>(x, s'). (Finished (Deleted x), s')) (Word_Delete dp i s)
      | ImportCall req \<Rightarrow> map_option (\<lambda>(x, s'). (Finished (Imported x), s')) (Word_Import dp req s))"

lemma then_invalidate_alone:
  "map_option (\<lambda>(x, s'). (Finished (f x), s')) (then_invalidate dp ''words:'' x s) =
   map_option (\<lambda>s'. (Finished (f x), s')) (invalidatePrefix dp ''words:'' s)"
  by (simp add: then_invalidate_def option.map_comp comp_def)

lemma alone_invalidating:
  "alone dp (Suc n) (Invalidating x) s = map_option (\<lambda>s'. (Finished x, s')) (invalidatePrefix dp ''words:'' s)"
  by (simp split: option.splits)

lemmas steps_defs = Create_lookup_def Update_lookup_def Delete_lookup_def Import_write_def
  Word_Create_def Word_Update_def Word_Delete_def Word_Import_def whole_request_def then_invalidate_alone

text \<open>Three steps are a whole request: the steps are those of the code.\<close>

lemma steps_are_the_request: "alone dp 3 (Waiting c) s = whole_request dp c s"
  by (cases c) (simp_all add: numeral_3_eq_3 alone_invalidating steps_defs Let_def
      split: option.splits sum.splits prod.splits)

lemma write_steps:
  "FindByID (dp_gorm dp) (sw_ID w0) (st_db s) = Inr w0 \<Longrightarrow> apply_update (dp_unicode dp) req w0 = Inr wd \<Longrightarrow>
     Validate wd = None \<Longrightarrow> alone dp 2 (Saving req w0 wd) s = whole_request dp (UpdateCall (sw_ID w0) req) s"
  "FindByID (dp_gorm dp) i (st_db s) = Inr w \<Longrightarrow>
     alone dp 2 (Deleting i) s = whole_request dp (DeleteCall i) s"
  by (simp_all add: steps_are_the_request [symmetric] numeral_3_eq_3 numeral_2_eq_2 Update_lookup_def Delete_lookup_def)

section \<open>Any number of requests\<close>

text \<open>A request arrives, or some request takes its next step.\<close>

inductive race ::
  "('d, 'r) word_deps \<Rightarrow> progress list \<times> ('d, 'r) word_state \<Rightarrow> progress list \<times> ('d, 'r) word_state \<Rightarrow> bool"
  for dp where
  arrive: "race dp (ps, s) (ps @ [Waiting c], s)"
| move: "i < length ps \<Longrightarrow> advance dp (ps ! i) s = Some (p, s') \<Longrightarrow> race dp (ps, s) (ps[i := p], s')"

section \<open>The table stays valid\<close>

definition progress_valid :: "unicode_data \<Rightarrow> progress \<Rightarrow> bool" where
  "progress_valid u p \<longleftrightarrow>
     (case p of
        Creating wd \<Rightarrow> row_valid u (FromEntity wd)
      | Saving req w0 wd \<Rightarrow> row_valid u (FromEntity wd) \<and> Validate wd = None \<and>
          apply_update u req w0 = Inr wd
      | _ \<Rightarrow> True)"

lemma progress_valid_simps [simp]:
  "progress_valid u (Waiting c)" "progress_valid u (Deleting i)" "progress_valid u (Invalidating x)"
  "progress_valid u (Finished x)" "progress_valid u (Creating wd) = row_valid u (FromEntity wd)"
  "progress_valid u (Saving req w0 wd) =
     (row_valid u (FromEntity wd) \<and> Validate wd = None \<and> apply_update u req w0 = Inr wd)"
  by (simp_all add: progress_valid_def)

lemma lookups_valid:
  "progress_valid (dp_unicode dp) (Create_lookup dp req d)"
  "progress_valid u (Delete_lookup dp i d)"
  by (auto simp: Create_lookup_def Delete_lookup_def Let_def row_valid_created split: option.splits sum.splits)

lemma updated_row_valid:
  assumes "row_valid u (FromEntity w0)" "apply_update u req w0 = Inr wd" "Validate wd = None"
  shows "row_valid u (FromEntity wd)"
  using assms apply_update_keeps [OF assms(2)]
  by (auto simp: row_valid_def) (auto simp: FromEntity_def)

lemma Update_lookup_valid:
  assumes "read_ok (dp_gorm dp) like rows" "table_valid (dp_unicode dp) (rows d)"
  shows "progress_valid (dp_unicode dp) (Update_lookup dp i req d)"
  using assms FindByID_ok(1) [OF assms(1)]
  by (auto simp: Update_lookup_def table_valid_def intro: updated_row_valid split: sum.splits option.splits)

text \<open>What a step does to the rows.\<close>

lemma advance_rows:
  assumes "write_ok (dp_gorm dp) rows" "progress_valid (dp_unicode dp) p" "advance dp p s = Some (p', s')"
  obtains new where "rows (st_db s') = rows (st_db s) @ new" "fresh_rows (dp_unicode dp) (rows (st_db s)) new"
  | req w0 wd t where "p = Saving req w0 wd"
      "rows (st_db s') = saved ((FromEntity wd)\<lparr>md_UpdatedAt := t\<rparr>) (rows (st_db s))"
  | i where "p = Deleting i" "rows (st_db s') = filter (\<lambda>m. md_ID m \<noteq> i) (rows (st_db s))"
proof -
  note W = write_okD [OF assms(1)] and added = that(1)
  have same: thesis if "rows (st_db s') = rows (st_db s)"
    by (rule added [of "[]"]) (simp_all add: that fresh_rows_def)
  show thesis
  proof (cases p)
    case (Waiting c)
    show thesis
    proof (cases c)
      case (ImportCall req)
      obtain wds fs where l: "import_loop (dp_unicode dp) 0 (im_Words req) = (wds, fs)" by force
      obtain y d' where b: "BatchCreate (dp_gorm dp) wds (st_db s) = (y, d')" by force
      have s': "st_db s' = d'"
        using assms(3) Waiting ImportCall l b by (auto simp: Import_write_def split: sum.splits prod.splits)
      show thesis
      proof (cases "wds = []")
        case True
        with b s' same show thesis by (simp add: BatchCreate_def)
      next
        case False
        then have b': "g_create_batches (dp_gorm dp) (map FromEntity wds) 500 (st_db s) = (y, st_db s')"
          using b s' by (simp add: BatchCreate_def)
        show thesis
        proof (cases y)
          case (Inl e)
          with W(7) b' same show thesis by metis
        next
          case (Inr n)
          with b' show thesis by (auto elim: rows_of_import [OF assms(1) l] intro: that(1))
        qed
      qed
    qed (use assms(3) Waiting in \<open>auto intro: same\<close>)
  next
    case (Creating wd)
    obtain y d' where c: "g_create (dp_gorm dp) (FromEntity wd) (st_db s) = (y, d')" by force
    show thesis
    proof (cases y)
      case (Inl e)
      with c Creating assms(3) W(1) [of "FromEntity wd" "st_db s" e d'] show thesis
        by (intro same) (auto simp: Repo_Create_def)
    next
      case (Inr m)
      with c have m: "filled (FromEntity wd) m" "md_ID m \<notin> row_ids (rows (st_db s))" "rows d' = rows (st_db s) @ [m]"
        using W(2) by blast+
      then have "fresh_rows (dp_unicode dp) (rows (st_db s)) [m]"
        using assms(2) Creating row_valid_filled by (simp add: fresh_rows_def)
      with m(3) c Inr Creating assms(3) show thesis by (intro that(1)) (auto simp: Repo_Create_def)
    qed
  next
    case (Saving req w0 wd)
    obtain y d' where c: "g_save (dp_gorm dp) (FromEntity wd) (st_db s) = (y, d')" by force
    show thesis
    proof (cases y)
      case (Some e)
      with c Saving assms(3) W(3) [of "FromEntity wd" "st_db s" e d'] show thesis
        by (intro same) (auto simp: Repo_Update_def)
    next
      case None
      with c obtain t where "rows d' = saved ((FromEntity wd)\<lparr>md_UpdatedAt := t\<rparr>) (rows (st_db s))"
        using W(4) by blast
      with c None Saving assms(3) show thesis by (intro that(2)) (auto simp: Repo_Update_def)
    qed
  next
    case (Deleting i)
    obtain y d' where c: "g_delete (dp_gorm dp) i (st_db s) = (y, d')" by force
    show thesis
    proof (cases y)
      case (Some e)
      with c Deleting assms(3) W(5) [of i "st_db s" e d'] show thesis
        by (intro same) (auto simp: Repo_Delete_def)
    next
      case None
      with c Deleting assms(3) W(6) [of i "st_db s" d'] show thesis
        by (intro that(3)) (auto simp: Repo_Delete_def)
    qed
  next
    case (Invalidating x)
    with assms(3) show thesis
      by (intro same) (auto simp: invalidatePrefix_def split: option.splits prod.splits)
  qed (use assms(3) in simp)
qed

lemma advance_progress:
  assumes "read_ok (dp_gorm dp) like rows" "table_valid (dp_unicode dp) (rows (st_db s))"
    and "progress_valid (dp_unicode dp) p" "advance dp p s = Some (p', s')"
  shows "progress_valid (dp_unicode dp) p'"
  using assms(3,4) lookups_valid Update_lookup_valid [OF assms(1,2)]
  by (cases "(dp, p, s)" rule: advance.cases)
    (auto simp: Import_write_def split: sum.splits option.splits prod.splits)

definition race_valid ::
  "('d, 'r) word_deps \<Rightarrow> ('d \<Rightarrow> SensitiveWordModel list) \<Rightarrow> progress list \<times> ('d, 'r) word_state \<Rightarrow> bool" where
  "race_valid dp rows x \<longleftrightarrow> (\<forall>p \<in> set (fst x). progress_valid (dp_unicode dp) p) \<and>
     table_valid (dp_unicode dp) (rows (st_db (snd x)))"

lemma race_step_valid:
  assumes "write_ok (dp_gorm dp) rows" "read_ok (dp_gorm dp) like rows"
    and "race dp x y" "race_valid dp rows x"
  shows "race_valid dp rows y"
  using assms(3,4)
proof (induction rule: race.induct)
  case (arrive ps s c)
  then show ?case by (auto simp: race_valid_def)
next
  case (move i ps s p s')
  let ?u = "dp_unicode dp"
  have ok: "progress_valid ?u (ps ! i)" "table_valid ?u (rows (st_db s))"
    using move by (simp_all add: race_valid_def)
  have "table_valid ?u (rows (st_db s'))"
    using assms(1) ok(1) move(2)
  proof (cases rule: advance_rows)
    case (1 new)
    with ok(2) table_valid_fresh show ?thesis by simp
  next
    case (2 req w0 wd t)
    with ok table_valid_saved show ?thesis by simp
  next
    case (3 k)
    with ok(2) table_valid_filter show ?thesis by simp
  qed
  moreover have "progress_valid ?u p" by (rule advance_progress [OF assms(2) ok(2,1) move(2)])
  ultimately show ?case
    using move(3) set_update_subset_insert [of ps i p] by (auto simp: race_valid_def)
qed

lemma race_run_valid:
  assumes "write_ok (dp_gorm dp) rows" "read_ok (dp_gorm dp) like rows"
    and "(race dp)\<^sup>*\<^sup>* x y" "race_valid dp rows x"
  shows "race_valid dp rows y"
  using assms(3,4) by induction (auto intro: race_step_valid [OF assms(1,2)])

text \<open>
  Claim C25. Concurrent requests cannot break the table: however the calls of any number of creations,
  updates, deletions and imports interleave, and whichever of them fail, every row stays a valid
  word in normal form and no two rows get the same id.
\<close>

theorem races_keep_the_table_valid:
  assumes "write_ok (dp_gorm dp) rows" and "read_ok (dp_gorm dp) like rows"
    and "(race dp)\<^sup>*\<^sup>* (map Waiting cs, s) (ps, s')" and "table_valid (dp_unicode dp) (rows (st_db s))"
  shows "table_valid (dp_unicode dp) (rows (st_db s'))"
proof -
  have "race_valid dp rows (map Waiting cs, s)" using assms(4) by (auto simp: race_valid_def)
  from race_run_valid [OF assms(1-3) this] show ?thesis by (simp add: race_valid_def)
qed

section \<open>Requests on different words\<close>

text \<open>The row a request is about; creations and imports only add rows.\<close>

fun addressed :: "progress \<Rightarrow> 64 word option" where
  "addressed (Waiting (UpdateCall i req)) = Some i"
| "addressed (Waiting (DeleteCall i)) = Some i"
| "addressed (Saving req w0 wd) = Some (sw_ID w0)"
| "addressed (Deleting i) = Some i"
| "addressed p = None"

definition apart :: "progress list \<Rightarrow> bool" where
  "apart ps \<longleftrightarrow> (\<forall>i < length ps. \<forall>j < length ps.
     i \<noteq> j \<longrightarrow> addressed (ps ! i) = None \<or> addressed (ps ! i) \<noteq> addressed (ps ! j))"

text \<open>What a request has read of the row it will write still holds.\<close>

definition up_to_date :: "SensitiveWordModel list \<Rightarrow> progress \<Rightarrow> bool" where
  "up_to_date rs p \<longleftrightarrow>
     (case p of
        Saving req w0 wd \<Rightarrow> FromEntity w0 \<in> set rs
      | Deleting i \<Rightarrow> i \<in> row_ids rs
      | _ \<Rightarrow> True)"

lemma up_to_date_other:
  assumes "write_ok (dp_gorm dp) rows" "progress_valid (dp_unicode dp) p" "advance dp p s = Some (p', s')"
    and "up_to_date (rows (st_db s)) q" "addressed q = None \<or> addressed q \<noteq> addressed p"
  shows "up_to_date (rows (st_db s')) q"
  using assms(1-3)
proof (cases rule: advance_rows)
  case (1 new)
  with assms(4) show ?thesis by (auto simp: up_to_date_def row_ids_def split: progress.splits)
next
  case (2 req w0 wd t)
  let ?m = "(FromEntity wd)\<lparr>md_UpdatedAt := t\<rparr>"
  have i: "sw_ID wd = sw_ID w0" using assms(2) 2(1) apply_update_keeps by auto
  have other: "m \<in> set (rows (st_db s'))" if "m \<in> set (rows (st_db s))" "md_ID m \<noteq> sw_ID w0" for m
    using that by (auto simp: 2(2) saved_def i)
  show ?thesis
    using assms(4,5) other 2(1)
    by (auto simp: up_to_date_def row_ids_def image_iff split: progress.splits)
next
  case (3 i)
  with assms(4,5) show ?thesis
    by (auto simp: up_to_date_def row_ids_def image_iff split: progress.splits)
qed

lemma up_to_date_self:
  assumes "read_ok (dp_gorm dp) like rows" "advance dp p s = Some (p', s')"
  shows "up_to_date (rows (st_db s')) p' \<and> (addressed p' = None \<or> addressed p' = addressed p)"
proof -
  have found: "i \<in> row_ids (rows d)" if "FindByID (dp_gorm dp) i d = Inr w" for i d w
    using FindByID_ok(1) [OF assms(1) that] by (force simp: row_ids_def)
  show ?thesis
    using assms(2) FindByID_ok(1) [OF assms(1)] found
    by (cases "(dp, p, s)" rule: advance.cases)
      (auto simp: up_to_date_def Create_lookup_def Update_lookup_def Delete_lookup_def Import_write_def Let_def
        split: sum.splits option.splits prod.splits)
qed

definition race_apart ::
  "('d, 'r) word_deps \<Rightarrow> progress list \<times> ('d, 'r) word_state \<Rightarrow> progress list \<times> ('d, 'r) word_state \<Rightarrow> bool" where
  "race_apart dp x y \<longleftrightarrow> race dp x y \<and> apart (fst x) \<and> apart (fst y)"

lemma race_apart_up_to_date:
  assumes "write_ok (dp_gorm dp) rows" "read_ok (dp_gorm dp) like rows"
    and "race_apart dp x y" "race_valid dp rows x"
    and "\<forall>p \<in> set (fst x). up_to_date (rows (st_db (snd x))) p"
  shows "\<forall>p \<in> set (fst y). up_to_date (rows (st_db (snd y))) p"
proof -
  have "race dp x y" "apart (fst x)" using assms(3) by (simp_all add: race_apart_def)
  then show ?thesis using assms(4,5)
  proof (cases rule: race.cases)
    case (arrive ps s c)
    with assms(5) show ?thesis by (auto simp: up_to_date_def)
  next
    case (move i ps s p s')
    note self = up_to_date_self [OF assms(2) move(4)]
    have v: "progress_valid (dp_unicode dp) (ps ! i)" using assms(4) move by (simp add: race_valid_def)
    have "up_to_date (rows (st_db s')) (ps[i := p] ! j)" if j: "j < length ps" for j
    proof (cases "j = i")
      case True
      with self j show ?thesis by simp
    next
      case False
      have "addressed (ps ! j) = None \<or> addressed (ps ! j) \<noteq> addressed (ps ! i)"
        using \<open>apart (fst x)\<close> move(1,3) j False by (simp add: apart_def)
      from up_to_date_other [OF assms(1) v move(4) _ this] assms(5) move(1) j False
      show ?thesis by simp
    qed
    then show ?thesis using move(2) by (auto simp: in_set_conv_nth)
  qed
qed

lemma races_apart_up_to_date:
  assumes "write_ok (dp_gorm dp) rows" "read_ok (dp_gorm dp) like rows"
    and "(race_apart dp)\<^sup>*\<^sup>* x y" "race_valid dp rows x"
    and "\<forall>p \<in> set (fst x). up_to_date (rows (st_db (snd x))) p"
  shows "race_valid dp rows y \<and> (\<forall>p \<in> set (fst y). up_to_date (rows (st_db (snd y))) p)"
  using assms(3-5)
proof (induction rule: rtranclp_induct)
  case base
  then show ?case by simp
next
  case (step y z)
  from step(2) have "race dp y z" by (simp add: race_apart_def)
  with step race_step_valid [OF assms(1,2)] race_apart_up_to_date [OF assms(1,2) step(2)]
  show ?case by simp
qed

text \<open>
  Claim C26. Requests on different words are atomic: as long as no two requests in flight address the same
  word, an update or deletion that is about to write does, from there to its end, exactly what the
  whole request would do if it were run at that moment on its own, reading included; nothing
  it read before has become stale, whatever the other requests have done in between.
\<close>

theorem requests_apart_are_atomic:
  assumes "write_ok (dp_gorm dp) rows" and "read_ok (dp_gorm dp) like rows"
    and "table_valid (dp_unicode dp) (rows (st_db s))"
    and "(race_apart dp)\<^sup>*\<^sup>* (map Waiting cs, s) (ps, s')" and "p \<in> set ps"
    and "(\<exists>req w0 wd. p = Saving req w0 wd \<and> i = sw_ID w0 \<and> c = UpdateCall i req) \<or> p = Deleting i \<and> c = DeleteCall i"
    and "FindByID (dp_gorm dp) i (st_db s') = Inr w"
  shows "alone dp 2 p s' = whole_request dp c s'"
proof -
  have "race_valid dp rows (map Waiting cs, s)" "\<forall>p \<in> set (map Waiting cs). up_to_date (rows (st_db s)) p"
    using assms(3) by (auto simp: race_valid_def up_to_date_def)
  with races_apart_up_to_date [OF assms(1,2,4)] assms(5)
  have v: "progress_valid (dp_unicode dp) p" "up_to_date (rows (st_db s')) p"
    "table_valid (dp_unicode dp) (rows (st_db s'))" by (auto simp: race_valid_def)
  from assms(6) show ?thesis
  proof (elim disjE exE conjE)
    fix req w0 wd
    assume p: "p = Saving req w0 wd" and c: "i = sw_ID w0" "c = UpdateCall i req"
    have "FromEntity w \<in> set (rows (st_db s'))" "sw_ID w = i"
      using FindByID_ok(1) [OF assms(2,7)] by simp_all
    with v(2,3) p c have "FromEntity w = FromEntity w0"
      using inj_onD [of md_ID "set (rows (st_db s'))" "FromEntity w" "FromEntity w0"]
      by (simp add: up_to_date_def table_valid_def distinct_map)
    then have "w = w0" by (metis entity_roundtrip(1))
    with assms(7) v(1) p c write_steps(1) [of dp w0 s' req wd] show ?thesis by simp
  next
    assume "p = Deleting i" "c = DeleteCall i"
    with write_steps(2) [OF assms(7)] show ?thesis by simp
  qed
qed

section \<open>Requests on the same word\<close>

text \<open>A schedule: who takes the next step.\<close>

fun race_run ::
  "('d, 'r) word_deps \<Rightarrow> nat list \<Rightarrow> progress list \<times> ('d, 'r) word_state \<Rightarrow>
   (progress list \<times> ('d, 'r) word_state) option" where
  "race_run dp [] x = Some x"
| "race_run dp (i # is) (ps, s) =
     (case advance dp (ps ! i) s of None \<Rightarrow> None | Some (p, s') \<Rightarrow> race_run dp is (ps[i := p], s'))"

lemma race_run_Cons:
  "race_run dp (i # is) (ps, s) = Some z \<longleftrightarrow>
     (\<exists>p s'. advance dp (ps ! i) s = Some (p, s') \<and> race_run dp is (ps[i := p], s') = Some z)"
  by (auto split: option.splits)

lemma race_run_race:
  "race_run dp is (ps, s) = Some (ps', s') \<Longrightarrow> \<forall>i \<in> set is. i < length ps \<Longrightarrow> (race dp)\<^sup>*\<^sup>* (ps, s) (ps', s')"
proof (induction "is" arbitrary: ps s)
  case Nil
  then show ?case by simp
next
  case (Cons i xs)
  obtain p s1 where a: "advance dp (ps ! i) s = Some (p, s1)" "race_run dp xs (ps[i := p], s1) = Some (ps', s')"
    using Cons.prems(1) by (auto split: option.splits)
  have "race dp (ps, s) (ps[i := p], s1)" using a(1) Cons.prems(2) by (simp add: race.move)
  with Cons.IH [OF a(2)] Cons.prems(2) show ?case by (auto intro: converse_rtranclp_into_rtranclp)
qed

lemma invalidate_db: "invalidatePrefix dp pfx s = Some s' \<Longrightarrow> st_db s' = st_db s"
  by (auto simp: invalidatePrefix_def split: option.splits prod.splits)

lemma saved_keeps_id: "md_ID m \<in> row_ids (saved m rs)"
proof (cases "md_ID m \<in> row_ids rs")
  case True
  then have "row_ids (saved m rs) = row_ids rs" by (metis list.set_map row_ids_def saved_ids)
  with True show ?thesis by simp
next
  case False
  then show ?thesis by (simp add: saved_def) (simp add: row_ids_def with_defaults_def)
qed

lemma saving_ends:
  assumes "write_ok (dp_gorm dp) rows" "advance dp (Saving req w0 wd) s = Some (p, s1)"
    "advance dp p s1 = Some (Finished (Answered (Inr r)), s2)"
  obtains t where "rows (st_db s2) = saved ((FromEntity wd)\<lparr>md_UpdatedAt := t\<rparr>) (rows (st_db s))"
    "r = EntityToDTO wd" "p = Invalidating (Answered (Inr r))"
proof -
  obtain y d' where c: "g_save (dp_gorm dp) (FromEntity wd) (st_db s) = (y, d')" by force
  have y: "y = None" "st_db s1 = d'" "r = EntityToDTO wd" "p = Invalidating (Answered (Inr r))"
    using assms(2,3) c by (auto simp: Repo_Update_def split: option.splits)
  have "st_db s2 = st_db s1" using assms(3) y(4) invalidate_db by auto
  moreover obtain t where "rows d' = saved ((FromEntity wd)\<lparr>md_UpdatedAt := t\<rparr>) (rows (st_db s))"
    using write_okD(4) [OF assms(1)] c y(1) by blast
  ultimately show thesis using that y by metis
qed

lemma deleting_ends:
  assumes "write_ok (dp_gorm dp) rows" "advance dp (Deleting i) s = Some (p, s1)"
    "advance dp p s1 = Some (Finished (Deleted None), s2)"
  shows "rows (st_db s2) = filter (\<lambda>m. md_ID m \<noteq> i) (rows (st_db s))"
proof -
  obtain y d' where c: "g_delete (dp_gorm dp) i (st_db s) = (y, d')" by force
  have y: "y = None" "st_db s1 = d'" "p = Invalidating (Deleted None)"
    using assms(2,3) c by (auto simp: Repo_Delete_def split: option.splits)
  have "st_db s2 = st_db s1" using assms(3) y(3) invalidate_db by auto
  with write_okD(6) [OF assms(1)] c y show ?thesis by metis
qed

lemma update_lookup_saving:
  assumes "read_ok (dp_gorm dp) like rows" "advance dp (Waiting (UpdateCall i req)) s = Some (p, s1)"
    "advance dp p s2 \<noteq> None"
  obtains w0 wd where "p = Saving req w0 wd" "FindByID (dp_gorm dp) i (st_db s) = Inr w0" "sw_ID wd = i"
    "apply_update (dp_unicode dp) req w0 = Inr wd" "s1 = s"
proof -
  have p: "p = Update_lookup dp i req (st_db s)" "s1 = s" and nf: "p \<noteq> Finished x" for x
    using assms(2,3) by auto
  obtain w0 where w0: "FindByID (dp_gorm dp) i (st_db s) = Inr w0"
    using p(1) nf by (cases "FindByID (dp_gorm dp) i (st_db s)") (simp_all add: Update_lookup_def)
  obtain wd where w: "apply_update (dp_unicode dp) req w0 = Inr wd"
    using p(1) nf w0 by (cases "apply_update (dp_unicode dp) req w0") (simp_all add: Update_lookup_def)
  have "p = Saving req w0 wd"
    using p(1) nf w0 w by (cases "Validate wd") (simp_all add: Update_lookup_def)
  note w = w0 w this
  moreover have "sw_ID wd = i" using FindByID_ok(1) [OF assms(1) w(1)] apply_update_keeps [OF w(2)] by simp
  ultimately show thesis using that p(2) by blast
qed

lemma delete_lookup_deleting:
  assumes "advance dp (Waiting (DeleteCall i)) s = Some (p, s1)" "advance dp p s2 \<noteq> None"
  shows "p = Deleting i \<and> s1 = s"
  using assms by (auto simp: Delete_lookup_def split: sum.splits)

text \<open>
  Claim C27. A deleted word can return: an update that has read the word before another request deletes it
  writes it back, although both report success. Run one after the other, in either order, the
  word is gone, and an update that comes second says so.
\<close>

theorem deleted_word_returns:
  assumes "write_ok (dp_gorm dp) rows" and "read_ok (dp_gorm dp) like rows"
  shows "(race_run dp [0, 1, 1, 1, 0, 0] ([Waiting (UpdateCall i req), Waiting (DeleteCall i)], s) =
        Some ([Finished (Answered (Inr r)), Finished (Deleted None)], s') \<longrightarrow> i \<in> row_ids (rows (st_db s'))) \<and>
    (race_run dp [0, 0, 0, 1, 1, 1] ([Waiting (UpdateCall i req), Waiting (DeleteCall i)], s) =
        Some ([Finished (Answered (Inr r)), Finished (Deleted None)], s') \<longrightarrow> i \<notin> row_ids (rows (st_db s'))) \<and>
    (race_run dp [1, 1, 1, 0] ([Waiting (UpdateCall i req), Waiting (DeleteCall i)], s) =
        Some ([p, Finished (Deleted None)], s') \<longrightarrow> i \<notin> row_ids (rows (st_db s')) \<and> (\<exists>e. p = Finished (Answered (Inl e))))"
proof (intro conjI impI)
  assume "race_run dp [0, 1, 1, 1, 0, 0] ([Waiting (UpdateCall i req), Waiting (DeleteCall i)], s) =
    Some ([Finished (Answered (Inr r)), Finished (Deleted None)], s')"
  then obtain p1 s1 q1 s2 q2 s3 s4 p2 s5 where x:
    "advance dp (Waiting (UpdateCall i req)) s = Some (p1, s1)"
    "advance dp (Waiting (DeleteCall i)) s1 = Some (q1, s2)" "advance dp q1 s2 = Some (q2, s3)"
    "advance dp q2 s3 = Some (Finished (Deleted None), s4)"
    "advance dp p1 s4 = Some (p2, s5)" "advance dp p2 s5 = Some (Finished (Answered (Inr r)), s')"
    by (simp add: race_run_Cons del: advance.simps race_run.simps(2))
      (elim exE conjE, rule that; simp del: advance.simps)
  obtain w0 wd where u: "p1 = Saving req w0 wd" "sw_ID wd = i"
    using update_lookup_saving [OF assms(2) x(1)] x(5) by blast
  obtain t where "rows (st_db s') = saved ((FromEntity wd)\<lparr>md_UpdatedAt := t\<rparr>) (rows (st_db s4))"
    using saving_ends [OF assms(1)] x(5,6) u(1) by blast
  then show "i \<in> row_ids (rows (st_db s'))"
    using u(2) saved_keeps_id [of "(FromEntity wd)\<lparr>md_UpdatedAt := t\<rparr>" "rows (st_db s4)"] by simp
next
  assume "race_run dp [0, 0, 0, 1, 1, 1] ([Waiting (UpdateCall i req), Waiting (DeleteCall i)], s) =
    Some ([Finished (Answered (Inr r)), Finished (Deleted None)], s')"
  then obtain s3 q1 s4 q2 s5 where x:
    "advance dp (Waiting (DeleteCall i)) s3 = Some (q1, s4)" "advance dp q1 s4 = Some (q2, s5)"
    "advance dp q2 s5 = Some (Finished (Deleted None), s')"
    by (simp add: race_run_Cons del: advance.simps race_run.simps(2))
      (elim exE conjE, rule that; simp del: advance.simps)
  have "q1 = Deleting i" using delete_lookup_deleting [OF x(1)] x(2) by blast
  with deleting_ends [OF assms(1)] x(2,3) show "i \<notin> row_ids (rows (st_db s'))"
    by (fastforce simp: row_ids_def)
next
  assume "race_run dp [1, 1, 1, 0] ([Waiting (UpdateCall i req), Waiting (DeleteCall i)], s) =
    Some ([p, Finished (Deleted None)], s')"
  then obtain q1 s1 q2 s2 s3 where x:
    "advance dp (Waiting (DeleteCall i)) s = Some (q1, s1)" "advance dp q1 s1 = Some (q2, s2)"
    "advance dp q2 s2 = Some (Finished (Deleted None), s3)"
    "advance dp (Waiting (UpdateCall i req)) s3 = Some (p, s')"
    by (simp add: race_run_Cons del: advance.simps race_run.simps(2))
      (elim exE conjE, rule that; simp del: advance.simps)
  have "q1 = Deleting i" using delete_lookup_deleting [OF x(1)] x(2) by blast
  with deleting_ends [OF assms(1)] x(2,3) have gone: "i \<notin> row_ids (rows (st_db s3))"
    by (fastforce simp: row_ids_def)
  have "s3 = s'" "p = Update_lookup dp i req (st_db s3)" using x(4) by auto
  moreover have "FindByID (dp_gorm dp) i (st_db s3) \<noteq> Inr w" for w
    using FindByID_ok(1) [OF assms(2)] gone by (force simp: row_ids_def)
  ultimately show "i \<notin> row_ids (rows (st_db s'))" "\<exists>e. p = Finished (Answered (Inl e))"
    using gone by (auto simp: Update_lookup_def split: sum.splits)
qed

text \<open>
  A lost update: of two updates that both read the word before either writes it, the second overwrites
  every field with what it read, so nothing of the first is left, although both report success.
\<close>

lemma concurrent_update_is_lost:
  assumes "write_ok (dp_gorm dp) rows" "read_ok (dp_gorm dp) like rows"
    and "race_run dp [0, 1, 0, 0, 1, 1] ([Waiting (UpdateCall i req1), Waiting (UpdateCall i req2)], s) =
      Some ([Finished (Answered (Inr r1)), Finished (Answered (Inr r2))], s')"
  shows "\<exists>w0 wd t. FindByID (dp_gorm dp) i (st_db s) = Inr w0 \<and> apply_update (dp_unicode dp) req2 w0 = Inr wd \<and>
    md_ID (FromEntity wd) = i \<and>
    (\<forall>m \<in> set (rows (st_db s')). md_ID m = i \<longrightarrow> with_defaults m = with_defaults ((FromEntity wd)\<lparr>md_UpdatedAt := t\<rparr>))"
proof -
  obtain p1 s1 q1 s2 p2 s3 s4 q2 s5 where x:
    "advance dp (Waiting (UpdateCall i req1)) s = Some (p1, s1)"
    "advance dp (Waiting (UpdateCall i req2)) s1 = Some (q1, s2)" "advance dp q1 s4 = Some (q2, s5)"
    "advance dp q2 s5 = Some (Finished (Answered (Inr r2)), s')"
    using assms(3) by (simp add: race_run_Cons del: advance.simps race_run.simps(2))
      (elim exE conjE, rule that; simp del: advance.simps)
  obtain w0 wd where u: "q1 = Saving req2 w0 wd" "FindByID (dp_gorm dp) i (st_db s1) = Inr w0" "sw_ID wd = i"
    "apply_update (dp_unicode dp) req2 w0 = Inr wd"
    using update_lookup_saving [OF assms(2) x(2)] x(3) by blast
  obtain t where t: "rows (st_db s') = saved ((FromEntity wd)\<lparr>md_UpdatedAt := t\<rparr>) (rows (st_db s4))"
    using saving_ends [OF assms(1)] x(3,4) u(1) by blast
  have "s1 = s" using x(1) by auto
  moreover have "with_defaults m = with_defaults ((FromEntity wd)\<lparr>md_UpdatedAt := t\<rparr>)"
    if "m \<in> set (rows (st_db s'))" "md_ID m = i" for m
    using that t u(3)
    by (auto simp: saved_def row_ids_def with_defaults_def split: if_splits)
  ultimately show ?thesis using u(2-4) by auto
qed

text \<open>
  Of two creations of one text that both look it up before either writes, the database refuses the
  second, and its error is passed on as it is: not \<open>ErrWordAlreadyExists\<close>, which a creation after
  the first has returned gets.
\<close>

lemma concurrent_creation_error:
  "\<exists>r. map_option fst (race_run sample_deps [0, 1, 0, 0, 1]
      ([Waiting (CreateCall (sample_create ''spam'')), Waiting (CreateCall (sample_create ''spam''))], sample_state [] 1)) =
     Some [Finished (Answered (Inr r)), Finished (Answered (Inl (ExternalError ''Error 1062'')))] \<and>
   map_option fst (race_run sample_deps [0, 0, 0, 1]
      ([Waiting (CreateCall (sample_create ''spam'')), Waiting (CreateCall (sample_create ''spam''))], sample_state [] 1)) =
     Some [Finished (Answered (Inr r)), Finished (Answered (Inl (BizErr ErrWordAlreadyExists)))]"
proof -
  let ?r = "\<lparr>wr_ID = 1, wr_Text = ''spam'', wr_Category = CategoryAd, wr_Level = 2, wr_Status = 1, wr_Tag = [],
    wr_CreatedAt = 5000, wr_UpdatedAt = 5000\<rparr>"
  have "map_option fst (race_run sample_deps [0, 1, 0, 0, 1]
      ([Waiting (CreateCall (sample_create ''spam'')), Waiting (CreateCall (sample_create ''spam''))], sample_state [] 1)) =
     Some [Finished (Answered (Inr ?r)), Finished (Answered (Inl (ExternalError ''Error 1062'')))]"
    by code_simp
  moreover have "map_option fst (race_run sample_deps [0, 0, 0, 1]
      ([Waiting (CreateCall (sample_create ''spam'')), Waiting (CreateCall (sample_create ''spam''))], sample_state [] 1)) =
     Some [Finished (Answered (Inr ?r)), Finished (Answered (Inl (BizErr ErrWordAlreadyExists)))]"
    by code_simp
  ultimately show ?thesis by blast
qed

text \<open>A table with one word, an update of its level and requests on it.\<close>

definition sample_update :: UpdateWordRequest where
  "sample_update = \<lparr>uw_Text = None, uw_Category = None, uw_Level = Some 3, uw_Status = None, uw_Tag = None\<rparr>"

lemma sample_row_valid:
  "table_valid (dp_unicode sample_deps) (tb_rows (st_db (sample_state [sample_row 4 ''spam'' 7] 5)))"
proof -
  have n: "NormalizeForIndex ascii_data ''spam'' = ''spam''" by code_simp
  have "row_valid ascii_data (sample_row 4 ''spam'' 7) = (\<exists>t. ''spam'' = NormalizeForIndex ascii_data t)"
  proof -
    have "length (runes_of ''spam'') \<le> 255" by code_simp
    then show ?thesis by (simp add: row_valid_iff sample_row_def AllCategories_def)
  qed
  with n show ?thesis by (auto simp: sample_state_def table_valid_def intro: exI [of _ "''spam''"])
qed

theorem races_keep_the_table_valid_witness:
  "\<exists>ps s'. (race sample_deps)\<^sup>*\<^sup>* (map Waiting [CreateCall (sample_create ''spam''), CreateCall (sample_create ''spam'')],
      sample_state [] 1) (ps, s') \<and> length ps = 2 \<and> table_valid ascii_data (tb_rows (st_db s'))"
proof -
  let ?cs = "[CreateCall (sample_create ''spam''), CreateCall (sample_create ''spam'')]"
  obtain r where r: "map_option fst (race_run sample_deps [0, 1, 0, 0, 1] (map Waiting ?cs, sample_state [] 1)) =
      Some [Finished (Answered (Inr r)), Finished (Answered (Inl (ExternalError ''Error 1062'')))]"
    using concurrent_creation_error by auto
  then obtain ps s' where run: "race_run sample_deps [0, 1, 0, 0, 1] (map Waiting ?cs, sample_state [] 1) = Some (ps, s')"
    "length ps = 2" by (auto simp del: race_run.simps)
  have race: "(race sample_deps)\<^sup>*\<^sup>* (map Waiting ?cs, sample_state [] 1) (ps, s')"
    by (rule race_run_race [OF run(1)]) simp
  have w: "write_ok (dp_gorm sample_deps) tb_rows" "read_ok (dp_gorm sample_deps) contains tb_rows"
    by (simp_all add: table_write_ok table_read_ok)
  have "table_valid (dp_unicode sample_deps) (tb_rows (st_db (sample_state [] 1)))"
    by (simp add: sample_state_def table_valid_def)
  from races_keep_the_table_valid [OF w race this] race run(2) show ?thesis by auto
qed

theorem requests_apart_are_atomic_witness:
  "alone sample_deps 2 (Saving sample_update (ToEntity (sample_row 4 ''spam'' 7))
      ((ToEntity (sample_row 4 ''spam'' 7))\<lparr>sw_Level := 3\<rparr>)) (sample_state [sample_row 4 ''spam'' 7] 5) =
   whole_request sample_deps (UpdateCall 4 sample_update) (sample_state [sample_row 4 ''spam'' 7] 5)"
proof -
  let ?s = "sample_state [sample_row 4 ''spam'' 7] 5" and ?w = "ToEntity (sample_row 4 ''spam'' 7)"
  let ?p = "Saving sample_update ?w (?w\<lparr>sw_Level := 3\<rparr>)"
  have a: "advance sample_deps (Waiting (UpdateCall 4 sample_update)) ?s = Some (?p, ?s)" by code_simp
  have "race sample_deps ([Waiting (UpdateCall 4 sample_update)], ?s) ([?p], ?s)"
    using race.move [of 0 "[Waiting (UpdateCall 4 sample_update)]" sample_deps ?s ?p ?s] a by simp
  then have run: "(race_apart sample_deps)\<^sup>*\<^sup>* (map Waiting [UpdateCall 4 sample_update], ?s) ([?p], ?s)"
    by (intro r_into_rtranclp) (simp add: race_apart_def apart_def)
  have w: "write_ok (dp_gorm sample_deps) tb_rows" "read_ok (dp_gorm sample_deps) contains tb_rows"
    by (simp_all add: table_write_ok table_read_ok)
  have f: "FindByID (dp_gorm sample_deps) 4 (st_db ?s) = Inr ?w" by code_simp
  have i: "md_ID (sample_row 4 ''spam'' 7) = 4" by (simp add: sample_row_def)
  show ?thesis
    by (rule requests_apart_are_atomic [OF w sample_row_valid run _ _ f]) (simp_all add: i)
qed

theorem deleted_word_returns_witness:
  "\<exists>r s'. race_run sample_deps [0, 1, 1, 1, 0, 0]
      ([Waiting (UpdateCall 4 sample_update), Waiting (DeleteCall 4)], sample_state [sample_row 4 ''spam'' 7] 5) =
     Some ([Finished (Answered (Inr r)), Finished (Deleted None)], s') \<and> 4 \<in> row_ids (tb_rows (st_db s'))"
proof -
  let ?run = "race_run sample_deps [0, 1, 1, 1, 0, 0]
      ([Waiting (UpdateCall 4 sample_update), Waiting (DeleteCall 4)], sample_state [sample_row 4 ''spam'' 7] 5)"
  define r where "r = EntityToDTO ((ToEntity (sample_row 4 ''spam'' 7))\<lparr>sw_Level := 3\<rparr>)"
  have "map_option fst ?run = Some [Finished (Answered (Inr r)), Finished (Deleted None)]"
    unfolding r_def by code_simp
  then obtain s' where run: "?run = Some ([Finished (Answered (Inr r)), Finished (Deleted None)], s')"
    by (auto simp del: race_run.simps)
  have w: "write_ok (dp_gorm sample_deps) tb_rows" "read_ok (dp_gorm sample_deps) contains tb_rows"
    by (simp_all add: table_write_ok table_read_ok)
  from deleted_word_returns [OF w] run have "4 \<in> row_ids (tb_rows (st_db s'))" by blast
  with run show ?thesis by blast
qed

end
