(* ===== verification/Observers.thy ===== *)
theory Observers
  imports Http Grpc
begin

text \<open>
  What the program records of the requests it serves: \<open>pkg/logger\<close>, the request log and the metrics of
  the HTTP interface (\<open>logger.go\<close>, \<open>metrics.go\<close>), and the logging of the gRPC interceptors. The log and
  the counters are kept beside what the handlers work on, and the chains of theories \<open>Http\<close> and
  \<open>Grpc\<close> are those here with the records forgotten.
\<close>

section \<open>The logger\<close>

datatype log_level = DebugLevel | InfoLevel | WarnLevel | ErrorLevel | DPanicLevel | PanicLevel | FatalLevel

definition severity :: "log_level \<Rightarrow> int" where
  "severity l = (case l of DebugLevel \<Rightarrow> -1 | InfoLevel \<Rightarrow> 0 | WarnLevel \<Rightarrow> 1 | ErrorLevel \<Rightarrow> 2
     | DPanicLevel \<Rightarrow> 3 | PanicLevel \<Rightarrow> 4 | FatalLevel \<Rightarrow> 5)"

datatype encoding = ConsoleEncoder | JSONEncoder

datatype sink = Stdout | LogFile gostring

record Logger =
  lo_level :: log_level
  lo_encoder :: encoding
  lo_sink :: sink

text \<open>
  \<open>NewLogger\<close>. How zap reads the name of a level is a parameter, and so is opening the file; a level
  that cannot be read becomes \<open>info\<close>.
\<close>

definition NewLogger ::
  "(gostring \<Rightarrow> log_level option) \<Rightarrow> (gostring \<Rightarrow> error option) \<Rightarrow> gostring \<Rightarrow> gostring \<Rightarrow> gostring \<Rightarrow> Logger result" where
  "NewLogger parseLevel openFile level format out =
     (let lv = (case parseLevel level of Some l \<Rightarrow> l | None \<Rightarrow> InfoLevel);
          encoder = (if format = ''console'' then ConsoleEncoder else JSONEncoder)
      in if out = ''stdout'' \<or> out = []
         then Inr \<lparr>lo_level = lv, lo_encoder = encoder, lo_sink = Stdout\<rparr>
         else (case openFile out of
             Some err \<Rightarrow> Inl err
           | None \<Rightarrow> Inr \<lparr>lo_level = lv, lo_encoder = encoder, lo_sink = LogFile out\<rparr>))"

section \<open>What is recorded\<close>

record request_fields =
  rf_status :: int
  rf_method :: gostring
  rf_path :: gostring
  rf_query :: gostring
  rf_ip :: gostring
  rf_latency :: int
  rf_request_id :: gostring
  rf_body_size :: int

datatype log_entry =
    RequestEntry log_level gostring request_fields
  | PanicEntry gostring gostring "(gostring \<times> gostring) option"
  | RpcEntry gostring gostring int
  | RpcPanicEntry gostring

definition entry_level :: "log_entry \<Rightarrow> log_level" where
  "entry_level e = (case e of RequestEntry l _ _ \<Rightarrow> l | RpcEntry _ _ _ \<Rightarrow> InfoLevel
     | PanicEntry _ _ _ \<Rightarrow> ErrorLevel | RpcPanicEntry _ \<Rightarrow> ErrorLevel)"

text \<open>
  The counter and the two histograms, by their labels; a histogram holds what was observed, and
  Prometheus sorts it into its buckets.
\<close>

record http_metrics =
  hm_total :: "(gostring \<times> gostring \<times> gostring, nat) gomap"
  hm_durations :: "(gostring \<times> gostring, int list) gomap"
  hm_sizes :: "(gostring \<times> gostring, int list) gomap"

definition series :: "('k, 'v) gomap \<Rightarrow> 'k \<Rightarrow> 'v \<Rightarrow> 'v" where
  "series m k v0 = (case map_of m k of Some v \<Rightarrow> v | None \<Rightarrow> v0)"

definition metric_inc :: "'k \<Rightarrow> ('k, nat) gomap \<Rightarrow> ('k, nat) gomap" where
  "metric_inc k m = map_put k (Suc (series m k 0)) m"

definition metric_observe :: "'k \<Rightarrow> int \<Rightarrow> ('k, int list) gomap \<Rightarrow> ('k, int list) gomap" where
  "metric_observe k v m = map_put k (series m k [] @ [v]) m"

record 't observed =
  ob_app :: 't
  ob_logger :: Logger
  ob_log :: "log_entry list"
  ob_http :: http_metrics

definition log_put :: "log_entry \<Rightarrow> 't observed \<Rightarrow> 't observed" where
  "log_put e o' =
     (if severity (entry_level e) \<ge> severity (lo_level (ob_logger o')) then o'\<lparr>ob_log := ob_log o' @ [e]\<rparr> else o')"

text \<open>What the observers read of a request besides what the handlers do, and how many bytes a body has.\<close>

record 'p observation =
  ov_Path :: gostring
  ov_RawQuery :: gostring
  ov_FullPath :: gostring
  ov_log_start :: instant
  ov_log_end :: instant
  ov_metrics_start :: instant
  ov_metrics_end :: instant
  ov_bytes :: "'p reply list \<Rightarrow> int"

text \<open>\<open>Writer.Size()\<close> is -1 until something is written.\<close>

definition writer_size :: "'p observation \<Rightarrow> 'p gin \<Rightarrow> int" where
  "writer_size ov c = (if gn_written c then ov_bytes ov (gn_body c) else -1)"

section \<open>The observing middlewares\<close>

type_synonym ('p, 'l, 't) observing = "('p, 'l, 't observed) handler"

definition on_observed :: "('t observed \<Rightarrow> 't observed) \<Rightarrow> ('l, 't observed) server \<Rightarrow> ('l, 't observed) server" where
  "on_observed f s = s\<lparr>sv_app := f (sv_app s)\<rparr>"

text \<open>A panic leaves \<open>Next\<close> without what comes after it.\<close>

definition after_next ::
  "('p gin \<Rightarrow> 't observed \<Rightarrow> 't observed) \<Rightarrow> ('p, 'l, 't) observing \<Rightarrow> ('p, 'l, 't) observing" where
  "after_next f rest rq c s =
     (case rest rq c s of
        None \<Rightarrow> None
      | Some (Some p, c', s') \<Rightarrow> Some (Some p, c', s')
      | Some (None, c', s') \<Rightarrow> Some (None, c', on_observed (f c') s'))"

definition request_entry :: "'p observation \<Rightarrow> http_request \<Rightarrow> 'p gin \<Rightarrow> log_entry" where
  "request_entry ov rq c =
     (let status = gn_status c;
          fields = \<lparr>rf_status = status, rf_method = rq_Method rq, rf_path = ov_Path ov, rf_query = ov_RawQuery ov,
            rf_ip = rq_ClientIP rq, rf_latency = ov_log_end ov - ov_log_start ov,
            rf_request_id = get_string (gn_values c) ''request_id'', rf_body_size = writer_size ov c\<rparr>
      in if status \<ge> 500 then RequestEntry ErrorLevel ''server error'' fields
         else if status \<ge> 400 then RequestEntry WarnLevel ''client error'' fields
         else RequestEntry InfoLevel ''request'' fields)"

definition loggerMiddleware :: "'p observation \<Rightarrow> ('p, 'l, 't) observing \<Rightarrow> ('p, 'l, 't) observing" where
  "loggerMiddleware ov rest rq = after_next (\<lambda>c. log_put (request_entry ov rq c)) rest rq"

definition record_request :: "'p observation \<Rightarrow> http_request \<Rightarrow> 'p gin \<Rightarrow> http_metrics \<Rightarrow> http_metrics" where
  "record_request ov rq c m =
     (let duration = ov_metrics_end ov - ov_metrics_start ov;
          status = Itoa (gn_status c);
          path = (if ov_FullPath ov = [] then ''unknown'' else ov_FullPath ov)
      in m\<lparr>hm_total := metric_inc (rq_Method rq, path, status) (hm_total m),
           hm_durations := metric_observe (rq_Method rq, path) duration (hm_durations m),
           hm_sizes := metric_observe (rq_Method rq, path) (writer_size ov c) (hm_sizes m)\<rparr>)"

definition metricsMiddleware :: "'p observation \<Rightarrow> ('p, 'l, 't) observing \<Rightarrow> ('p, 'l, 't) observing" where
  "metricsMiddleware ov rest rq =
     after_next (\<lambda>c o'. o'\<lparr>ob_http := record_request ov rq c (ob_http o')\<rparr>) rest rq"

text \<open>The recovery logs what it recovers, a panic that is not a lost connection with method and id.\<close>

definition panic_entry :: "unicode_data \<Rightarrow> 'p observation \<Rightarrow> http_request \<Rightarrow> panic \<Rightarrow> 'p gin \<Rightarrow> log_entry" where
  "panic_entry u ov rq p c =
     (if brokenPipe u p then PanicEntry ''broken pipe'' (ov_Path ov) None
      else PanicEntry ''panic recovered'' (ov_Path ov) (Some (rq_Method rq, get_string (gn_values c) ''request_id'')))"

definition observed_recovery ::
  "unicode_data \<Rightarrow> 'p observation \<Rightarrow> ('p, 'l, 't) observing \<Rightarrow> ('p, 'l, 't) observing" where
  "observed_recovery u ov rest =
     recoveryMiddleware u (\<lambda>rq c s.
       case rest rq c s of
         Some (Some p, c', s') \<Rightarrow>
           Some (Some p, c', on_observed (log_put (panic_entry u ov rq p c')) s')
       | x \<Rightarrow> x)"

section \<open>The chain as it is\<close>

text \<open>\<open>r.Use\<close> of \<open>NewRouter\<close>, all seven.\<close>

definition observed_chain ::
  "unicode_data \<Rightarrow> mw_config \<Rightarrow> 'p observation \<Rightarrow> ('p, 'l, 't) observing \<Rightarrow> ('p, 'l, 't) observing" where
  "observed_chain u cfg ov h =
     observed_recovery u ov
      (requestIDMiddleware
       (bodyLimitMiddleware (mc_MaxBodySize cfg)
        (loggerMiddleware ov
         (corsMiddleware (mc_AllowedOrigins cfg)
          (metricsMiddleware ov
           (tracingMiddleware (mc_SampleRate_positive cfg) h))))))"

text \<open>A handler of the program, which knows nothing of the records.\<close>

definition forget_server :: "('l, 't observed) server \<Rightarrow> ('l, 't) server" where
  "forget_server s = \<lparr>sv_limiter = sv_limiter s, sv_app = ob_app (sv_app s)\<rparr>"

definition remember_server :: "('l, 't) server \<Rightarrow> 't observed \<Rightarrow> ('l, 't observed) server" where
  "remember_server s o' = \<lparr>sv_limiter = sv_limiter s, sv_app = o'\<lparr>ob_app := sv_app s\<rparr>\<rparr>"

definition unobserved :: "('p, 'l, 't) handler \<Rightarrow> ('p, 'l, 't) observing" where
  "unobserved h rq c s =
     (case h rq c (forget_server s) of
        None \<Rightarrow> None
      | Some (p, c', s') \<Rightarrow> Some (p, c', remember_server s' (sv_app s)))"

text \<open>
  For a path that no route matches Gin sets the status before the chain and writes its page after it,
  unless something has been written by then.
\<close>

definition error_page :: "payload gin \<Rightarrow> payload gin" where
  "error_page c =
     (if gn_written c then c
      else if gn_status c = 404 then gin_JSON 404 (Bare (TextData ''404 page not found'')) c
      else c\<lparr>gn_written := True\<rparr>)"

definition serveError :: "(payload, 'l, 't) handler \<Rightarrow> (payload, 'l, 't) handler" where
  "serveError chain rq c s =
     (case chain rq (c\<lparr>gn_status := 404\<rparr>) s of
        None \<Rightarrow> None
      | Some (p, c', s') \<Rightarrow> Some (p, error_page c', s'))"

definition observed_router ::
  "'l rate_library \<Rightarrow> mw_config \<Rightarrow> payload observation \<Rightarrow> ('d, 'r) http_deps \<Rightarrow> ('l, 'd, 'r) http_handler \<Rightarrow> route \<Rightarrow>
   (payload, 'l, ('d, 'r) app) observing" where
  "observed_router rl cfg ov dp prom r =
     (let u = dp_unicode (hd_words dp) in
      if r = NoRoute then serveError (observed_chain u cfg ov (\<lambda>rq c s. finish c s))
      else observed_chain u cfg ov
        (if is_api r then api_chain rl cfg (unobserved (endpoint dp prom r)) else unobserved (endpoint dp prom r)))"

section \<open>The observers are transparent\<close>

text \<open>With its records forgotten, a handler does what another one does.\<close>

definition transparent :: "('p, 'l, 't) observing \<Rightarrow> ('p, 'l, 't) handler \<Rightarrow> bool" where
  "transparent h' h \<longleftrightarrow>
     (\<forall>rq c s. map_option (\<lambda>(p, c', s'). (p, c', forget_server s')) (h' rq c s) = h rq c (forget_server s))"

lemma transparentI:
  "(\<And>rq c s. map_option (\<lambda>(p, c', s'). (p, c', forget_server s')) (h' rq c s) = h rq c (forget_server s)) \<Longrightarrow>
   transparent h' h"
  by (simp add: transparent_def)

lemma transparentD:
  "transparent h' h \<Longrightarrow> h rq c (forget_server s) = map_option (\<lambda>(p, c', s'). (p, c', forget_server s')) (h' rq c s)"
  by (simp add: transparent_def)

lemma forget_simps [simp]:
  "sv_limiter (forget_server s) = sv_limiter s" "sv_app (forget_server s) = ob_app (sv_app s)"
  "forget_server (remember_server t o') = t"
  "(forget_server s)\<lparr>sv_limiter := l\<rparr> = forget_server (s\<lparr>sv_limiter := l\<rparr>)"
  by (simp_all add: forget_server_def remember_server_def)

lemma forget_on_observed: "(\<And>x. ob_app (f x) = ob_app x) \<Longrightarrow> forget_server (on_observed f s) = forget_server s"
  by (simp add: forget_server_def on_observed_def)

lemma ob_app_log_put [simp]: "ob_app (log_put e x) = ob_app x"
  by (simp add: log_put_def)

lemma transparent_unobserved: "transparent (unobserved h) h"
  by (rule transparentI) (simp add: unobserved_def split: option.splits)

lemma transparent_requestID: "transparent h' h \<Longrightarrow> transparent (requestIDMiddleware h') (requestIDMiddleware h)"
  by (rule transparentI) (simp add: requestIDMiddleware_def transparentD Let_def)

lemma transparent_bodyLimit:
  "transparent h' h \<Longrightarrow> transparent (bodyLimitMiddleware n h') (bodyLimitMiddleware n h)"
  by (rule transparentI) (simp add: bodyLimitMiddleware_def transparentD)

lemma transparent_cors: "transparent h' h \<Longrightarrow> transparent (corsMiddleware xs h') (corsMiddleware xs h)"
  by (rule transparentI) (simp add: corsMiddleware_def transparentD Let_def split: prod.splits)

lemma transparent_tracing: "transparent h' h \<Longrightarrow> transparent (tracingMiddleware b h') (tracingMiddleware b h)"
  by (rule transparentI) (simp add: tracingMiddleware_def transparentD split: option.splits)

lemma transparent_rateLimit:
  fixes h' :: "('p, 'l, 't) observing"
  assumes "transparent h' h"
  shows "transparent (rateLimitMiddleware rl h') (rateLimitMiddleware rl h)"
proof (rule transparentI)
  fix rq c and s :: "('l, 't observed) server"
  let ?key = "if GetHeader rq ''X-API-Key'' = [] then rq_ClientIP rq else GetHeader rq ''X-API-Key''"
  obtain a l1 where a: "getLimiter rl ?key (rq_Now rq) (sv_limiter s) = (a, l1)" by force
  obtain ok l2 where ok: "limiter_Allow rl a (rq_Now rq) l1 = (ok, l2)" by force
  show "map_option (\<lambda>(p, c', s'). (p, c', forget_server s')) (rateLimitMiddleware rl h' rq c s) =
      rateLimitMiddleware rl h rq c (forget_server s)"
    using a ok by (simp add: rateLimitMiddleware_def Let_def transparentD [OF assms] del: if_split)
qed

lemma transparent_auth: "transparent h' h \<Longrightarrow> transparent (authMiddleware ks h') (authMiddleware ks h)"
  by (rule transparentI) (simp add: authMiddleware_def transparentD Let_def)

lemma forget_after_next:
  assumes "\<And>c x. ob_app (f c x) = ob_app x"
  shows "map_option (\<lambda>(p, c', s'). (p, c', forget_server s')) (after_next f h' rq c s) =
    map_option (\<lambda>(p, c', s'). (p, c', forget_server s')) (h' rq c s)"
  using assms by (auto simp: after_next_def forget_on_observed split: option.splits prod.splits)

lemma transparent_logger: "transparent h' h \<Longrightarrow> transparent (loggerMiddleware ov h') h"
  by (rule transparentI) (simp add: loggerMiddleware_def forget_after_next transparentD)

lemma transparent_metrics: "transparent h' h \<Longrightarrow> transparent (metricsMiddleware ov h') h"
  by (rule transparentI) (simp add: metricsMiddleware_def forget_after_next transparentD)

lemma transparent_recovery: "transparent h' h \<Longrightarrow> transparent (observed_recovery u ov h') (recoveryMiddleware u h)"
  by (rule transparentI)
    (auto simp: observed_recovery_def recoveryMiddleware_def transparentD forget_on_observed split: option.splits prod.splits)

lemmas transparent_chain = transparent_recovery transparent_requestID transparent_bodyLimit transparent_logger
  transparent_cors transparent_metrics transparent_tracing transparent_rateLimit transparent_auth transparent_unobserved

lemma eta_transparent: "(\<And>rq c s. k' rq c s = h' rq c s) \<Longrightarrow> (\<And>rq c s. k rq c s = h rq c s) \<Longrightarrow>
   transparent h' h \<Longrightarrow> transparent k' k"
  by (simp add: transparent_def)

lemma transparent_global: "transparent h' h \<Longrightarrow> transparent (observed_chain u cfg ov h') (global_chain u cfg h)"
  by (rule eta_transparent [OF _ _ transparent_recovery [OF transparent_requestID [OF transparent_bodyLimit [OF
        transparent_logger [OF transparent_cors [OF transparent_metrics [OF transparent_tracing]]]]]]])
    (simp_all add: observed_chain_def global_chain_def)

lemma transparent_api: "transparent h' h \<Longrightarrow> transparent (api_chain rl cfg h') (api_chain rl cfg h)"
  by (rule eta_transparent [OF _ _ transparent_rateLimit [OF transparent_auth]]) (simp_all add: api_chain_def)

definition page_handler :: "(payload, 'l, 't) handler" where
  "page_handler rq c s = finish (gin_JSON 404 (Bare (TextData ''404 page not found'')) c) s"

text \<open>The page may be written at the end of the chain or after it.\<close>

definition pages :: "(payload, 'l, 't) handler \<Rightarrow> (payload, 'l, 't) handler \<Rightarrow> bool" where
  "pages h h' \<longleftrightarrow> (\<forall>rq c s. \<not> gn_written c \<longrightarrow>
     (\<exists>c1. h rq (c\<lparr>gn_status := 404\<rparr>) s = Some (None, c1, s) \<and> h' rq c s = Some (None, error_page c1, s)))"

lemma pages_end: "pages (\<lambda>rq c s. finish c s) page_handler"
  by (auto simp: pages_def finish_def page_handler_def error_page_def gin_JSON_def)

lemma pagesI:
  "(\<And>rq c s. \<not> gn_written c \<Longrightarrow>
     \<exists>c1. h rq (c\<lparr>gn_status := 404\<rparr>) s = Some (None, c1, s) \<and> h' rq c s = Some (None, error_page c1, s)) \<Longrightarrow>
   pages h h'"
  by (simp add: pages_def)

lemma pagesE:
  assumes "pages h h'" "\<not> gn_written c"
  obtains c1 where "h rq (c\<lparr>gn_status := 404\<rparr>) s = Some (None, c1, s)" "h' rq c s = Some (None, error_page c1, s)"
  using assms unfolding pages_def by blast

lemma pages_recovery:
  fixes h h' :: "(payload, 'l, 't) handler"
  assumes "pages h h'"
  shows "pages (recoveryMiddleware u h) (recoveryMiddleware u h')"
proof (rule pagesI)
  fix rq :: http_request and c :: "payload gin" and s :: "('l, 't) server"
  assume "\<not> gn_written c"
  with assms obtain c1 where "h rq (c\<lparr>gn_status := 404\<rparr>) s = Some (None, c1, s)" "h' rq c s = Some (None, error_page c1, s)"
    by (rule pagesE)
  then show "\<exists>c1. recoveryMiddleware u h rq (c\<lparr>gn_status := 404\<rparr>) s = Some (None, c1, s) \<and>
      recoveryMiddleware u h' rq c s = Some (None, error_page c1, s)"
    by (simp add: recoveryMiddleware_def)
qed

lemma status_commutes:
  "gin_Set k v (c\<lparr>gn_status := n\<rparr>) = (gin_Set k v c)\<lparr>gn_status := n\<rparr>"
  "gin_Header k v (c\<lparr>gn_status := n\<rparr>) = (gin_Header k v c)\<lparr>gn_status := n\<rparr>"
  "cors_headers (c\<lparr>gn_status := n\<rparr>) = (cors_headers c)\<lparr>gn_status := n\<rparr>"
  "gn_written (gin_Set k v c) = gn_written c" "gn_written (gin_Header k v c) = gn_written c"
  "gn_written (cors_headers c) = gn_written c"
  by (simp_all add: gin_Set_def gin_Header_def cors_headers_def)

lemma pages_requestID: "pages h h' \<Longrightarrow> pages (requestIDMiddleware h) (requestIDMiddleware h')"
  by (simp add: pages_def requestIDMiddleware_def status_commutes Let_def)

lemma pages_bodyLimit:
  fixes h h' :: "(payload, 'l, 't) handler"
  assumes "pages h h'"
  shows "pages (bodyLimitMiddleware n h) (bodyLimitMiddleware n h')"
proof (rule pagesI)
  fix rq :: http_request and c :: "payload gin" and s :: "('l, 't) server"
  assume c: "\<not> gn_written c"
  show "\<exists>c1. bodyLimitMiddleware n h rq (c\<lparr>gn_status := 404\<rparr>) s = Some (None, c1, s) \<and>
      bodyLimitMiddleware n h' rq c s = Some (None, error_page c1, s)"
  proof (cases "rq_Body rq")
    case None
    with assms c show ?thesis by (auto simp: bodyLimitMiddleware_def pages_def)
  next
    case (Some b)
    have "\<not> gn_written (c\<lparr>gn_limit := Some n\<rparr>)" using c by simp
    with assms obtain c1 where "h rq (c\<lparr>gn_limit := Some n, gn_status := 404\<rparr>) s = Some (None, c1, s)"
      "h' rq (c\<lparr>gn_limit := Some n\<rparr>) s = Some (None, error_page c1, s)"
      by (rule pagesE)
    moreover have "c\<lparr>gn_limit := Some n, gn_status := 404\<rparr> = c\<lparr>gn_status := 404, gn_limit := Some n\<rparr>" by (cases c) simp
    ultimately show ?thesis using Some by (simp add: bodyLimitMiddleware_def)
  qed
qed

lemma pages_tracing: "pages h h' \<Longrightarrow> pages (tracingMiddleware b h) (tracingMiddleware b h')"
  by (simp add: pages_def tracingMiddleware_def status_commutes split: option.splits)

lemma page_abort:
  "\<not> gn_written c \<Longrightarrow> error_page (gin_AbortWithStatus n (c\<lparr>gn_status := k\<rparr>)) = gin_AbortWithStatus n c"
  by (simp add: error_page_def gin_AbortWithStatus_def)

lemma pages_cors:
  assumes "pages h h'"
  shows "pages (corsMiddleware xs h) (corsMiddleware xs h')"
  using assms
  by (simp add: pages_def corsMiddleware_def Let_def status_commutes page_abort split: prod.splits)

lemma pages_global:
  assumes "pages h h'"
  shows "pages (global_chain u cfg h) (global_chain u cfg h')"
proof -
  have "global_chain u cfg k = recoveryMiddleware u (requestIDMiddleware (bodyLimitMiddleware (mc_MaxBodySize cfg)
      (corsMiddleware (mc_AllowedOrigins cfg) (tracingMiddleware (mc_SampleRate_positive cfg) k))))"
    for k :: "(payload, 'a, 'b) handler"
    by (simp add: global_chain_def fun_eq_iff)
  with assms show ?thesis by (simp add: pages_recovery pages_requestID pages_bodyLimit pages_cors pages_tracing)
qed

lemma serveError_page:
  assumes "\<not> gn_written c"
  shows "serveError (global_chain u cfg (\<lambda>rq c s. finish c s)) rq c s = global_chain u cfg page_handler rq c s"
proof -
  obtain c1 where "global_chain u cfg (\<lambda>rq c s. finish c s) rq (c\<lparr>gn_status := 404\<rparr>) s = Some (None, c1, s)"
    "global_chain u cfg page_handler rq c s = Some (None, error_page c1, s)"
    using pages_global [OF pages_end, of u cfg] assms unfolding pages_def by blast
  then show ?thesis by (simp add: serveError_def)
qed

lemma transparent_serveError: "transparent h' h \<Longrightarrow> transparent (serveError h') (serveError h)"
  by (rule transparentI) (simp add: serveError_def transparentD split: option.splits)


section \<open>Every request is recorded\<close>

text \<open>What the logger lets through.\<close>

definition logged :: "Logger \<Rightarrow> log_entry list \<Rightarrow> log_entry list" where
  "logged lg es = filter (\<lambda>e. severity (lo_level lg) \<le> severity (entry_level e)) es"

lemma log_put_simps [simp]:
  "ob_log (log_put e x) = ob_log x @ logged (ob_logger x) [e]" "ob_http (log_put e x) = ob_http x"
  "ob_logger (log_put e x) = ob_logger x"
  by (simp_all add: log_put_def logged_def)

text \<open>The records are these: what the handlers of the program leave alone.\<close>

definition records :: "Logger \<Rightarrow> log_entry list \<Rightarrow> http_metrics \<Rightarrow> 't observed \<Rightarrow> bool" where
  "records lg log m x \<longleftrightarrow> ob_logger x = lg \<and> ob_log x = log \<and> ob_http x = m"

lemma keeps_unobserved: "keeps (records lg log m) (unobserved h)"
  by (rule keepsI) (auto simp: unobserved_def remember_server_def records_def split: option.splits)

lemma keeps_api_records:
  assumes "keeps P h"
  shows "keeps P (api_chain rl cfg h)"
proof -
  have "api_chain rl cfg h = rateLimitMiddleware rl (authMiddleware (mc_APIKeys cfg) h)"
    by (simp add: api_chain_def fun_eq_iff)
  with assms show ?thesis by (simp add: keeps_rateLimit keeps_auth)
qed

lemma after_next_cases:
  assumes "after_next f h rq c s = Some (p, c', s')"
  obtains x where "p = Some x" "h rq c s = Some (Some x, c', s')"
  | s1 where "p = None" "h rq c s = Some (None, c', s1)" "sv_app s' = f c' (sv_app s1)"
  using assms by (auto simp: after_next_def on_observed_def split: option.splits prod.splits)

lemma metrics_records:
  assumes "\<And>lg log m. keeps (records lg log m) h" "metricsMiddleware ov h rq c s = Some (p, c', s')"
    and "records lg log m (sv_app s)"
  shows "records lg log (if p = None then record_request ov rq c' m else m) (sv_app s')"
  using assms(2) unfolding metricsMiddleware_def
proof (cases rule: after_next_cases)
  case (1 x)
  from keepsD [OF assms(1) 1(2) assms(3)] 1(1) show ?thesis by simp
next
  case (2 s1)
  from keepsD [OF assms(1) 2(2) assms(3)] 2(1,3) show ?thesis by (simp add: records_def)
qed

text \<open>CORS passes a request on, or answers a preflight.\<close>

lemma cors_cases:
  assumes "corsMiddleware xs rest rq c s = Some (p, c', s')"
  obtains c1 where "rest rq c1 s = Some (p, c', s')"
  | "p = None" "s' = s" "rq_Method rq = ''OPTIONS''"
  using assms by (auto simp: corsMiddleware_def Let_def split: prod.splits if_splits)

text \<open>How the records grow: a request, with what the counters make of it, or a panic.\<close>

definition recorded ::
  "'p observation \<Rightarrow> http_request \<Rightarrow> Logger \<Rightarrow> log_entry list \<Rightarrow> http_metrics \<Rightarrow> 'p gin \<Rightarrow> 't observed \<Rightarrow> bool" where
  "recorded ov rq lg log m c x \<longleftrightarrow>
     records lg (log @ logged lg [request_entry ov rq c]) (record_request ov rq c m) x \<or>
     rq_Method rq = ''OPTIONS'' \<and> records lg (log @ logged lg [request_entry ov rq c]) m x \<or>
     (\<exists>msg more. records lg (log @ logged lg [PanicEntry msg (ov_Path ov) more]) m x)"

lemma logger_records:
  assumes "\<And>lg log m. keeps (records lg log m) h"
    and "loggerMiddleware ov (corsMiddleware xs (metricsMiddleware ov h)) rq c s = Some (p, c', s')"
    and "records lg log m (sv_app s)"
  shows "if p = None then recorded ov rq lg log m c' (sv_app s') else records lg log m (sv_app s')"
proof -
  have inner: "records lg log (if q = None then record_request ov rq c1 m else m) (sv_app s1) \<or>
      q = None \<and> rq_Method rq = ''OPTIONS'' \<and> records lg log m (sv_app s1)"
    if "corsMiddleware xs (metricsMiddleware ov h) rq c s = Some (q, c1, s1)" for q c1 s1
    using that
  proof (cases rule: cors_cases)
    case (1 c2)
    from metrics_records [OF assms(1) 1 assms(3)] show ?thesis by simp
  next
    case 2
    with assms(3) show ?thesis by simp
  qed
  from assms(2) show ?thesis unfolding loggerMiddleware_def
  proof (cases rule: after_next_cases)
    case (1 x)
    from inner [OF 1(2)] 1(1) show ?thesis by simp
  next
    case (2 s1)
    from inner [OF 2(2)] 2(1,3) show ?thesis by (auto simp: recorded_def records_def)
  qed
qed

lemma recovery_cases:
  assumes "observed_recovery u ov rest rq c s = Some (p, c', s')"
  obtains "p = None" "rest rq c s = Some (None, c', s')"
  | x c1 s1 msg more where "p = None" "rest rq c s = Some (Some x, c1, s1)"
      "sv_app s' = log_put (PanicEntry msg (ov_Path ov) more) (sv_app s1)"
proof (cases "rest rq c s")
  case None
  with assms show thesis by (simp add: observed_recovery_def recoveryMiddleware_def)
next
  case (Some y)
  obtain q c1 s1 where y: "y = (q, c1, s1)" by (cases y)
  show thesis
  proof (cases q)
    case None
    with assms Some y that(1) show thesis by (simp add: observed_recovery_def recoveryMiddleware_def)
  next
    case q: (Some x)
    with assms Some y have "p = None" "sv_app s' = log_put (panic_entry u ov rq x c1) (sv_app s1)"
      by (auto simp: observed_recovery_def recoveryMiddleware_def on_observed_def split: if_splits)
    moreover obtain msg more where "panic_entry u ov rq x c1 = PanicEntry msg (ov_Path ov) more"
      by (cases "brokenPipe u x") (simp_all add: panic_entry_def)
    ultimately show thesis using that(2) Some y q by simp
  qed
qed

lemma chain_records:
  fixes h :: "('p, 'l, 't) observing"
  assumes "\<And>lg log m. keeps (records lg log m) h" "observed_chain u cfg ov h rq c s = Some (p, c', s')"
    and "records lg log m (sv_app s)"
  shows "p = None \<and> recorded ov rq lg log m c' (sv_app s')"
proof -
  let ?t = "tracingMiddleware (mc_SampleRate_positive cfg) h"
  let ?k = "loggerMiddleware ov (corsMiddleware (mc_AllowedOrigins cfg) (metricsMiddleware ov ?t))"
  let ?b = "requestIDMiddleware (bodyLimitMiddleware (mc_MaxBodySize cfg) ?k)"
  have t: "keeps (records lg log m) ?t" for lg log m by (rule keeps_tracing [OF assms(1)])
  have k: "if q = None then recorded ov rq lg log m c1 (sv_app s1) else records lg log m (sv_app s1)"
    if b: "?b rq c s = Some (q, c1, s1)" for q c1 s1
  proof -
    obtain c0 where "?k rq c0 s = Some (q, c1, s1)"
      using b by (auto simp: requestIDMiddleware_def bodyLimitMiddleware_def Let_def)
    from logger_records [OF t this assms(3)] show ?thesis .
  qed
  have "observed_recovery u ov ?b rq c s = Some (p, c', s')"
    using assms(2) by (simp add: observed_chain_def)
  then show ?thesis
  proof (cases rule: recovery_cases)
    case 1
    from k [OF 1(2)] 1(1) show ?thesis by simp
  next
    case (2 x c1 s1 msg more)
    from k [OF 2(2)] 2(1,3) show ?thesis by (auto simp: recorded_def records_def)
  qed
qed

definition route_label :: "'p observation \<Rightarrow> gostring" where
  "route_label ov = (if ov_FullPath ov = [] then ''unknown'' else ov_FullPath ov)"

lemma record_request_total:
  "series (hm_total (record_request ov rq c m)) k 0 =
   series (hm_total m) k 0 + (if k = (rq_Method rq, route_label ov, Itoa (gn_status c)) then 1 else 0)"
  by (simp add: record_request_def metric_inc_def series_def route_label_def Let_def)


definition sample_observation :: "payload observation" where
  "sample_observation =
     \<lparr>ov_Path = ''/api/v1/words'', ov_RawQuery = [], ov_FullPath = ''/api/v1/words'', ov_log_start = 0, ov_log_end = 2,
      ov_metrics_start = 0, ov_metrics_end = 1, ov_bytes = (\<lambda>b. 10)\<rparr>"

definition recording :: "('l, 't) server \<Rightarrow> ('l, 't observed) server" where
  "recording s = \<lparr>sv_limiter = sv_limiter s, sv_app = \<lparr>ob_app = sv_app s,
     ob_logger = \<lparr>lo_level = DebugLevel, lo_encoder = JSONEncoder, lo_sink = Stdout\<rparr>, ob_log = [],
     ob_http = \<lparr>hm_total = [], hm_durations = [], hm_sizes = []\<rparr>\<rparr>\<rparr>"


section \<open>What the metrics do not show\<close>

text \<open>A handler that ends like \<open>q\<close> without writing, with a state related to the one before.\<close>

definition yields ::
  "http_request \<Rightarrow> panic option \<Rightarrow> ('t observed \<Rightarrow> 't observed \<Rightarrow> bool) \<Rightarrow> ('p, 'l, 't) observing \<Rightarrow> bool" where
  "yields rq q R k \<longleftrightarrow> (\<forall>c s. \<not> gn_written c \<longrightarrow>
     (\<exists>c' s'. k rq c s = Some (q, c', s') \<and> \<not> gn_written c' \<and> R (sv_app s) (sv_app s')))"

lemma yieldsI:
  "(\<And>c s. \<not> gn_written c \<Longrightarrow> \<exists>c' s'. k rq c s = Some (q, c', s') \<and> \<not> gn_written c' \<and> R (sv_app s) (sv_app s')) \<Longrightarrow>
   yields rq q R k"
  by (simp add: yields_def)

lemma yieldsE:
  assumes "yields rq q R k" "\<not> gn_written c"
  obtains c' s' where "k rq c s = Some (q, c', s')" "\<not> gn_written c'" "R (sv_app s) (sv_app s')"
  using assms unfolding yields_def by blast

lemma yields_outer:
  "yields rq q R k \<Longrightarrow> yields rq q R (tracingMiddleware b k)"
  "yields rq q R k \<Longrightarrow> yields rq q R (requestIDMiddleware k)"
  "yields rq q R k \<Longrightarrow> yields rq q R (bodyLimitMiddleware n k)"
  "yields rq q R k \<Longrightarrow> rq_Method rq \<noteq> ''OPTIONS'' \<Longrightarrow> yields rq q R (corsMiddleware xs k)"
  by (simp_all add: yields_def tracingMiddleware_def requestIDMiddleware_def bodyLimitMiddleware_def
      corsMiddleware_def status_commutes Let_def split: option.splits prod.splits)

lemma yields_after_panic:
  fixes k :: "('p, 'l, 't) observing"
  assumes "yields rq (Some x) R k"
  shows "yields rq (Some x) R (\<lambda>rq. after_next (f rq) k rq)"
proof (rule yieldsI)
  fix c :: "'p gin" and s :: "('l, 't observed) server"
  assume "\<not> gn_written c"
  with assms obtain c' s' where "k rq c s = Some (Some x, c', s')" "\<not> gn_written c'" "R (sv_app s) (sv_app s')"
    by (rule yieldsE)
  then show "\<exists>c' s'. after_next (f rq) k rq c s = Some (Some x, c', s') \<and> \<not> gn_written c' \<and> R (sv_app s) (sv_app s')"
    by (simp add: after_next_def)
qed

lemma yields_after:
  fixes k :: "('p, 'l, 't) observing"
  assumes "yields rq None R k" "\<And>c x y. \<not> gn_written c \<Longrightarrow> R x y \<Longrightarrow> R' x (f rq c y)"
  shows "yields rq None R' (\<lambda>rq. after_next (f rq) k rq)"
proof (rule yieldsI)
  fix c :: "'p gin" and s :: "('l, 't observed) server"
  assume "\<not> gn_written c"
  with assms(1) obtain c' s' where "k rq c s = Some (None, c', s')" "\<not> gn_written c'" "R (sv_app s) (sv_app s')"
    by (rule yieldsE)
  with assms(2) show "\<exists>c' s'. after_next (f rq) k rq c s = Some (None, c', s') \<and> \<not> gn_written c' \<and> R' (sv_app s) (sv_app s')"
    by (simp add: after_next_def on_observed_def)
qed

text \<open>
  The recovery is outermost, so a panic unwinds the request log and the metrics: the client gets 500 and no
  counter moves.
\<close>

lemma panicking_request_is_not_counted:
  fixes h :: "('p, 'l, 't) observing"
  assumes "yields rq (Some OtherPanic) (=) h" and "rq_Method rq \<noteq> ''OPTIONS''"
  shows "\<exists>c s' more. observed_chain u cfg ov h rq new_gin s = Some (None, c, s') \<and> gn_status c = 500 \<and>
    ob_http (sv_app s') = ob_http (sv_app s) \<and>
    ob_log (sv_app s') = ob_log (sv_app s) @ logged (ob_logger (sv_app s)) [PanicEntry ''panic recovered'' (ov_Path ov) more]"
proof -
  let ?b = "requestIDMiddleware (bodyLimitMiddleware (mc_MaxBodySize cfg) (loggerMiddleware ov
      (corsMiddleware (mc_AllowedOrigins cfg) (metricsMiddleware ov
        (tracingMiddleware (mc_SampleRate_positive cfg) h)))))"
  have "yields rq (Some OtherPanic) (=) ?b"
    unfolding loggerMiddleware_def [abs_def] metricsMiddleware_def [abs_def]
    by (intro yields_outer yields_after_panic assms)
  moreover have "\<not> gn_written (new_gin :: 'p gin)" by (simp add: new_gin_def)
  ultimately obtain c' s' where "?b rq new_gin s = Some (Some OtherPanic, c', s')" "\<not> gn_written c'" "sv_app s = sv_app s'"
    by (rule yieldsE)
  then show ?thesis
    by (auto simp: observed_chain_def observed_recovery_def recoveryMiddleware_def brokenPipe_def on_observed_def
        panic_entry_def gin_AbortWithStatusJSON_def gin_JSON_def)
qed

text \<open>For a path without a route the size -1 is observed: the page is written after the chain.\<close>

lemma unknown_route_has_no_size:
  fixes s :: "('l, ('d, 'r) app observed) server" and dp :: "('d, 'r) http_deps"
  assumes "rq_Method rq \<noteq> ''OPTIONS''"
  shows "\<exists>c s'. observed_router rl cfg ov dp prom NoRoute rq new_gin s = Some (None, c, s') \<and>
    series (hm_sizes (ob_http (sv_app s'))) (rq_Method rq, route_label ov) [] =
      series (hm_sizes (ob_http (sv_app s))) (rq_Method rq, route_label ov) [] @ [-1]"
proof -
  let ?R = "\<lambda>x y :: ('d, 'r) app observed. series (hm_sizes (ob_http y)) (rq_Method rq, route_label ov) [] =
      series (hm_sizes (ob_http x)) (rq_Method rq, route_label ov) [] @ [-1]"
  let ?h = "(\<lambda>rq c s. finish c s) :: (payload, 'l, ('d, 'r) app) observing"
  let ?b = "requestIDMiddleware (bodyLimitMiddleware (mc_MaxBodySize cfg) (loggerMiddleware ov
      (corsMiddleware (mc_AllowedOrigins cfg) (metricsMiddleware ov
        (tracingMiddleware (mc_SampleRate_positive cfg) ?h)))))"
  have h: "yields rq None (=) ?h" by (simp add: yields_def finish_def)
  have m: "?R x (y\<lparr>ob_http := record_request ov rq c (ob_http y)\<rparr>)" if "\<not> gn_written c" "x = y" for c x y
    using that by (simp add: record_request_def metric_observe_def series_def route_label_def writer_size_def Let_def)
  have "yields rq None ?R (metricsMiddleware ov (tracingMiddleware (mc_SampleRate_positive cfg) ?h))"
    unfolding metricsMiddleware_def [abs_def]
    by (rule yields_after [OF yields_outer(1) [OF h]]) (rule m)
  from yields_outer(4) [OF this assms] have "yields rq None ?R (loggerMiddleware ov
      (corsMiddleware (mc_AllowedOrigins cfg) (metricsMiddleware ov
        (tracingMiddleware (mc_SampleRate_positive cfg) ?h))))"
    unfolding loggerMiddleware_def [abs_def] by (rule yields_after) simp
  then have "yields rq None ?R ?b" by (intro yields_outer)
  moreover have "\<not> gn_written (new_gin\<lparr>gn_status := 404\<rparr> :: payload gin)" by (simp add: new_gin_def)
  ultimately obtain c' s' where "?b rq (new_gin\<lparr>gn_status := 404\<rparr>) s = Some (None, c', s')" "?R (sv_app s) (sv_app s')"
    by (rule yieldsE)
  then show ?thesis
    by (simp add: observed_router_def serveError_def observed_chain_def observed_recovery_def recoveryMiddleware_def Let_def)
qed

section \<open>The gRPC log\<close>

definition code_String :: "rpc_code option \<Rightarrow> gostring" where
  "code_String c =
     (case c of None \<Rightarrow> ''OK'' | Some InvalidArgument \<Rightarrow> ''InvalidArgument'' | Some Internal \<Rightarrow> ''Internal''
      | Some Unauthenticated \<Rightarrow> ''Unauthenticated'' | Some ResourceExhausted \<Rightarrow> ''ResourceExhausted'')"

definition rpc_log :: "log_entry \<Rightarrow> ('l, 't observed) rpc_server \<Rightarrow> ('l, 't observed) rpc_server" where
  "rpc_log e s = s\<lparr>rs_app := log_put e (rs_app s)\<rparr>"

text \<open>\<open>FullMethod\<close> and the duration are arguments.\<close>

definition LoggingInterceptor ::
  "gostring \<Rightarrow> int \<Rightarrow> ('q, 'p, 'l, 't observed) rpc_handler \<Rightarrow> ('q, 'p, 'l, 't observed) rpc_handler" where
  "LoggingInterceptor fullMethod duration h ctx req s =
     (case h ctx req s of
        None \<Rightarrow> None
      | Some (Panicked, s') \<Rightarrow> Some (Panicked, s')
      | Some (Returned x, s') \<Rightarrow>
          (let code = (case x of Inl (code, _) \<Rightarrow> Some code | Inr _ \<Rightarrow> None)
           in Some (Returned x, rpc_log (RpcEntry fullMethod (code_String code) duration) s')))"

definition observed_rpc_recovery ::
  "gostring \<Rightarrow> ('q, 'p, 'l, 't observed) rpc_handler \<Rightarrow> ('q, 'p, 'l, 't observed) rpc_handler" where
  "observed_rpc_recovery fullMethod h =
     RecoveryInterceptor (\<lambda>ctx req s.
       case h ctx req s of
         Some (Panicked, s') \<Rightarrow> Some (Panicked, rpc_log (RpcPanicEntry fullMethod) s')
       | x \<Rightarrow> x)"

definition observed_grpc_chain ::
  "gostring \<Rightarrow> int \<Rightarrow> 'l rate_library \<Rightarrow> gostring list \<Rightarrow> ('q, 'p, 'l, 't observed) rpc_handler \<Rightarrow>
   ('q, 'p, 'l, 't observed) rpc_handler" where
  "observed_grpc_chain fullMethod duration rl apiKeys h =
     observed_rpc_recovery fullMethod
      (LoggingInterceptor fullMethod duration (RateLimitInterceptor rl (AuthInterceptor apiKeys h)))"

definition forget_rpc :: "('l, 't observed) rpc_server \<Rightarrow> ('l, 't) rpc_server" where
  "forget_rpc s = \<lparr>rs_limiter = rs_limiter s, rs_app = ob_app (rs_app s)\<rparr>"

definition unobserved_rpc :: "('q, 'p, 'l, 't) rpc_handler \<Rightarrow> ('q, 'p, 'l, 't observed) rpc_handler" where
  "unobserved_rpc h ctx req s =
     (case h ctx req (forget_rpc s) of
        None \<Rightarrow> None
      | Some (x, s') \<Rightarrow> Some (x, \<lparr>rs_limiter = rs_limiter s', rs_app = (rs_app s)\<lparr>ob_app := rs_app s'\<rparr>\<rparr>))"

lemma forget_rpc_simps [simp]:
  "rs_limiter (forget_rpc s) = rs_limiter s" "forget_rpc (rpc_log e s) = forget_rpc s"
  "(forget_rpc s)\<lparr>rs_limiter := b\<rparr> = forget_rpc (s\<lparr>rs_limiter := b\<rparr>)"
  by (simp_all add: forget_rpc_def rpc_log_def)

text \<open>
  The calls of gRPC are answered as without the log, and each is logged once, with its code, or with the
  panic that ended it.
\<close>

lemma grpc_calls_are_recorded:
  "map_option (\<lambda>(x, s'). (x, forget_rpc s')) (observed_grpc_chain fm d rl ks (unobserved_rpc h) ctx req s) =
     grpc_chain rl ks h ctx req (forget_rpc s)"
  "observed_grpc_chain fm d rl ks (unobserved_rpc h) ctx req s = Some (x, s') \<Longrightarrow>
     \<exists>e. ob_log (rs_app s') = ob_log (rs_app s) @ logged (ob_logger (rs_app s)) [e] \<and>
       (e = RpcPanicEntry fm \<and> x = Returned (Inl (Internal, ''internal server error'')) \<or>
        (\<exists>y. x = Returned y \<and>
           e = RpcEntry fm (code_String (case y of Inl (code, _) \<Rightarrow> Some code | Inr _ \<Rightarrow> None)) d))"
proof -
  obtain ok b where b: "rt_allow rl (rc_now ctx) (rs_limiter s) = (ok, b)" by force
  let ?inner = "RateLimitInterceptor rl (AuthInterceptor ks (unobserved_rpc h)) ctx req s"
  have u: "map_option (\<lambda>(x, s'). (x, forget_rpc s')) (unobserved_rpc h ctx req s) = h ctx req (forget_rpc s)" for s
    by (simp add: unobserved_rpc_def forget_rpc_def split: option.splits prod.splits)
  have t: "map_option (\<lambda>(x, s'). (x, forget_rpc s')) ?inner =
      RateLimitInterceptor rl (AuthInterceptor ks h) ctx req (forget_rpc s)"
    by (auto simp: RateLimitInterceptor_def b AuthInterceptor_def u Let_def split: option.splits)
  have r: "ob_log (rs_app s1) = ob_log (rs_app s) \<and> ob_logger (rs_app s1) = ob_logger (rs_app s)"
    if "?inner = Some (y, s1)" for y s1
    using that
    by (auto simp: RateLimitInterceptor_def b AuthInterceptor_def unobserved_rpc_def Let_def
        split: option.splits if_splits)
  show "map_option (\<lambda>(x, s'). (x, forget_rpc s')) (observed_grpc_chain fm d rl ks (unobserved_rpc h) ctx req s) =
     grpc_chain rl ks h ctx req (forget_rpc s)"
  proof (cases ?inner)
    case None
    with t show ?thesis
      by (simp add: observed_grpc_chain_def observed_rpc_recovery_def RecoveryInterceptor_def LoggingInterceptor_def
          grpc_chain_def)
  next
    case (Some p)
    obtain y s1 where "p = (y, s1)" by (cases p)
    with t Some show ?thesis
      by (cases y) (simp_all add: observed_grpc_chain_def observed_rpc_recovery_def RecoveryInterceptor_def
          LoggingInterceptor_def grpc_chain_def Let_def flip: t)
  qed
  show "\<exists>e. ob_log (rs_app s') = ob_log (rs_app s) @ logged (ob_logger (rs_app s)) [e] \<and>
       (e = RpcPanicEntry fm \<and> x = Returned (Inl (Internal, ''internal server error'')) \<or>
        (\<exists>y. x = Returned y \<and> e = RpcEntry fm (code_String (case y of Inl (code, _) \<Rightarrow> Some code | Inr _ \<Rightarrow> None)) d))"
    if c: "observed_grpc_chain fm d rl ks (unobserved_rpc h) ctx req s = Some (x, s')"
  proof -
    obtain y s1 where y: "?inner = Some (y, s1)"
      using c by (cases ?inner) (auto simp: observed_grpc_chain_def observed_rpc_recovery_def
          RecoveryInterceptor_def LoggingInterceptor_def)
    from r [OF y] c y show ?thesis
      by (cases y) (auto simp: observed_grpc_chain_def observed_rpc_recovery_def RecoveryInterceptor_def
          LoggingInterceptor_def rpc_log_def Let_def)
  qed
qed

end
