(* ===== verification/Lifecycle.thy ===== *)
theory Lifecycle
  imports System Observers
begin

text \<open>
  The life of the process in \<open>cmd/server/main.go\<close>: opening the logger, the tracer and the connections
  (\<open>infrastructure/trace\<close>, \<open>infrastructure/database\<close>, \<open>persistence/mysql/migration.go\<close>), what is deferred, the two
  goroutines that serve, and the shutdown after a signal, as a trace of events with their times. How long the
  others take is a parameter; the main goroutine itself is a sequence.
\<close>

section \<open>Opening connections\<close>

datatype gorm_log = GormWarn | GormInfo

record redis_options =
  ro_Addr :: gostring
  ro_Password :: gostring
  ro_DB :: int
  ro_PoolSize :: int

datatype sampler = AlwaysSample | TraceIDRatioBased float64

record tracer_provider =
  tp_endpoint :: gostring
  tp_sampler :: sampler

text \<open>The libraries: each call that can fail, with its error.\<close>

record ('d, 'r) connections =
  op_parse_level :: "gostring \<Rightarrow> log_level option"
  op_open_file :: "gostring \<Rightarrow> error option"
  op_exporter :: "gostring \<Rightarrow> error option"
  op_resource :: "error option"
  op_gorm :: "gostring \<Rightarrow> gorm_log \<Rightarrow> 'd result"
  op_sql_db :: "'d \<Rightarrow> error option"
  op_migrate :: "'d \<Rightarrow> 'd result"
  op_redis_client :: "redis_options \<Rightarrow> 'r"
  op_ping :: "'r \<Rightarrow> error option"

text \<open>\<open>x >= 1.0\<close> on the bits of a \<open>float64\<close>: from 1 up to infinity, and no NaN.\<close>

definition float_at_least_1 :: "float64 \<Rightarrow> bool" where
  "float_at_least_1 x \<longleftrightarrow> 0x3FF0000000000000 \<le> x \<and> x \<le> 0x7FF0000000000000"

text \<open>Without an endpoint there is no tracer, and nothing to shut down.\<close>

definition InitTracer :: "('d, 'r) connections \<Rightarrow> Config \<Rightarrow> tracer_provider option result" where
  "InitTracer o' cfg =
     (let t = cf_Trace cfg in
      if tr_Endpoint t = [] then Inr None
      else case op_exporter o' (tr_Endpoint t) of
          Some err \<Rightarrow> Inl err
        | None \<Rightarrow>
            (case op_resource o' of
               Some err \<Rightarrow> Inl err
             | None \<Rightarrow> Inr (Some \<lparr>tp_endpoint = tr_Endpoint t,
                 tp_sampler = (if float_at_least_1 (tr_SampleRate t) then AlwaysSample
                               else TraceIDRatioBased (tr_SampleRate t))\<rparr>)))"

definition NewMySQL :: "('d, 'r) connections \<Rightarrow> Config \<Rightarrow> ('d \<times> sql_pool) result" where
  "NewMySQL o' cfg =
     (let logLevel = (if lg_Level (cf_Log cfg) = ''debug'' then GormInfo else GormWarn) in
      case op_gorm o' (db_DSN (cf_Database cfg)) logLevel of
        Inl err \<Rightarrow> Inl err
      | Inr db \<Rightarrow> (case op_sql_db o' db of Some err \<Rightarrow> Inl err | None \<Rightarrow> Inr (db, pool_settings cfg)))"

definition AutoMigrate :: "('d, 'r) connections \<Rightarrow> 'd \<Rightarrow> 'd result" where
  "AutoMigrate o' db = op_migrate o' db"

definition NewRedis :: "('d, 'r) connections \<Rightarrow> Config \<Rightarrow> 'r result" where
  "NewRedis o' cfg =
     (let rc = cf_Redis cfg;
          client = op_redis_client o' \<lparr>ro_Addr = rd_Addr rc, ro_Password = rd_Password rc, ro_DB = rd_DB rc,
            ro_PoolSize = rd_PoolSize rc\<rparr>
      in case op_ping o' client of Some err \<Rightarrow> Inl err | None \<Rightarrow> Inr client)"

section \<open>Traces\<close>

datatype process_resource = LogSync | TracerProvider | MySQLPool | RedisClient | PollContext | ShutdownContext

datatype event =
    Opened process_resource
  | Released process_resource
  | Printed gostring
  | Logged log_level gostring
  | PollStarted
  | Serving
  | Signalled
  | PollCancelled
  | GrpcStopped bool
  | HttpStopped bool
  | ProcessExit int

text \<open>What a goroutine has done, what it has deferred, and the clock.\<close>

record process =
  pr_trace :: "(instant \<times> event) list"
  pr_defers :: "process_resource list"
  pr_now :: instant

definition emit :: "event \<Rightarrow> process \<Rightarrow> process" where
  "emit e p = p\<lparr>pr_trace := pr_trace p @ [(pr_now p, e)]\<rparr>"

definition log_line :: "log_level \<Rightarrow> gostring \<Rightarrow> process \<Rightarrow> process" where
  "log_line l m = emit (Logged l m)"

definition acquire :: "process_resource \<Rightarrow> process \<Rightarrow> process" where
  "acquire r p = (emit (Opened r) p)\<lparr>pr_defers := r # pr_defers p\<rparr>"

definition pass_time :: "duration \<Rightarrow> process \<Rightarrow> process" where
  "pass_time d p = p\<lparr>pr_now := pr_now p + d\<rparr>"

text \<open>\<open>os.Exit\<close>, and \<open>log.Fatal\<close>, which ends with it: nothing that was deferred runs.\<close>

definition os_Exit :: "int \<Rightarrow> process \<Rightarrow> process" where
  "os_Exit n = emit (ProcessExit n)"

definition log_Fatal :: "gostring \<Rightarrow> process \<Rightarrow> process" where
  "log_Fatal m p = os_Exit 1 (log_line FatalLevel m p)"

text \<open>The end of \<open>main\<close>: what was deferred, last first, then the exit.\<close>

fun run_defers :: "(process_resource \<Rightarrow> duration) \<Rightarrow> process_resource list \<Rightarrow> process \<Rightarrow> process" where
  "run_defers takes [] p = p"
| "run_defers takes (r # rs) p = run_defers takes rs (emit (Released r) (pass_time (takes r) p))"

definition return_main :: "(process_resource \<Rightarrow> duration) \<Rightarrow> process \<Rightarrow> process" where
  "return_main takes p = os_Exit 0 (run_defers takes (pr_defers p) p)"

section \<open>Starting\<close>

definition new_process :: "instant \<Rightarrow> process" where
  "new_process t = \<lparr>pr_trace = [], pr_defers = [], pr_now = t\<rparr>"

text \<open>The rest of \<open>main\<close> from the connections on, which uses theory \<open>System\<close> for the construction.\<close>

definition start_with ::
  "'l rate_library \<Rightarrow> ('d, 'r) word_deps \<Rightarrow> ('d \<Rightarrow> ('d, range_order) tick) \<Rightarrow> range_order \<Rightarrow> Config \<Rightarrow> 'd \<Rightarrow> 'r \<Rightarrow>
   process \<Rightarrow> (process \<times> ('l, 'd, 'r) program started) option" where
  "start_with rl dp tk ord cfg db rdb p =
     (let p = acquire PollContext p in
      case build rl dp (tk db) ord cfg db rdb of
        None \<Rightarrow> None
      | Some (Exited m) \<Rightarrow> Some (log_Fatal m p, Exited m)
      | Some (Running g) \<Rightarrow> Some (emit Serving (emit PollStarted p), Running g))"

definition connect ::
  "'l rate_library \<Rightarrow> ('d, 'r) word_deps \<Rightarrow> ('d, 'r) connections \<Rightarrow> ('d \<Rightarrow> ('d, range_order) tick) \<Rightarrow> range_order \<Rightarrow> Config \<Rightarrow>
   process \<Rightarrow> (process \<times> ('l, 'd, 'r) program started) option" where
  "connect rl dp o' tk ord cfg p =
     (case NewMySQL o' cfg of
        Inl err \<Rightarrow> Some (log_Fatal ''failed to connect MySQL'' p, Exited ''failed to connect MySQL'')
      | Inr (db0, pool) \<Rightarrow>
          (let p = log_line InfoLevel ''Running database migration...'' (acquire MySQLPool
                 (log_line InfoLevel ''MySQL connected'' p)) in
           case AutoMigrate o' db0 of
             Inl err \<Rightarrow> Some (log_Fatal ''failed to migrate database'' p, Exited ''failed to migrate database'')
           | Inr db \<Rightarrow>
               (let p = log_line InfoLevel ''Database migration completed'' p in
                case NewRedis o' cfg of
                  Inl err \<Rightarrow> Some (log_Fatal ''failed to connect Redis'' p, Exited ''failed to connect Redis'')
                | Inr rdb \<Rightarrow>
                    start_with rl dp tk ord cfg db rdb (acquire RedisClient (log_line InfoLevel ''Redis connected'' p)))))"

definition init_tracer :: "('d, 'r) connections \<Rightarrow> Config \<Rightarrow> process \<Rightarrow> process" where
  "init_tracer o' cfg p =
     (case InitTracer o' cfg of
        Inl err \<Rightarrow> log_line WarnLevel ''failed to init tracer, continuing without tracing'' p
      | Inr None \<Rightarrow> log_line InfoLevel ''Tracing disabled: no endpoint configured'' p
      | Inr (Some tp) \<Rightarrow> acquire TracerProvider (log_line InfoLevel ''Tracer initialized'' p))"

definition startup ::
  "'l rate_library \<Rightarrow> ('d, 'r) word_deps \<Rightarrow> 'v viper_library \<Rightarrow> (gostring \<Rightarrow> gostring) \<Rightarrow> (gostring \<Rightarrow> bool) \<Rightarrow>
   ('d, 'r) connections \<Rightarrow> ('d \<Rightarrow> ('d, range_order) tick) \<Rightarrow> range_order \<Rightarrow> gostring \<Rightarrow> gostring \<Rightarrow> process \<Rightarrow>
   (process \<times> ('l, 'd, 'r) program started) option" where
  "startup rl dp vl getenv file_exists o' tk ord configPath env p =
     (case LoadWithEnv vl getenv file_exists configPath env of
        Inl err \<Rightarrow> Some (os_Exit 1 (emit (Printed ''failed to load config'') p), Exited ''failed to load config'')
      | Inr cfg \<Rightarrow>
          (case NewLogger (op_parse_level o') (op_open_file o') (lg_Level (cf_Log cfg)) (lg_Format (cf_Log cfg))
                  (lg_Output (cf_Log cfg)) of
             Inl err \<Rightarrow> Some (os_Exit 1 (emit (Printed ''failed to init logger'') p), Exited ''failed to init logger'')
           | Inr lg \<Rightarrow>
               connect rl dp o' tk ord cfg
                 (init_tracer o' cfg (log_line InfoLevel ''Starting CensorHub'' (acquire LogSync p)))))"

text \<open>The surroundings theory \<open>System\<close> starts from, made of these calls.\<close>

definition surroundings_of ::
  "'v viper_library \<Rightarrow> (gostring \<Rightarrow> gostring) \<Rightarrow> (gostring \<Rightarrow> bool) \<Rightarrow> ('d, 'r) connections \<Rightarrow>
   ('d \<Rightarrow> ('d, range_order) tick) \<Rightarrow> range_order \<Rightarrow> ('v, 'd, 'r) surroundings" where
  "surroundings_of vl getenv file_exists o' tk ord =
     \<lparr>su_viper = vl, su_getenv = getenv, su_exists = file_exists,
      su_logger = (\<lambda>lc. case NewLogger (op_parse_level o') (op_open_file o') (lg_Level lc) (lg_Format lc) (lg_Output lc) of
        Inl err \<Rightarrow> Some err | Inr _ \<Rightarrow> None),
      su_mysql = (\<lambda>cfg. case NewMySQL o' cfg of Inl err \<Rightarrow> Inl err | Inr (db, pool) \<Rightarrow> Inr db),
      su_migrate = AutoMigrate o', su_redis = NewRedis o', su_order = ord, su_tick = tk\<rparr>"

lemma startup_is_main:
  "map_option snd (startup rl dp vl getenv file_exists o' tk ord configPath env p) =
   main rl dp (surroundings_of vl getenv file_exists o' tk ord) configPath env"
  by (simp add: startup_def connect_def start_with_def main_def surroundings_of_def Let_def
      split: sum.splits option.splits started.splits prod.splits)

section \<open>Serving and stopping\<close>

text \<open>
  What \<open>main\<close> waits for: how long after the start the signal comes, how long the polling loop, the calls of gRPC
  and the requests of HTTP in flight take to end, if they do, and the release of each resource.
\<close>

record stopping =
  sh_signal :: duration
  sh_poll_exit :: "duration option"
  sh_grpc_done :: "duration option"
  sh_http_done :: "duration option"
  sh_http_err :: "error option"
  sh_release :: "process_resource \<Rightarrow> duration"

text \<open>A \<open>select\<close> on the end of something and a timer; if both are due at once the end counts.\<close>

definition wait_for :: "duration \<Rightarrow> duration option \<Rightarrow> bool \<times> duration" where
  "wait_for limit x = (case x of None \<Rightarrow> (False, limit) | Some d \<Rightarrow> if d \<le> limit then (True, d) else (False, limit))"

text \<open>\<open>WordAppService.Close\<close> once the loop is cancelled.\<close>

definition Close_wait :: "pollConfig \<Rightarrow> duration option \<Rightarrow> process \<Rightarrow> process" where
  "Close_wait cfg x p =
     (let (exited, d) = wait_for (pc_shutdownTimeout cfg) x; p' = pass_time d p
      in if exited then p' else log_line WarnLevel ''Close timed out waiting for pollLoop to exit'' p')"

definition stop_grpc :: "duration option \<Rightarrow> process \<Rightarrow> process" where
  "stop_grpc x p =
     (let (finished, d) = wait_for (5 * second) x; p' = pass_time d p
      in emit (GrpcStopped finished)
           (if finished then log_line InfoLevel ''gRPC server stopped gracefully'' p'
            else log_line WarnLevel ''gRPC graceful stop timeout, forcing stop'' p'))"

text \<open>\<open>Shutdown\<close> returns the error of its context when the deadline comes first.\<close>

definition stop_http :: "instant \<Rightarrow> duration option \<Rightarrow> error option \<Rightarrow> process \<Rightarrow> process" where
  "stop_http deadline x err p =
     (let (finished, d) = wait_for (deadline - pr_now p) x; p' = pass_time d p; ok = (finished \<and> err = None)
      in emit (HttpStopped finished)
           (if ok then p' else log_line ErrorLevel ''HTTP server forced shutdown'' p'))"

definition after_signal :: "pollConfig \<Rightarrow> stopping \<Rightarrow> process \<Rightarrow> process" where
  "after_signal cfg w p =
     acquire ShutdownContext (Close_wait cfg (sh_poll_exit w)
       (emit PollCancelled (log_line InfoLevel ''Shutting down server...'' (emit Signalled (pass_time (sh_signal w) p)))))"

definition after_grpc :: "pollConfig \<Rightarrow> stopping \<Rightarrow> process \<Rightarrow> process" where
  "after_grpc cfg w p = stop_grpc (sh_grpc_done w) (after_signal cfg w p)"

definition after_http :: "pollConfig \<Rightarrow> stopping \<Rightarrow> process \<Rightarrow> process" where
  "after_http cfg w p =
     stop_http (pr_now (after_signal cfg w p) + 10 * second) (sh_http_done w) (sh_http_err w) (after_grpc cfg w p)"

definition shutdown_main :: "pollConfig \<Rightarrow> stopping \<Rightarrow> process \<Rightarrow> process" where
  "shutdown_main cfg w p =
     return_main (sh_release w) (log_line InfoLevel ''Server exited gracefully'' (after_http cfg w p))"

section \<open>The goroutines that serve\<close>

text \<open>
  \<open>grpcSrv.Serve\<close> is called once the listener is there, returns nil when the server is stopped while it serves,
  and an error when it is called after that. \<open>ListenAndServe\<close> returns \<open>ErrServerClosed\<close> from the
  shutdown on. Any other end is fatal.
\<close>

record goroutines =
  go_listen :: "error option"
  go_serve_at :: instant
  go_serve_fails :: "instant option"
  go_http_fails :: "instant option"

definition grpc_goroutine :: "goroutines \<Rightarrow> instant \<Rightarrow> (instant \<times> gostring) option" where
  "grpc_goroutine go stop_at =
     (if go_listen go \<noteq> None then Some (go_serve_at go, ''failed to listen gRPC'')
      else if stop_at \<le> go_serve_at go then Some (go_serve_at go, ''gRPC server failed'')
      else case go_serve_fails go of
          Some t \<Rightarrow> (if t < stop_at then Some (t, ''gRPC server failed'') else None)
        | None \<Rightarrow> None)"

definition http_goroutine :: "goroutines \<Rightarrow> instant \<Rightarrow> (instant \<times> gostring) option" where
  "http_goroutine go shutdown_at =
     (case go_http_fails go of
        Some t \<Rightarrow> (if t < shutdown_at then Some (t, ''HTTP server failed'') else None)
      | None \<Rightarrow> None)"

text \<open>The first fatal end before \<open>main\<close> has returned.\<close>

definition first_fatal :: "pollConfig \<Rightarrow> stopping \<Rightarrow> goroutines \<Rightarrow> process \<Rightarrow> (instant \<times> gostring) option" where
  "first_fatal cfg w go p =
     (let before = (\<lambda>x. case x of Some (t, m) \<Rightarrow> if t < pr_now (shutdown_main cfg w p) then Some (t, m) else None | None \<Rightarrow> None)
      in case (before (grpc_goroutine go (pr_now (after_signal cfg w p))),
               before (http_goroutine go (pr_now (after_grpc cfg w p)))) of
           (Some (t, m), Some (t', m')) \<Rightarrow> Some (if t' < t then (t', m') else (t, m))
         | (Some x, None) \<Rightarrow> Some x
         | (None, y) \<Rightarrow> y)"

definition die_at :: "instant \<Rightarrow> gostring \<Rightarrow> (instant \<times> event) list \<Rightarrow> (instant \<times> event) list" where
  "die_at t m tr = takeWhile (\<lambda>x. fst x < t) tr @ [(t, Logged FatalLevel m), (t, ProcessExit 1)]"

definition run_process :: "pollConfig \<Rightarrow> stopping \<Rightarrow> goroutines \<Rightarrow> process \<Rightarrow> (instant \<times> event) list" where
  "run_process cfg w go p =
     (case first_fatal cfg w go p of
        None \<Rightarrow> pr_trace (shutdown_main cfg w p)
      | Some (t, m) \<Rightarrow> die_at t m (pr_trace (shutdown_main cfg w p)))"

section \<open>What is released\<close>

definition opened :: "(instant \<times> event) list \<Rightarrow> process_resource list" where
  "opened tr = concat (map (\<lambda>x. case snd x of Opened r \<Rightarrow> [r] | _ \<Rightarrow> []) tr)"

definition released :: "(instant \<times> event) list \<Rightarrow> process_resource list" where
  "released tr = concat (map (\<lambda>x. case snd x of Released r \<Rightarrow> [r] | _ \<Rightarrow> []) tr)"

lemma opened_simps [simp]:
  "opened [] = []" "opened (xs @ ys) = opened xs @ opened ys"
  "opened (x # xs) = (case snd x of Opened r \<Rightarrow> [r] | _ \<Rightarrow> []) @ opened xs"
  by (simp_all add: opened_def)

lemma released_simps [simp]:
  "released [] = []" "released (xs @ ys) = released xs @ released ys"
  "released (x # xs) = (case snd x of Released r \<Rightarrow> [r] | _ \<Rightarrow> []) @ released xs"
  by (simp_all add: released_def)

text \<open>Nothing is released yet, and what is deferred is what was opened, each once.\<close>

definition holding :: "process \<Rightarrow> bool" where
  "holding p \<longleftrightarrow> released (pr_trace p) = [] \<and> pr_defers p = rev (opened (pr_trace p)) \<and> distinct (opened (pr_trace p))"

definition uneventful :: "event \<Rightarrow> bool" where
  "uneventful e \<longleftrightarrow> (case e of Opened _ \<Rightarrow> False | Released _ \<Rightarrow> False | _ \<Rightarrow> True)"

lemma uneventful_simps [simp]:
  "uneventful (Logged l m)" "uneventful (Printed m)" "uneventful PollStarted" "uneventful Serving" "uneventful Signalled"
  "uneventful PollCancelled" "uneventful (GrpcStopped b)" "uneventful (HttpStopped b)" "uneventful (ProcessExit n)"
  by (simp_all add: uneventful_def)

lemma emit_simps [simp]:
  "pr_trace (emit e p) = pr_trace p @ [(pr_now p, e)]" "pr_defers (emit e p) = pr_defers p" "pr_now (emit e p) = pr_now p"
  by (simp_all add: emit_def)

lemma log_line_simps [simp]:
  "pr_trace (log_line l m p) = pr_trace p @ [(pr_now p, Logged l m)]" "pr_defers (log_line l m p) = pr_defers p"
  "pr_now (log_line l m p) = pr_now p"
  by (simp_all add: log_line_def)

lemma acquire_simps [simp]:
  "pr_trace (acquire r p) = pr_trace p @ [(pr_now p, Opened r)]" "pr_defers (acquire r p) = r # pr_defers p"
  "pr_now (acquire r p) = pr_now p"
  by (simp_all add: acquire_def)

lemma pass_time_simps [simp]:
  "pr_trace (pass_time d p) = pr_trace p" "pr_defers (pass_time d p) = pr_defers p" "pr_now (pass_time d p) = pr_now p + d"
  by (simp_all add: pass_time_def)

lemma holding_emit [simp]: "uneventful e \<Longrightarrow> holding (emit e p) = holding p"
  by (cases e) (simp_all add: holding_def uneventful_def)

lemma holding_log [simp]: "holding (log_line l m p) = holding p"
  by (simp add: log_line_def)

lemma holding_pass_time [simp]: "holding (pass_time d p) = holding p"
  by (simp add: holding_def)

lemma holding_acquire: "holding p \<Longrightarrow> r \<notin> set (pr_defers p) \<Longrightarrow> holding (acquire r p)"
  by (auto simp: holding_def)

lemma run_defers_trace:
  "opened (pr_trace (run_defers takes rs p)) = opened (pr_trace p)"
  "released (pr_trace (run_defers takes rs p)) = released (pr_trace p) @ rs"
  "pr_now (run_defers takes rs p) = pr_now p + sum_list (map takes rs)"
  by (induction rs arbitrary: p) (auto simp: algebra_simps)

lemma run_defers_extends: "\<exists>ys. pr_trace (run_defers takes rs p) = pr_trace p @ ys"
proof (induction rs arbitrary: p)
  case (Cons r rs)
  from Cons [of "emit (Released r) (pass_time (takes r) p)"] show ?case by auto
qed simp

lemma return_main_ok:
  assumes "holding p"
  shows "released (pr_trace (return_main takes p)) = rev (opened (pr_trace (return_main takes p))) \<and>
    opened (pr_trace (return_main takes p)) = opened (pr_trace p) \<and>
    snd (last (pr_trace (return_main takes p))) = ProcessExit 0 \<and>
    pr_now (return_main takes p) = pr_now p + sum_list (map takes (pr_defers p)) \<and>
    (\<exists>ys. pr_trace (return_main takes p) = pr_trace p @ ys)"
  using assms run_defers_extends [of takes "pr_defers p" p]
  by (auto simp: return_main_def os_Exit_def holding_def run_defers_trace)

text \<open>\<open>main\<close> up to serving holds what it opened; where it exits, it has released nothing.\<close>

definition started_ok :: "process \<times> 'p started \<Rightarrow> bool" where
  "started_ok x \<longleftrightarrow>
     (case x of
        (p, Running g) \<Rightarrow> holding p \<and> ShutdownContext \<notin> set (pr_defers p) \<and>
          {LogSync, MySQLPool, RedisClient, PollContext} \<subseteq> set (pr_defers p)
      | (p, Exited m) \<Rightarrow> released (pr_trace p) = [] \<and> snd (last (pr_trace p)) = ProcessExit 1)"

lemma started_ok_simps [simp]:
  "started_ok (p, Running g) \<longleftrightarrow> holding p \<and> ShutdownContext \<notin> set (pr_defers p) \<and>
     {LogSync, MySQLPool, RedisClient, PollContext} \<subseteq> set (pr_defers p)"
  "holding p \<Longrightarrow> started_ok (log_Fatal m p, Exited m')"
  by (simp_all add: started_ok_def log_Fatal_def os_Exit_def holding_def)

lemma start_with_ok:
  assumes "start_with rl dp tk ord cfg db rdb p = Some y" "holding p"
    and "set (pr_defers p) \<inter> {PollContext, ShutdownContext} = {}" "{LogSync, MySQLPool, RedisClient} \<subseteq> set (pr_defers p)"
  shows "started_ok y"
proof -
  have h: "holding (acquire PollContext p)" using assms(2,3) by (simp add: holding_acquire)
  with assms(1,3,4) show ?thesis
    by (auto simp: start_with_def Let_def split: option.splits started.splits)
qed

lemma connect_ok:
  assumes "connect rl dp o' tk ord cfg p = Some y" "holding p" "set (pr_defers p) \<subseteq> {LogSync, TracerProvider}"
    and "LogSync \<in> set (pr_defers p)"
  shows "started_ok y"
proof (cases "NewMySQL o' cfg")
  case (Inl e)
  with assms show ?thesis by (auto simp: connect_def)
next
  case (Inr dbp)
  obtain db0 pool where db0: "dbp = (db0, pool)" by (cases dbp)
  define p1 where "p1 = acquire MySQLPool (log_line InfoLevel ''MySQL connected'' p)"
  have h1: "holding p1" using assms(2,3) by (auto simp: p1_def intro!: holding_acquire)
  show ?thesis
  proof (cases "AutoMigrate o' db0")
    case Inl': (Inl e)
    with assms(1) Inr db0 h1 show ?thesis by (auto simp: connect_def p1_def [symmetric] Let_def)
  next
    case Inr': (Inr db)
    show ?thesis
    proof (cases "NewRedis o' cfg")
      case (Inl e)
      with assms(1) Inr Inr' db0 h1 show ?thesis by (auto simp: connect_def p1_def [symmetric] Let_def)
    next
      case r: (Inr rdb)
      define p2 where "p2 = acquire RedisClient (log_line InfoLevel ''Redis connected''
        (log_line InfoLevel ''Database migration completed'' (log_line InfoLevel ''Running database migration...'' p1)))"
      have d: "pr_defers p2 = RedisClient # MySQLPool # pr_defers p" by (simp add: p2_def p1_def)
      have "RedisClient \<notin> set (pr_defers p1)" using assms(3) by (auto simp: p1_def)
      then have "holding p2" using h1 by (auto simp: p2_def intro!: holding_acquire)
      moreover have "start_with rl dp tk ord cfg db rdb p2 = Some y"
        using assms(1) Inr Inr' db0 r by (simp add: connect_def p1_def p2_def Let_def)
      ultimately show ?thesis using start_with_ok [of rl dp tk ord cfg db rdb p2 y] assms(3,4) d by auto
    qed
  qed
qed

lemma startup_holds:
  assumes "startup rl dp vl getenv file_exists o' tk ord configPath env (new_process t) = Some y"
  shows "started_ok y"
proof (cases "LoadWithEnv vl getenv file_exists configPath env")
  case (Inl e)
  with assms show ?thesis by (auto simp: startup_def started_ok_def os_Exit_def new_process_def)
next
  case (Inr cfg)
  let ?l = "NewLogger (op_parse_level o') (op_open_file o') (lg_Level (cf_Log cfg)) (lg_Format (cf_Log cfg)) (lg_Output (cf_Log cfg))"
  show ?thesis
  proof (cases ?l)
    case Inl': (Inl e)
    with assms Inr show ?thesis by (auto simp: startup_def started_ok_def os_Exit_def new_process_def)
  next
    case Inr': (Inr lg)
    define p where "p = log_line InfoLevel ''Starting CensorHub'' (acquire LogSync (new_process t))"
    have p: "holding p" "pr_defers p = [LogSync]"
      by (simp_all add: p_def) (simp_all add: holding_def new_process_def)
    then have "holding (init_tracer o' cfg p)" "set (pr_defers (init_tracer o' cfg p)) \<subseteq> {LogSync, TracerProvider}"
      "LogSync \<in> set (pr_defers (init_tracer o' cfg p))"
      by (auto simp: init_tracer_def intro!: holding_acquire split: sum.splits option.splits)
    moreover have "connect rl dp o' tk ord cfg (init_tracer o' cfg p) = Some y"
      using assms Inr Inr' by (simp add: startup_def p_def)
    ultimately show ?thesis by (intro connect_ok)
  qed
qed

section \<open>Shutting down\<close>

lemma wait_for_le: "wait_for l x = (b, d) \<Longrightarrow> d \<le> l"
  by (auto simp: wait_for_def split: option.splits if_splits)

lemma after_signal_ok:
  assumes "holding p" "ShutdownContext \<notin> set (pr_defers p)"
  shows "holding (after_signal cfg w p) \<and> pr_defers (after_signal cfg w p) = ShutdownContext # pr_defers p \<and>
    (\<exists>u. (u, PollCancelled) \<in> set (pr_trace (after_signal cfg w p))) \<and>
    pr_now (after_signal cfg w p) \<le> pr_now p + sh_signal w + pc_shutdownTimeout cfg"
proof -
  define p1 where "p1 = emit PollCancelled (log_line InfoLevel ''Shutting down server...''
    (emit Signalled (pass_time (sh_signal w) p)))"
  obtain b d where d: "wait_for (pc_shutdownTimeout cfg) (sh_poll_exit w) = (b, d)" by force
  define p2 where "p2 = Close_wait cfg (sh_poll_exit w) p1"
  have p1: "holding p1" "pr_defers p1 = pr_defers p" "(pr_now p1, PollCancelled) \<in> set (pr_trace p1)"
    "pr_now p1 = pr_now p + sh_signal w"
    using assms(1) by (simp_all add: p1_def)
  then have p2: "holding p2" "pr_defers p2 = pr_defers p" "(pr_now p1, PollCancelled) \<in> set (pr_trace p2)"
    "pr_now p2 = pr_now p + sh_signal w + d"
    by (auto simp: p2_def Close_wait_def d Let_def)
  have "after_signal cfg w p = acquire ShutdownContext p2" by (simp add: after_signal_def p1_def p2_def)
  with p2 assms(2) wait_for_le [OF d] show ?thesis by (auto intro: holding_acquire)
qed

lemma after_grpc_ok:
  assumes "holding p" "ShutdownContext \<notin> set (pr_defers p)"
  shows "holding (after_grpc cfg w p) \<and> pr_defers (after_grpc cfg w p) = ShutdownContext # pr_defers p \<and>
    (\<exists>u. (u, PollCancelled) \<in> set (pr_trace (after_grpc cfg w p))) \<and>
    (\<exists>u b. (u, GrpcStopped b) \<in> set (pr_trace (after_grpc cfg w p))) \<and>
    pr_now (after_grpc cfg w p) \<le> pr_now (after_signal cfg w p) + 5 * second"
proof -
  obtain b d where d: "wait_for (5 * second) (sh_grpc_done w) = (b, d)" by force
  from after_signal_ok [OF assms, of cfg w] wait_for_le [OF d] show ?thesis
    unfolding after_grpc_def stop_grpc_def d Let_def prod.case by auto
qed

lemma after_http_ok:
  assumes "holding p" "ShutdownContext \<notin> set (pr_defers p)"
  shows "\<exists>xs u b. holding (after_http cfg w p) \<and> pr_defers (after_http cfg w p) = ShutdownContext # pr_defers p \<and>
    pr_trace (after_http cfg w p) = xs @ [(u, HttpStopped b)] \<and> released xs = [] \<and>
    (\<exists>v. (v, PollCancelled) \<in> set xs) \<and> (\<exists>v c. (v, GrpcStopped c) \<in> set xs) \<and>
    pr_now (after_http cfg w p) \<le> pr_now p + sh_signal w + pc_shutdownTimeout cfg + 10 * second"
proof -
  let ?g = "after_grpc cfg w p" and ?deadline = "pr_now (after_signal cfg w p) + 10 * second"
  note g = after_grpc_ok [OF assms, of cfg w]
  obtain b d where d: "wait_for (?deadline - pr_now ?g) (sh_http_done w) = (b, d)" by force
  define xs where "xs = pr_trace ?g @
    (if b \<and> sh_http_err w = None then [] else [(pr_now ?g + d, Logged ErrorLevel ''HTTP server forced shutdown'')])"
  have "pr_trace (after_http cfg w p) = xs @ [(pr_now ?g + d, HttpStopped b)]"
    "pr_now (after_http cfg w p) = pr_now ?g + d" "pr_defers (after_http cfg w p) = pr_defers ?g"
    unfolding after_http_def stop_http_def d Let_def prod.case xs_def by simp_all
  moreover from this have "holding (after_http cfg w p)" using g by (auto simp: holding_def xs_def)
  moreover have "released xs = []" using g by (auto simp: holding_def xs_def)
  moreover have "pr_now ?g + d \<le> ?deadline" using wait_for_le [OF d] by simp
  ultimately show ?thesis using g after_signal_ok [OF assms, of cfg w] by (fastforce simp: xs_def)
qed


text \<open>
  A fatal end releases nothing: wherever \<open>main\<close> exits while it starts, and whenever a goroutine calls
  \<open>log.Fatal\<close> before \<open>main\<close> has stopped both servers, the process exits with code 1 and
  none of the deferred functions runs; the spans the tracer still holds are lost with it.
\<close>

theorem fatal_end_releases_nothing:
  assumes "startup rl dp vl getenv file_exists o' tk ord configPath env (new_process t) = Some (p, x)"
  shows "(\<forall>m. x = Exited m \<longrightarrow> released (pr_trace p) = [] \<and> snd (last (pr_trace p)) = ProcessExit 1) \<and>
    (\<forall>g u m. x = Running g \<and> first_fatal cfg w go p = Some (u, m) \<and> u \<le> pr_now (after_http cfg w p) \<longrightarrow>
       released (run_process cfg w go p) = [] \<and> last (run_process cfg w go p) = (u, ProcessExit 1))"
proof (intro conjI allI impI)
  show "released (pr_trace p) = []" "snd (last (pr_trace p)) = ProcessExit 1" if "x = Exited m" for m
    using startup_holds [OF assms] that by (simp_all add: started_ok_def)
next
  fix g u m
  assume x: "x = Running g \<and> first_fatal cfg w go p = Some (u, m) \<and> u \<le> pr_now (after_http cfg w p)"
  let ?h = "after_http cfg w p" and ?P = "\<lambda>y :: instant \<times> event. fst y < u"
  have p: "holding p" "ShutdownContext \<notin> set (pr_defers p)" using startup_holds [OF assms] x by simp_all
  from after_http_ok [OF this, of cfg w] have "released (pr_trace ?h) = []" by (auto simp: holding_def)
  then have no: "\<forall>y \<in> set (pr_trace ?h). \<forall>r. snd y \<noteq> Released r" by (auto simp: released_def)
  define q where "q = log_line InfoLevel ''Server exited gracefully'' ?h"
  obtain zs where "pr_trace (run_defers (sh_release w) (pr_defers q) q) = pr_trace q @ zs"
    using run_defers_extends by blast
  then obtain ws where ws: "pr_trace (shutdown_main cfg w p) =
      pr_trace ?h @ (pr_now ?h, Logged InfoLevel ''Server exited gracefully'') # ws"
    by (simp add: shutdown_main_def return_main_def os_Exit_def q_def)
  have "set (takeWhile ?P (pr_trace (shutdown_main cfg w p))) \<subseteq> set (pr_trace ?h)"
    using x by (auto simp: ws takeWhile_append dest: set_takeWhileD)
  with no have "released (takeWhile ?P (pr_trace (shutdown_main cfg w p))) = []"
    by (fastforce simp: released_def split: event.splits)
  with x show "released (run_process cfg w go p) = []" "last (run_process cfg w go p) = (u, ProcessExit 1)"
    by (simp_all add: run_process_def die_at_def)
qed

section \<open>An example\<close>

definition sample_connections :: "(table, (gostring, bytes) gomap) connections" where
  "sample_connections =
     \<lparr>op_parse_level = (\<lambda>_. None), op_open_file = (\<lambda>_. None), op_exporter = (\<lambda>_. None), op_resource = None,
      op_gorm = (\<lambda>_ _. Inr (sample_table [])), op_sql_db = (\<lambda>_. None), op_migrate = (\<lambda>_. Inr (sample_table [])),
      op_redis_client = (\<lambda>_. []), op_ping = (\<lambda>_. None)\<rparr>"

definition sample_stopping :: stopping where
  "sample_stopping =
     \<lparr>sh_signal = 1, sh_poll_exit = Some 0, sh_grpc_done = None, sh_http_done = Some 0, sh_http_err = None,
      sh_release = (\<lambda>_. 0)\<rparr>"

abbreviation sample_startup ::
  "(process \<times> (int, table, (gostring, bytes) gomap) program started) option" where
  "sample_startup \<equiv> startup counting_bucket sample_deps (sample_viper (\<lambda>_ _. None) (\<lambda>_ _ _. [])) (\<lambda>_. []) (\<lambda>_. False)
     sample_connections steady_tick (\<lambda>_ xs. xs) ''c.yaml'' [] (new_process 0)"

lemma sample_starts: "\<exists>p g. sample_startup = Some (p, Running g)"
proof -
  have "surroundings_of (sample_viper (\<lambda>_ _. None) (\<lambda>_ _ _. [])) (\<lambda>_. []) (\<lambda>_. False) sample_connections steady_tick
      (\<lambda>_ xs. xs) = sample_surroundings"
    by (simp add: surroundings_of_def sample_surroundings_def sample_connections_def NewLogger_def NewMySQL_def
        AutoMigrate_def NewRedis_def Let_def fun_eq_iff)
  then have "\<exists>g. map_option snd sample_startup = Some (Running g)"
    using startup_is_main [of counting_bucket sample_deps "sample_viper (\<lambda>_ _. None) (\<lambda>_ _ _. [])" "\<lambda>_. []" "\<lambda>_. False"
        sample_connections steady_tick "\<lambda>_ xs. xs" "''c.yaml''" "[]" "new_process 0"] sample_main by simp
  then show ?thesis by auto
qed

lemma sample_times:
  "pr_now (after_signal defaultPollConfig sample_stopping p) = pr_now p + 1"
  "pr_now (after_grpc defaultPollConfig sample_stopping p) = pr_now p + 1 + 5 * second"
  "pr_now (after_http defaultPollConfig sample_stopping p) = pr_now p + 1 + 5 * second"
  "pr_now (shutdown_main defaultPollConfig sample_stopping p) = pr_now p + 1 + 5 * second"
proof -
  show s: "pr_now (after_signal defaultPollConfig sample_stopping p) = pr_now p + 1"
    by (simp add: after_signal_def Close_wait_def wait_for_def sample_stopping_def defaultPollConfig_def)
  then show g: "pr_now (after_grpc defaultPollConfig sample_stopping p) = pr_now p + 1 + 5 * second"
    by (simp add: after_grpc_def stop_grpc_def wait_for_def sample_stopping_def)
  with s show h: "pr_now (after_http defaultPollConfig sample_stopping p) = pr_now p + 1 + 5 * second"
    by (simp add: after_http_def stop_http_def wait_for_def sample_stopping_def)
  then show "pr_now (shutdown_main defaultPollConfig sample_stopping p) = pr_now p + 1 + 5 * second"
    by (simp add: shutdown_main_def return_main_def os_Exit_def run_defers_trace) (simp add: sample_stopping_def)
qed


theorem fatal_end_releases_nothing_witness:
  "\<exists>p g go. sample_startup = Some (p, Running g) \<and>
    released (run_process defaultPollConfig sample_stopping go p) = [] \<and>
    last (run_process defaultPollConfig sample_stopping go p) = (pr_now p, ProcessExit 1)"
proof -
  obtain p g where s: "sample_startup = Some (p, Running g)" using sample_starts by blast
  let ?go = "\<lparr>go_listen = Some (PlainError ''address in use''), go_serve_at = pr_now p, go_serve_fails = None,
    go_http_fails = None\<rparr>"
  have f: "first_fatal defaultPollConfig sample_stopping ?go p = Some (pr_now p, ''failed to listen gRPC'')"
    by (simp add: first_fatal_def grpc_goroutine_def http_goroutine_def sample_times)
  have "pr_now p \<le> pr_now (after_http defaultPollConfig sample_stopping p)" by (simp add: sample_times)
  with fatal_end_releases_nothing [OF s, of defaultPollConfig sample_stopping ?go] f s show ?thesis by blast
qed

end
