(* ===== verification/PerfTools.thy ===== *)
theory PerfTools
  imports Http
begin

text \<open>
  The two programs under \<open>test/perf/cmd\<close> that measure the service: \<open>gen_words\<close>, which makes a list of
  distinct words, imports it in batches and writes it to a file, and \<open>freshness\<close>, which measures how long a
  new word takes to be detected. They are clients of the HTTP interface; the HTTP client of the library, its JSON
  codec, the clock and the file system are parameters. \<open>freshness\<close> is modelled with \<open>-parallel 1\<close>, its
  default: the rounds then run one after the other.
\<close>

section \<open>How a program ends\<close>

datatype 'a ended = Panicked | ExitWith int | Returned 'a

section \<open>Random words\<close>

text \<open>
  \<open>math/rand\<close>: \<open>rn_below_7\<close> is \<open>Float64() < 0.7\<close>, \<open>rn_Intn\<close> draws a number below its argument.
\<close>

record 'g rng =
  rn_below_7 :: "'g \<Rightarrow> bool \<times> 'g"
  rn_Intn :: "nat \<Rightarrow> 'g \<Rightarrow> nat \<times> 'g"

definition rng_ok :: "'g rng \<Rightarrow> bool" where
  "rng_ok rn \<longleftrightarrow> (\<forall>n g. 0 < n \<longrightarrow> fst (rn_Intn rn n g) < n)"

definition cjkPool :: "rune list" where
  "cjkPool =
     [0x653F, 0x5E9C, 0x7ECF, 0x6D4E, 0x793E, 0x4F1A, 0x6587, 0x5316, 0x79D1, 0x6280, 0x4F53, 0x80B2,
      0x5A31, 0x4E50, 0x56FD, 0x9645, 0x65B0, 0x95FB, 0x8D22, 0x7ECF, 0x80A1, 0x7968, 0x57FA, 0x91D1,
      0x8BC1, 0x5238, 0x94F6, 0x884C, 0x4FDD, 0x9669, 0x623F, 0x4EA7, 0x65C5, 0x6E38, 0x6559, 0x80B2,
      0x57F9, 0x8BAD, 0x533B, 0x7597, 0x5065, 0x5EB7, 0x6C7D, 0x8F66, 0x79D1, 0x5B66, 0x7814, 0x7A76,
      0x5B66, 0x672F, 0x8BBA, 0x6587, 0x4E13, 0x4E1A, 0x6280, 0x80FD, 0x7F16, 0x7A0B, 0x5F00, 0x53D1,
      0x8BBE, 0x8BA1, 0x827A, 0x672F, 0x97F3, 0x4E50, 0x5F71, 0x89C6, 0x660E, 0x661F, 0x7F51, 0x6E38,
      0x7535, 0x7ADE, 0x76F4, 0x64AD, 0x77ED, 0x89C6, 0x9891, 0x8D2D, 0x7269, 0x5916, 0x5356, 0x5FEB,
      0x9012, 0x7269, 0x6D41, 0x5B89, 0x5168, 0x9690, 0x79C1, 0x6B3A, 0x8BC8, 0x8C23, 0x8A00, 0x8FDD,
      0x89C4, 0x6D89, 0x653F, 0x8D4C, 0x535A, 0x6BD2, 0x54C1, 0x66B4, 0x529B, 0x8840, 0x8165, 0x8272,
      0x60C5, 0x4F4E, 0x4FD7, 0x6B67, 0x89C6, 0x4EC7, 0x6068, 0x6050, 0x5413, 0x9A9A, 0x6270, 0x5783,
      0x573E, 0x5E7F, 0x544A]"

definition asciiPool :: "rune list" where
  "asciiPool = map (\<lambda>i. 97 + int i) [0..<26]"

fun fill_buf :: "'g rng \<Rightarrow> rune list \<Rightarrow> nat \<Rightarrow> 'g \<Rightarrow> rune list \<times> 'g" where
  "fill_buf rn pool 0 g = ([], g)"
| "fill_buf rn pool (Suc n) g =
     (case rn_Intn rn (length pool) g of (i, g1) \<Rightarrow>
        (case fill_buf rn pool n g1 of (rs, g2) \<Rightarrow> (pool ! i # rs, g2)))"

definition randWord :: "'g rng \<Rightarrow> 'g \<Rightarrow> gostring \<times> 'g" where
  "randWord rn g =
     (case rn_below_7 rn g of (cjk, g1) \<Rightarrow>
        if cjk then
          (case rn_Intn rn 4 g1 of (k, g2) \<Rightarrow>
             (case fill_buf rn cjkPool (2 + k) g2 of (rs, g3) \<Rightarrow> (string_of rs, g3)))
        else
          (case rn_Intn rn 6 g1 of (k, g2) \<Rightarrow>
             (case fill_buf rn asciiPool (3 + k) g2 of (rs, g3) \<Rightarrow> (string_of rs, g3))))"

record createWord =
  cr_Text :: gostring
  cr_Category :: gostring
  cr_Level :: int
  cr_Tag :: gostring

definition gen_cats :: "gostring list" where
  "gen_cats = [''politics'', ''porn'', ''abuse'', ''ad'', ''violence'', ''custom'']"

text \<open>The loop that draws until there are enough words; a word seen before is drawn again.\<close>

partial_function (option) generate ::
  "'g rng \<Rightarrow> nat \<Rightarrow> gostring list \<Rightarrow> createWord list \<Rightarrow> 'g \<Rightarrow> (createWord list \<times> 'g) option" where
  "generate rn n seen ws g =
     (if length ws < n then
        (case randWord rn g of (w, g1) \<Rightarrow>
           if w \<in> set seen then generate rn n seen ws g1
           else
             (case rn_Intn rn (length gen_cats) g1 of (c, g2) \<Rightarrow>
                (case rn_Intn rn 4 g2 of (l, g3) \<Rightarrow>
                   generate rn n (w # seen)
                     (ws @ [\<lparr>cr_Text = w, cr_Category = gen_cats ! c, cr_Level = 1 + int l, cr_Tag = []\<rparr>]) g3)))
      else Some (ws, g))"

section \<open>The HTTP client\<close>

record tool_request =
  tq_Method :: gostring
  tq_URL :: gostring
  tq_ContentType :: "gostring option"
  tq_APIKey :: gostring
  tq_Body :: bytes

record import_tally =
  ta_imported :: int
  ta_skipped :: int
  ta_failed :: int

text \<open>
  The library: whether \<open>http.NewRequest\<close> can parse the URL (a request it could not make is \<open>nil\<close>, and setting
  its header panics), \<open>cli.Do\<close> with the body read to its end, and the JSON of the messages.
\<close>

record 's web =
  wb_url_ok :: "gostring \<Rightarrow> bool"
  wb_do :: "tool_request \<Rightarrow> 's \<Rightarrow> (int \<times> bytes) result \<times> 's"
  wb_import_json :: "createWord list \<Rightarrow> bytes"
  wb_create_json :: "createWord \<Rightarrow> bytes"
  wb_detect_json :: "gostring \<Rightarrow> bytes"
  wb_tally :: "bytes \<Rightarrow> import_tally result"
  wb_id :: "bytes \<Rightarrow> 64 word"
  wb_hits :: "bytes \<Rightarrow> (bool \<times> gostring list) result"

definition send :: "'s web \<Rightarrow> tool_request \<Rightarrow> 's \<Rightarrow> (int \<times> bytes) result option \<times> 's" where
  "send wb rq s =
     (if wb_url_ok wb (tq_URL rq) then (case wb_do wb rq s of (r, s1) \<Rightarrow> (Some r, s1)) else (None, s))"

section \<open>Importing in batches\<close>

record gen_args =
  ga_endpoint :: gostring
  ga_apiKey :: gostring
  ga_n :: int
  ga_batch :: int
  ga_out :: gostring

definition import_batch ::
  "'s web \<Rightarrow> gen_args \<Rightarrow> createWord list \<Rightarrow> import_tally \<Rightarrow> 's \<Rightarrow> import_tally ended \<times> 's" where
  "import_batch wb a ws t s =
     (case send wb \<lparr>tq_Method = ''POST'', tq_URL = ga_endpoint a, tq_ContentType = Some ''application/json'',
                    tq_APIKey = ga_apiKey a, tq_Body = wb_import_json wb ws\<rparr> s of
        (None, s1) \<Rightarrow> (Panicked, s1)
      | (Some (Inl err), s1) \<Rightarrow> (ExitWith 1, s1)
      | (Some (Inr (status, body)), s1) \<Rightarrow>
          if 400 \<le> status then (ExitWith 1, s1)
          else (case wb_tally wb body of
              Inl err \<Rightarrow> (ExitWith 1, s1)
            | Inr r \<Rightarrow> (Returned \<lparr>ta_imported = ta_imported t + ta_imported r,
                ta_skipped = ta_skipped t + ta_skipped r, ta_failed = ta_failed t + ta_failed r\<rparr>, s1)))"

text \<open>
  The loop over \<open>words[i:end]\<close>. The list is in memory, so no index of it comes near the end of an \<open>int\<close>. A
  batch size that is not positive does not advance: 0 sends empty batches, and a negative one makes \<open>end\<close>
  precede \<open>i\<close>, a panic.
\<close>

partial_function (option) post_words ::
  "'s web \<Rightarrow> gen_args \<Rightarrow> createWord list \<Rightarrow> int \<Rightarrow> import_tally \<Rightarrow> 's \<Rightarrow> (import_tally ended \<times> 's) option" where
  "post_words wb a ws i t s =
     (if i < ga_n a then
        (if i \<le> min (i + ga_batch a) (ga_n a) \<and> min (i + ga_batch a) (ga_n a) \<le> int (length ws) then
           (case import_batch wb a (take (nat (min (i + ga_batch a) (ga_n a) - i)) (drop (nat i) ws)) t s of
              (e, s1) \<Rightarrow>
                (case e of
                   Returned t1 \<Rightarrow> post_words wb a ws (i + ga_batch a) t1 s1
                 | Panicked \<Rightarrow> Some (Panicked, s1)
                 | ExitWith c \<Rightarrow> Some (ExitWith c, s1)))
         else Some (Panicked, s))
      else Some (Returned t, s))"

record 's files =
  fi_dir :: "gostring \<Rightarrow> gostring"
  fi_mkdir_all :: "gostring \<Rightarrow> 's \<Rightarrow> error option \<times> 's"
  fi_create :: "gostring \<Rightarrow> 's \<Rightarrow> error option \<times> 's"
  fi_write :: "gostring \<Rightarrow> bytes \<Rightarrow> 's \<Rightarrow> 's"

definition newline :: char where "newline = CHR 0x0A"

definition words_file :: "createWord list \<Rightarrow> bytes" where
  "words_file ws = concat (map (\<lambda>w. cr_Text w @ [newline]) ws)"

definition write_words :: "'s files \<Rightarrow> gostring \<Rightarrow> createWord list \<Rightarrow> 's \<Rightarrow> unit ended \<times> 's" where
  "write_words fs out ws s =
     (case fi_mkdir_all fs (fi_dir fs out) s of
        (Some err, s1) \<Rightarrow> (ExitWith 1, s1)
      | (None, s1) \<Rightarrow>
          (case fi_create fs out s1 of
             (Some err, s2) \<Rightarrow> (ExitWith 1, s2)
           | (None, s2) \<Rightarrow> (Returned (), fi_write fs out (words_file ws) s2)))"

text \<open>\<open>main\<close> of \<open>gen_words\<close>: \<open>make\<close> panics for a negative capacity.\<close>

definition gen_words_main ::
  "'g rng \<Rightarrow> 'g \<Rightarrow> 's web \<Rightarrow> 's files \<Rightarrow> gen_args \<Rightarrow> 's \<Rightarrow> (import_tally ended \<times> 's) option" where
  "gen_words_main rn g wb fs a s =
     (if ga_n a < 0 then Some (Panicked, s)
      else (case generate rn (nat (ga_n a)) [] [] g of
          None \<Rightarrow> None
        | Some (ws, g1) \<Rightarrow>
            (case post_words wb a ws 0 \<lparr>ta_imported = 0, ta_skipped = 0, ta_failed = 0\<rparr> s of
               None \<Rightarrow> None
             | Some (Returned t, s1) \<Rightarrow>
                 (case write_words fs (ga_out a) ws s1 of
                    (Returned _, s2) \<Rightarrow> Some (Returned t, s2)
                  | (ExitWith c, s2) \<Rightarrow> Some (ExitWith c, s2)
                  | (Panicked, s2) \<Rightarrow> Some (Panicked, s2))
             | Some (ExitWith c, s1) \<Rightarrow> Some (ExitWith c, s1)
             | Some (Panicked, s1) \<Rightarrow> Some (Panicked, s1))))"

section \<open>What is generated\<close>

lemma fill_buf_shape:
  assumes "rng_ok rn" "pool \<noteq> []"
  shows "length (fst (fill_buf rn pool n g)) = n \<and> set (fst (fill_buf rn pool n g)) \<subseteq> set pool"
proof (induction n arbitrary: g)
  case 0
  show ?case by simp
next
  case (Suc n)
  have "fst (rn_Intn rn (length pool) g) < length pool" using assms by (simp add: rng_ok_def)
  then show ?case using Suc [of "snd (rn_Intn rn (length pool) g)"] by (auto split: prod.splits)
qed

definition plain_runes :: "rune list \<Rightarrow> bool" where
  "plain_runes = list_all (\<lambda>r. valid_rune r \<and> newline \<notin> set (encode_rune r))"

lemma pools_plain: "plain_runes cjkPool" "plain_runes asciiPool" "cjkPool \<noteq> []" "asciiPool \<noteq> []"
  by code_simp+

lemma plain_subset: "plain_runes pool \<Longrightarrow> set rs \<subseteq> set pool \<Longrightarrow> plain_runes rs"
  by (auto simp: plain_runes_def list_all_iff)

lemma plain_no_newline: "plain_runes rs \<Longrightarrow> newline \<notin> set (string_of rs)"
  by (induction rs) (auto simp: plain_runes_def)

text \<open>A random word has two to five characters of the first pool or three to eight letters.\<close>

lemma randWord_shape:
  assumes "rng_ok rn"
  shows "\<exists>rs. fst (randWord rn g) = string_of rs \<and> plain_runes rs \<and>
    (set rs \<subseteq> set cjkPool \<and> 2 \<le> length rs \<and> length rs \<le> 5 \<or>
     set rs \<subseteq> set asciiPool \<and> 3 \<le> length rs \<and> length rs \<le> 8)"
proof -
  obtain cjk g1 where b: "rn_below_7 rn g = (cjk, g1)" by fastforce
  show ?thesis
  proof (cases cjk)
    case True
    obtain k g2 where k: "rn_Intn rn 4 g1 = (k, g2)" by fastforce
    obtain rs g3 where r: "fill_buf rn cjkPool (2 + k) g2 = (rs, g3)" by fastforce
    have "fst (rn_Intn rn 4 g1) < 4" using assms by (simp add: rng_ok_def)
    then have "k < 4" using k by simp
    moreover have "length rs = 2 + k" "set rs \<subseteq> set cjkPool"
      using fill_buf_shape [OF assms pools_plain(3), of "2 + k" g2] r by simp_all
    moreover have "fst (randWord rn g) = string_of rs" using b k r True by (simp add: randWord_def)
    ultimately show ?thesis by (intro exI [of _ rs]) (auto intro: plain_subset [OF pools_plain(1)])
  next
    case False
    obtain k g2 where k: "rn_Intn rn 6 g1 = (k, g2)" by fastforce
    obtain rs g3 where r: "fill_buf rn asciiPool (3 + k) g2 = (rs, g3)" by fastforce
    have "fst (rn_Intn rn 6 g1) < 6" using assms by (simp add: rng_ok_def)
    then have "k < 6" using k by simp
    moreover have "length rs = 3 + k" "set rs \<subseteq> set asciiPool"
      using fill_buf_shape [OF assms pools_plain(4), of "3 + k" g2] r by simp_all
    moreover have "fst (randWord rn g) = string_of rs" using b k r False by (simp add: randWord_def)
    ultimately show ?thesis by (intro exI [of _ rs]) (auto intro: plain_subset [OF pools_plain(2)])
  qed
qed

text \<open>The messages of the program are those of the server: the fields have the names of its own request.\<close>

definition server_request :: "createWord \<Rightarrow> CreateWordRequest" where
  "server_request w =
     \<lparr>cw_Text = cr_Text w, cw_Category = cr_Category w, cw_Level = cr_Level w, cw_Tag = cr_Tag w\<rparr>"

definition generated_ok :: "createWord \<Rightarrow> bool" where
  "generated_ok w \<longleftrightarrow> CreateWordRequest_valid (server_request w) \<and> Category_IsValid (cr_Category w) \<and>
     newline \<notin> set (cr_Text w)"

lemma gen_cats_valid: "list_all (\<lambda>c. Category_IsValid c \<and> c \<noteq> []) gen_cats" "length gen_cats = 6"
  by code_simp+

lemma generated_word_ok:
  assumes "rng_ok rn" "c < length gen_cats" "l < 4"
  shows "generated_ok \<lparr>cr_Text = fst (randWord rn g), cr_Category = gen_cats ! c, cr_Level = 1 + int l, cr_Tag = []\<rparr>"
proof -
  obtain rs where w: "fst (randWord rn g) = string_of rs" and p: "plain_runes rs"
    and d: "set rs \<subseteq> set cjkPool \<and> 2 \<le> length rs \<and> length rs \<le> 5 \<or>
      set rs \<subseteq> set asciiPool \<and> 3 \<le> length rs \<and> length rs \<le> 8"
    using randWord_shape [OF assms(1), of g] by blast
  then have n: "0 < length rs \<and> length rs \<le> 8" by auto
  have "runes_of (string_of rs) = rs"
    using p by (intro runes_of_string_of) (auto simp: plain_runes_def list_all_iff)
  then have r: "rune_len (string_of rs) = length rs" by (simp add: rune_len_def)
  have "string_of rs \<noteq> []"
    using n \<open>runes_of (string_of rs) = rs\<close> by (metis length_greater_0_conv runes_of_eq_Nil)
  moreover have "Category_IsValid (gen_cats ! c) \<and> gen_cats ! c \<noteq> []"
    using gen_cats_valid(1) assms(2) by (simp add: list_all_length)
  ultimately show ?thesis
    using w r n plain_no_newline [OF p] assms(3)
    by (simp add: generated_ok_def CreateWordRequest_valid_def server_request_def)
qed

text \<open>
  What the loop keeps: the words are distinct, they are the ones seen, and the service's own validation
  accepts each of them.
\<close>

definition gen_inv :: "nat \<Rightarrow> gostring list \<Rightarrow> createWord list \<Rightarrow> bool" where
  "gen_inv n seen ws \<longleftrightarrow> length ws \<le> n \<and> set seen = cr_Text ` set ws \<and> distinct (map cr_Text ws) \<and>
     list_all generated_ok ws"

lemma gen_inv_step:
  assumes "rng_ok rn" "gen_inv n seen ws" "length ws < n" "randWord rn g = (w, g1)" "w \<notin> set seen"
    and "rn_Intn rn (length gen_cats) g1 = (c, g2)" "rn_Intn rn 4 g2 = (l, g3)"
  shows "gen_inv n (w # seen)
    (ws @ [\<lparr>cr_Text = w, cr_Category = gen_cats ! c, cr_Level = 1 + int l, cr_Tag = []\<rparr>])"
proof -
  have "fst (rn_Intn rn (length gen_cats) g1) < length gen_cats"
    using assms(1) gen_cats_valid(2) by (simp add: rng_ok_def)
  moreover have "fst (rn_Intn rn 4 g2) < 4" using assms(1) by (simp add: rng_ok_def)
  ultimately have "c < length gen_cats" "l < 4" using assms(6,7) by simp_all
  from generated_word_ok [OF assms(1) this, of g] assms(2-5) show ?thesis
    by (auto simp: gen_inv_def image_iff)
qed

lemma generate_correct:
  assumes "rng_ok rn" "gen_inv n seen ws" "generate rn n seen ws g = Some (vs, g')"
  shows "length vs = n \<and> distinct (map cr_Text vs) \<and> list_all generated_ok vs"
proof -
  let ?P = "\<lambda>seen ws g r. gen_inv n seen ws \<longrightarrow>
    length (fst r) = n \<and> distinct (map cr_Text (fst r)) \<and> list_all generated_ok (fst r)"
  have "?P seen ws g (vs, g')"
  proof (rule generate.raw_induct [where P = "\<lambda>rn' n' seen ws g r. rn' = rn \<and> n' = n \<longrightarrow> ?P seen ws g r",
      THEN mp, OF _ assms(3)])
    fix gen :: "'a rng \<Rightarrow> nat \<Rightarrow> gostring list \<Rightarrow> createWord list \<Rightarrow> 'a \<Rightarrow> (createWord list \<times> 'a) option"
    fix rn' n' seen ws g r
    assume IH: "\<And>rn' n' seen ws g r. gen rn' n' seen ws g = Some r \<Longrightarrow>
        rn' = rn \<and> n' = n \<longrightarrow> ?P seen ws g r"
    assume st: "(if length ws < n' then
        (case randWord rn' g of (w, g1) \<Rightarrow>
           if w \<in> set seen then gen rn' n' seen ws g1
           else
             (case rn_Intn rn' (length gen_cats) g1 of (c, g2) \<Rightarrow>
                (case rn_Intn rn' 4 g2 of (l, g3) \<Rightarrow>
                   gen rn' n' (w # seen)
                     (ws @ [\<lparr>cr_Text = w, cr_Category = gen_cats ! c, cr_Level = 1 + int l, cr_Tag = []\<rparr>]) g3)))
      else Some (ws, g)) = Some r"
    show "rn' = rn \<and> n' = n \<longrightarrow> ?P seen ws g r"
    proof (intro impI, elim conjE)
      assume e: "rn' = rn" "n' = n" and inv: "gen_inv n seen ws"
      show "length (fst r) = n \<and> distinct (map cr_Text (fst r)) \<and> list_all generated_ok (fst r)"
        using st e inv gen_inv_step [OF assms(1) inv] IH
        by (auto simp: gen_inv_def split: if_splits prod.splits)
    qed
  qed simp
  with assms(2) show ?thesis by simp
qed

text \<open>
  The loop ends when the source never runs out of new words: from every state of the generator, fewer than
  \<open>n\<close> words are not all that it still draws.
\<close>

definition supplies :: "'g rng \<Rightarrow> nat \<Rightarrow> bool" where
  "supplies rn n \<longleftrightarrow> (\<forall>seen g. length seen < n \<longrightarrow>
     (\<exists>k. fst (randWord rn (((\<lambda>x. snd (randWord rn x)) ^^ k) g)) \<notin> set seen))"

abbreviation next_state :: "'g rng \<Rightarrow> 'g \<Rightarrow> 'g" where
  "next_state rn g \<equiv> snd (randWord rn g)"

lemma generate_skips:
  "length ws < n \<Longrightarrow> fst (randWord rn g) \<in> set seen \<Longrightarrow>
   generate rn n seen ws g = generate rn n seen ws (next_state rn g)"
  by (subst generate.simps) (auto split: prod.splits)

lemma generate_takes:
  assumes "length ws < n" "fst (randWord rn g) \<notin> set seen"
  shows "\<exists>w x g'. generate rn n seen ws g = generate rn n (w # seen) (ws @ [x]) g'"
  using assms by (subst generate.simps) (auto split: prod.splits)

lemma generate_draws:
  "length ws < n \<Longrightarrow> fst (randWord rn ((next_state rn ^^ k) g)) \<notin> set seen \<Longrightarrow>
   \<exists>w x g'. generate rn n seen ws g = generate rn n (w # seen) (ws @ [x]) g'"
proof (induction k arbitrary: g)
  case 0
  then show ?case using generate_takes [of ws n rn g seen] by simp
next
  case (Suc k)
  show ?case
  proof (cases "fst (randWord rn g) \<in> set seen")
    case True
    have "fst (randWord rn ((next_state rn ^^ k) (next_state rn g))) \<notin> set seen"
      using Suc.prems(2) by (simp only: funpow_Suc_right comp_apply not_False_eq_True)
    from Suc.IH [OF Suc.prems(1) this] show ?thesis
      using generate_skips [OF Suc.prems(1) True] by simp
  next
    case False
    then show ?thesis using generate_takes [OF Suc.prems(1) False] by simp
  qed
qed

lemma generate_returns:
  assumes "supplies rn n" "length seen = length ws"
  shows "\<exists>r. generate rn n seen ws g = Some r"
  using assms(2)
proof (induction "n - length ws" arbitrary: seen ws g)
  case 0
  then show ?case by (subst generate.simps) simp
next
  case (Suc d)
  then have lt: "length ws < n" by simp
  with assms(1) Suc.prems obtain k where "fst (randWord rn ((next_state rn ^^ k) g)) \<notin> set seen"
    unfolding supplies_def by metis
  from generate_draws [OF lt this] obtain w x g'
    where eq: "generate rn n seen ws g = generate rn n (w # seen) (ws @ [x]) g'" by blast
  have "d = n - length (ws @ [x])" using Suc.hyps(2) by simp
  from Suc.hyps(1) [OF this, of "w # seen" g'] Suc.prems eq show ?case by simp
qed

section \<open>The batches\<close>

function batches :: "nat \<Rightarrow> 'a list \<Rightarrow> 'a list list" where
  "batches b ws = (if b = 0 \<or> ws = [] then [] else take b ws # batches b (drop b ws))"
  by auto
termination by (relation "measure (\<lambda>(b, ws). length ws)") auto

declare batches.simps [simp del]

lemma batches_Nil [simp]: "batches b [] = []"
  by (simp add: batches.simps)

lemma batches_concat: "0 < b \<Longrightarrow> concat (batches b ws) = ws"
proof (induction b ws rule: batches.induct)
  case (1 b ws)
  then show ?case by (cases "ws = []") (simp_all add: batches.simps [of b ws])
qed

lemma batches_size: "0 < b \<Longrightarrow> ch \<in> set (batches b ws) \<Longrightarrow> 0 < length ch \<and> length ch \<le> b"
proof (induction b ws rule: batches.induct)
  case (1 b ws)
  then show ?case by (cases "ws = []") (auto simp: batches.simps [of b ws])
qed

fun post_all ::
  "'s web \<Rightarrow> gen_args \<Rightarrow> createWord list list \<Rightarrow> import_tally \<Rightarrow> 's \<Rightarrow> import_tally ended \<times> 's" where
  "post_all wb a [] t s = (Returned t, s)"
| "post_all wb a (ws # rest) t s =
     (case import_batch wb a ws t s of
        (Returned t1, s1) \<Rightarrow> post_all wb a rest t1 s1
      | (Panicked, s1) \<Rightarrow> (Panicked, s1)
      | (ExitWith c, s1) \<Rightarrow> (ExitWith c, s1))"

text \<open>
  With a batch size of at least one the loop ends, without a panic of its own, and posts the words once each, in
  their order, in batches of at most that size.
\<close>

lemma post_words_is_post_all:
  assumes "0 < ga_batch a" "ga_n a = int (length ws)" "0 \<le> i"
  shows "post_words wb a ws i t s = Some (post_all wb a (batches (nat (ga_batch a)) (drop (nat i) ws)) t s)"
  using assms(3)
proof (induction "length ws - nat i" arbitrary: i t s rule: less_induct)
  case less
  let ?b = "nat (ga_batch a)"
  show ?case
  proof (cases "i < ga_n a")
    case False
    then have "drop (nat i) ws = []" using assms(2) by simp
    then show ?thesis using False by (subst post_words.simps) simp
  next
    case True
    let ?e = "min (i + ga_batch a) (ga_n a)"
    have rest: "drop ?b (drop (nat i) ws) = drop (nat (i + ga_batch a)) ws"
      using less.prems assms(1) by (simp add: nat_add_distrib add.commute)
    have chunk: "take (nat (?e - i)) (drop (nat i) ws) = take ?b (drop (nat i) ws)"
    proof (cases "i + ga_batch a \<le> ga_n a")
      case le: True
      then have "nat (?e - i) = ?b" by simp
      then show ?thesis by simp
    next
      case gt: False
      then have "length (drop (nat i) ws) \<le> nat (?e - i)" "length (drop (nat i) ws) \<le> ?b"
        using less.prems assms(1,2) by simp_all
      then show ?thesis by simp
    qed
    have bs: "batches ?b (drop (nat i) ws) = take ?b (drop (nat i) ws) # batches ?b (drop (nat (i + ga_batch a)) ws)"
    proof -
      have "drop (nat i) ws \<noteq> []" "?b \<noteq> 0" using True assms(1,2) less.prems by simp_all
      then show ?thesis unfolding rest [symmetric] by (subst batches.simps) (simp only: simp_thms if_False)
    qed
    have "length ws - nat (i + ga_batch a) < length ws - nat i"
      using True assms(1,2) less.prems by linarith
    from less.hyps [OF this] have IH: "post_words wb a ws (i + ga_batch a) t1 s1 =
        Some (post_all wb a (batches ?b (drop (nat (i + ga_batch a)) ws)) t1 s1)" for t1 s1
      using less.prems assms(1) by simp
    have "i \<le> ?e \<and> ?e \<le> int (length ws)" using True assms(1,2) by simp
    then have "post_words wb a ws i t s =
        (case import_batch wb a (take ?b (drop (nat i) ws)) t s of
           (e, s1) \<Rightarrow> (case e of Returned t1 \<Rightarrow> post_words wb a ws (i + ga_batch a) t1 s1
              | Panicked \<Rightarrow> Some (Panicked, s1) | ExitWith c \<Rightarrow> Some (ExitWith c, s1)))"
      using True by (subst post_words.simps) (simp only: chunk if_True simp_thms)
    then show ?thesis unfolding bs by (simp add: IH split: prod.splits ended.splits)
  qed
qed

section \<open>The word file and the whole program\<close>

text \<open>Reading the file line by line, as its users do.\<close>

fun read_lines :: "bytes \<Rightarrow> bytes \<Rightarrow> gostring list" where
  "read_lines cur [] = (if cur = [] then [] else [cur])"
| "read_lines cur (c # cs) =
     (if c = newline then cur # read_lines [] cs else read_lines (cur @ [c]) cs)"

lemma read_lines_line:
  "newline \<notin> set w \<Longrightarrow> read_lines cur (w @ newline # rest) = (cur @ w) # read_lines [] rest"
  by (induction w arbitrary: cur) auto

lemma words_file_roundtrip:
  "list_all (\<lambda>w. newline \<notin> set (cr_Text w)) ws \<Longrightarrow> read_lines [] (words_file ws) = map cr_Text ws"
  by (induction ws) (simp_all add: words_file_def read_lines_line)

text \<open>
  A run that ends normally has made \<open>n\<close> distinct words that the server's validation accepts, has posted them in
  batches that the import accepts and in their order, and the file it has written reads back as their texts.
\<close>

lemma gen_words_run:
  assumes "rng_ok rn" "0 < ga_batch a" "ga_batch a \<le> 10000"
    and "gen_words_main rn g wb fs a s = Some (Returned t, s2)"
  shows "\<exists>ws s1. length ws = nat (ga_n a) \<and> distinct (map cr_Text ws) \<and> list_all generated_ok ws \<and>
    concat (batches (nat (ga_batch a)) ws) = ws \<and>
    list_all (\<lambda>b. ImportRequest_valid \<lparr>im_Words = map server_request b\<rparr>) (batches (nat (ga_batch a)) ws) \<and>
    post_all wb a (batches (nat (ga_batch a)) ws) \<lparr>ta_imported = 0, ta_skipped = 0, ta_failed = 0\<rparr> s =
      (Returned t, s1) \<and>
    write_words fs (ga_out a) ws s1 = (Returned (), s2) \<and> read_lines [] (words_file ws) = map cr_Text ws"
proof -
  have n: "0 \<le> ga_n a" using assms(4) by (simp add: gen_words_main_def split: if_splits)
  then obtain ws g1 where ws: "generate rn (nat (ga_n a)) [] [] g = Some (ws, g1)"
    using assms(4) by (auto simp: gen_words_main_def split: option.splits)
  have inv: "gen_inv (nat (ga_n a)) [] []" by (simp add: gen_inv_def)
  from generate_correct [OF assms(1) inv ws]
  have ok: "length ws = nat (ga_n a)" "distinct (map cr_Text ws)" "list_all generated_ok ws" by simp_all
  let ?bs = "batches (nat (ga_batch a)) ws"
  let ?t0 = "\<lparr>ta_imported = 0, ta_skipped = 0, ta_failed = 0\<rparr>"
  have loop: "post_words wb a ws 0 ?t0 s = Some (post_all wb a ?bs ?t0 s)"
    using post_words_is_post_all [OF assms(2), of ws 0 wb ?t0 s] ok(1) n by simp
  obtain e s1 where p: "post_all wb a ?bs ?t0 s = (e, s1)" by fastforce
  have "e = Returned t \<and> write_words fs (ga_out a) ws s1 = (Returned (), s2)"
    using assms(4) n ws loop p by (auto simp: gen_words_main_def split: ended.splits prod.splits)
  moreover have "list_all (\<lambda>b. ImportRequest_valid \<lparr>im_Words = map server_request b\<rparr>) ?bs"
    unfolding list_all_iff
  proof
    fix b assume "b \<in> set ?bs"
    then have "0 < length b" "length b \<le> nat (ga_batch a)"
      using batches_size [of "nat (ga_batch a)" b ws] assms(2) by simp_all
    then have "1 \<le> length b" "length b \<le> 10000" using assms(3) by linarith+
    then show "ImportRequest_valid \<lparr>im_Words = map server_request b\<rparr>"
      by (simp add: ImportRequest_valid_def)
  qed
  moreover have "read_lines [] (words_file ws) = map cr_Text ws"
    using ok(3) by (intro words_file_roundtrip) (auto simp: list_all_iff generated_ok_def)
  ultimately show ?thesis using ok p assms(2) batches_concat [of "nat (ga_batch a)" ws]
    by (intro exI [of _ ws] exI [of _ s1]) simp
qed

section \<open>The freshness probe\<close>

record fresh_args =
  fa_base :: gostring
  fa_apiKey :: gostring
  fa_rounds :: int
  fa_pollMs :: int
  fa_timeout :: duration
  fa_gap :: duration
  fa_cleanup :: bool

record roundResult =
  rr_id :: nat
  rr_word :: gostring
  rr_wordID :: "64 word"
  rr_latency :: duration
  rr_detected :: bool
  rr_err :: "error option"

text \<open>
  The clock: \<open>ck_select\<close> is the \<open>select\<close> between the end of the context, at the given deadline, and the next
  tick of the ticker with the given period; it tells whether the context was chosen.
\<close>

record 's clock =
  ck_now :: "'s \<Rightarrow> instant"
  ck_select :: "instant \<Rightarrow> duration \<Rightarrow> 's \<Rightarrow> bool \<times> 's"
  ck_sleep :: "duration \<Rightarrow> 's \<Rightarrow> 's"

definition http_failure :: "int \<Rightarrow> bytes \<Rightarrow> error" where
  "http_failure status body = PlainError (''HTTP '' @ Itoa status @ '': '' @ body)"

text \<open>As above, \<open>None\<close> is the panic on a request that could not be made.\<close>

definition fresh_createWord :: "'s web \<Rightarrow> fresh_args \<Rightarrow> gostring \<Rightarrow> 's \<Rightarrow> 64 word result option \<times> 's" where
  "fresh_createWord wb a txt s =
     (case send wb \<lparr>tq_Method = ''POST'', tq_URL = fa_base a @ ''/api/v1/words'',
                    tq_ContentType = Some ''application/json'', tq_APIKey = fa_apiKey a,
                    tq_Body = wb_create_json wb
                      \<lparr>cr_Text = txt, cr_Category = ''custom'', cr_Level = 1, cr_Tag = ''perf-fresh''\<rparr>\<rparr> s of
        (None, s1) \<Rightarrow> (None, s1)
      | (Some (Inl err), s1) \<Rightarrow> (Some (Inl err), s1)
      | (Some (Inr (status, body)), s1) \<Rightarrow>
          (Some (if 400 \<le> status then Inl (http_failure status body) else Inr (wb_id wb body)), s1))"

definition detectHit :: "'s web \<Rightarrow> fresh_args \<Rightarrow> gostring \<Rightarrow> 's \<Rightarrow> bool result option \<times> 's" where
  "detectHit wb a target s =
     (case send wb \<lparr>tq_Method = ''POST'', tq_URL = fa_base a @ ''/api/v1/filter/detect'',
                    tq_ContentType = Some ''application/json'', tq_APIKey = fa_apiKey a,
                    tq_Body = wb_detect_json wb target\<rparr> s of
        (None, s1) \<Rightarrow> (None, s1)
      | (Some (Inl err), s1) \<Rightarrow> (Some (Inl err), s1)
      | (Some (Inr (status, body)), s1) \<Rightarrow>
          (Some (if 400 \<le> status then Inl (http_failure status body)
                 else case wb_hits wb body of
                     Inl err \<Rightarrow> Inl err
                   | Inr (isHit, words) \<Rightarrow> Inr (isHit \<and> list_ex (\<lambda>w. w = target) words)), s1))"

text \<open>The body of the reply is discarded, and so is its status.\<close>

definition deleteWord :: "'s web \<Rightarrow> fresh_args \<Rightarrow> 64 word \<Rightarrow> 's \<Rightarrow> error option option \<times> 's" where
  "deleteWord wb a i s =
     (case send wb \<lparr>tq_Method = ''DELETE'', tq_URL = fa_base a @ ''/api/v1/words/'' @ Itoa (uint i),
                    tq_ContentType = None, tq_APIKey = fa_apiKey a, tq_Body = []\<rparr> s of
        (None, s1) \<Rightarrow> (None, s1)
      | (Some (Inl err), s1) \<Rightarrow> (Some (Some err), s1)
      | (Some (Inr _), s1) \<Rightarrow> (Some None, s1))"

partial_function (option) poll_loop ::
  "'s web \<Rightarrow> 's clock \<Rightarrow> fresh_args \<Rightarrow> instant \<Rightarrow> instant \<Rightarrow> roundResult \<Rightarrow> 's \<Rightarrow> (roundResult ended \<times> 's) option" where
  "poll_loop wb ck a t0 deadline r s =
     (case detectHit wb a (rr_word r) s of (d, s1) \<Rightarrow>
        (case d of
           None \<Rightarrow> Some (Panicked, s1)
         | Some hit \<Rightarrow>
             if hit = Inr True
             then Some (Returned (r\<lparr>rr_detected := True, rr_latency := ck_now ck s1 - t0\<rparr>), s1)
             else (case ck_select ck deadline (fa_pollMs a * millisecond) s1 of (over, s2) \<Rightarrow>
                 if over then Some (Returned (r\<lparr>rr_detected := False, rr_latency := fa_timeout a\<rparr>), s2)
                 else poll_loop wb ck a t0 deadline r s2)))"

definition new_round :: "nat \<Rightarrow> 64 word \<Rightarrow> roundResult" where
  "new_round idx tag =
     \<lparr>rr_id = idx, rr_word = ''perf_fresh_'' @ Itoa (sint tag) @ ''_'' @ Itoa (int idx), rr_wordID = 0,
      rr_latency = 0, rr_detected = False, rr_err = None\<rparr>"

text \<open>\<open>NewTicker\<close> panics for a period that is not positive.\<close>

definition runOne ::
  "'s web \<Rightarrow> 's clock \<Rightarrow> fresh_args \<Rightarrow> nat \<Rightarrow> 64 word \<Rightarrow> 's \<Rightarrow> (roundResult ended \<times> 's) option" where
  "runOne wb ck a idx tag s =
     (let r = new_round idx tag; t0 = ck_now ck s in
      case fresh_createWord wb a (rr_word r) s of
        (None, s1) \<Rightarrow> Some (Panicked, s1)
      | (Some (Inl err), s1) \<Rightarrow> Some (Returned (r\<lparr>rr_err := Some (PlainError (''create: '' @ error_text err))\<rparr>), s1)
      | (Some (Inr i), s1) \<Rightarrow>
          if fa_pollMs a \<le> 0 then Some (Panicked, s1)
          else poll_loop wb ck a t0 (ck_now ck s1 + fa_timeout a) (r\<lparr>rr_wordID := i\<rparr>) s1)"

fun run_rounds ::
  "'s web \<Rightarrow> 's clock \<Rightarrow> fresh_args \<Rightarrow> 64 word \<Rightarrow> nat list \<Rightarrow> 's \<Rightarrow> (roundResult list ended \<times> 's) option" where
  "run_rounds wb ck a tag [] s = Some (Returned [], s)"
| "run_rounds wb ck a tag (i # is) s =
     (case runOne wb ck a i tag s of
        None \<Rightarrow> None
      | Some (Returned r, s1) \<Rightarrow>
          (case run_rounds wb ck a tag is (if 0 < fa_gap a then ck_sleep ck (fa_gap a) s1 else s1) of
             None \<Rightarrow> None
           | Some (Returned rs, s2) \<Rightarrow> Some (Returned (r # rs), s2)
           | Some (Panicked, s2) \<Rightarrow> Some (Panicked, s2)
           | Some (ExitWith c, s2) \<Rightarrow> Some (ExitWith c, s2))
      | Some (Panicked, s1) \<Rightarrow> Some (Panicked, s1)
      | Some (ExitWith c, s1) \<Rightarrow> Some (ExitWith c, s1))"

fun clean_up :: "'s web \<Rightarrow> fresh_args \<Rightarrow> roundResult list \<Rightarrow> 's \<Rightarrow> nat option \<times> 's" where
  "clean_up wb a [] s = (Some 0, s)"
| "clean_up wb a (r # rs) s =
     (if rr_wordID r \<noteq> 0 then
        (case deleteWord wb a (rr_wordID r) s of
           (None, s1) \<Rightarrow> (None, s1)
         | (Some e, s1) \<Rightarrow>
             (case clean_up wb a rs s1 of
                (Some n, s2) \<Rightarrow> (Some (if e = None then Suc n else n), s2)
              | (None, s2) \<Rightarrow> (None, s2)))
      else clean_up wb a rs s)"

section \<open>The report\<close>

record latency_stats =
  st_min :: duration
  st_p50 :: duration
  st_p75 :: duration
  st_p90 :: duration
  st_p95 :: duration
  st_p99 :: duration
  st_max :: duration
  st_mean :: duration

record report_lines =
  rl_total :: nat
  rl_successful :: nat
  rl_timeouts :: nat
  rl_errors :: nat
  rl_stats :: "latency_stats option"

text \<open>
  An index out of range is a panic; the mean is Go's division, which truncates. The latencies are read from the
  monotonic clock, so they are not negative, and their sum stays far below the largest \<open>int64\<close>.
\<close>

definition at :: "'a list \<Rightarrow> int \<Rightarrow> 'a option" where
  "at xs i = (if 0 \<le> i \<and> i < int (length xs) then Some (xs ! nat i) else None)"

definition stats_of :: "duration list \<Rightarrow> latency_stats option" where
  "stats_of lats =
     (let n = int (length lats) in
      case at lats 0 of None \<Rightarrow> None | Some mn \<Rightarrow>
      case at lats (n * 50 div 100) of None \<Rightarrow> None | Some p50 \<Rightarrow>
      case at lats (n * 75 div 100) of None \<Rightarrow> None | Some p75 \<Rightarrow>
      case at lats (n * 90 div 100) of None \<Rightarrow> None | Some p90 \<Rightarrow>
      case at lats (min (n * 95 div 100) (n - 1)) of None \<Rightarrow> None | Some p95 \<Rightarrow>
      case at lats (min (n * 99 div 100) (n - 1)) of None \<Rightarrow> None | Some p99 \<Rightarrow>
      case at lats (n - 1) of None \<Rightarrow> None | Some mx \<Rightarrow>
        Some \<lparr>st_min = mn, st_p50 = p50, st_p75 = p75, st_p90 = p90, st_p95 = p95, st_p99 = p99, st_max = mx,
          st_mean = sgn (sum_list lats) * (\<bar>sum_list lats\<bar> div n)\<rparr>)"

fun report_loop :: "roundResult list \<Rightarrow> duration list \<Rightarrow> nat \<Rightarrow> nat \<Rightarrow> duration list \<times> nat \<times> nat" where
  "report_loop [] lats timeouts errs = (lats, timeouts, errs)"
| "report_loop (r # rs) lats timeouts errs =
     (if rr_err r \<noteq> None then report_loop rs lats timeouts (Suc errs)
      else if \<not> rr_detected r then report_loop rs lats (Suc timeouts) errs
      else report_loop rs (lats @ [rr_latency r]) timeouts errs)"

definition report :: "roundResult list \<Rightarrow> report_lines option" where
  "report rs =
     (case report_loop rs [] 0 0 of (lats0, timeouts, errs) \<Rightarrow>
        let lats = sort lats0;
            lines = \<lparr>rl_total = length rs, rl_successful = length lats, rl_timeouts = timeouts,
              rl_errors = errs, rl_stats = None\<rparr>
        in if lats = [] then Some lines
           else (case stats_of lats of None \<Rightarrow> None | Some st \<Rightarrow> Some (lines\<lparr>rl_stats := Some st\<rparr>)))"

text \<open>\<open>main\<close> of \<open>freshness\<close>: what it prints is the number of deleted words and the report.\<close>

definition freshness_main ::
  "'s web \<Rightarrow> 's clock \<Rightarrow> fresh_args \<Rightarrow> 64 word \<Rightarrow> 's \<Rightarrow> ((nat option \<times> report_lines) ended \<times> 's) option" where
  "freshness_main wb ck a tag s =
     (if fa_rounds a < 1 then Some (ExitWith 2, s)
      else (case run_rounds wb ck a tag [0..<nat (fa_rounds a)] s of
          None \<Rightarrow> None
        | Some (Panicked, s1) \<Rightarrow> Some (Panicked, s1)
        | Some (ExitWith c, s1) \<Rightarrow> Some (ExitWith c, s1)
        | Some (Returned rs, s1) \<Rightarrow>
            (case (if fa_cleanup a
                   then (case clean_up wb a rs s1 of (None, s2) \<Rightarrow> (None, s2) | (Some n, s2) \<Rightarrow> (Some (Some n), s2))
                   else (Some None, s1)) of
               (None, s2) \<Rightarrow> Some (Panicked, s2)
             | (Some cleaned, s2) \<Rightarrow>
                 (case report rs of
                    None \<Rightarrow> Some (Panicked, s2)
                  | Some lines \<Rightarrow> Some (Returned (cleaned, lines), s2)))))"

section \<open>What the probe reports\<close>

definition succeeded :: "roundResult \<Rightarrow> bool" where
  "succeeded r \<longleftrightarrow> rr_err r = None \<and> rr_detected r"

lemma report_loop_counts:
  "report_loop rs lats m e =
     (lats @ map rr_latency (filter succeeded rs), m + length (filter (\<lambda>r. rr_err r = None \<and> \<not> rr_detected r) rs),
      e + length (filter (\<lambda>r. rr_err r \<noteq> None) rs))"
  by (induction rs arbitrary: lats m e) (simp_all add: succeeded_def)

lemma rounds_split:
  "length (filter succeeded rs) + length (filter (\<lambda>r. rr_err r = None \<and> \<not> rr_detected r) rs) +
   length (filter (\<lambda>r. rr_err r \<noteq> None) rs) = length rs"
  by (induction rs) (auto simp: succeeded_def)

lemma at_Some: "0 \<le> i \<Longrightarrow> i < int (length xs) \<Longrightarrow> at xs i = Some (xs ! nat i)"
  by (simp add: at_def)

lemma percentile_order:
  fixes n :: int
  assumes "0 < n"
  shows "0 \<le> n * 50 div 100" "n * 50 div 100 \<le> n * 75 div 100" "n * 75 div 100 \<le> n * 90 div 100"
    "n * 90 div 100 < n" "n * 90 div 100 \<le> n * 95 div 100" "n * 95 div 100 \<le> n * 99 div 100"
proof -
  have "100 * (n * 90 div 100) \<le> n * 90"
    using div_mult_mod_eq [of "n * 90" 100] pos_mod_sign [of 100 "n * 90"] by linarith
  then show "n * 90 div 100 < n" using assms by linarith
qed (use assms in \<open>auto intro!: zdiv_mono1 simp: pos_imp_zdiv_nonneg_iff\<close>)

text \<open>The percentiles of a sorted, non-empty list are entries of it, in their order.\<close>

definition stats_ordered :: "duration list \<Rightarrow> latency_stats \<Rightarrow> bool" where
  "stats_ordered lats st \<longleftrightarrow>
     sorted [st_min st, st_p50 st, st_p75 st, st_p90 st, st_p95 st, st_p99 st, st_max st] \<and>
     {st_min st, st_p50 st, st_p75 st, st_p90 st, st_p95 st, st_p99 st, st_max st} \<subseteq> set lats \<and>
     list_all (\<lambda>d. st_min st \<le> d \<and> d \<le> st_max st) lats"

lemma stats_of_sorted:
  assumes "sorted lats" "lats \<noteq> []"
  shows "\<exists>st. stats_of lats = Some st \<and> stats_ordered lats st"
proof -
  let ?n = "int (length lats)"
  let ?p = "\<lambda>k. lats ! nat k"
  have n: "0 < ?n" using assms(2) by simp
  obtain q50 q75 q90 q95 q99 where q: "?n * 50 div 100 = q50" "?n * 75 div 100 = q75" "?n * 90 div 100 = q90"
    "?n * 95 div 100 = q95" "?n * 99 div 100 = q99" by simp
  note b = percentile_order [OF n, unfolded q]
  have mono: "i \<le> j \<Longrightarrow> j < ?n \<Longrightarrow> ?p i \<le> ?p j" for i j
  proof -
    assume "i \<le> j" "j < ?n"
    then have "nat i \<le> nat j" "nat j < length lats" using n by linarith+
    then show "?p i \<le> ?p j" by (rule sorted_nth_mono [OF assms(1)])
  qed
  have elem: "0 \<le> i \<Longrightarrow> i < ?n \<Longrightarrow> ?p i \<in> set lats" for i by simp
  let ?a = "min q95 (?n - 1)" and ?z = "min q99 (?n - 1)"
  have c: "0 \<le> q75" "0 \<le> q90" "q50 < ?n" "q75 < ?n" "q90 \<le> ?a" "?a \<le> ?z" "?z \<le> ?n - 1" "0 \<le> ?a" "?a < ?n"
    "?z < ?n" "0 \<le> ?z" "0 \<le> ?n - 1" "?n - 1 < ?n"
    using b n by linarith+
  define st where "st = \<lparr>st_min = ?p 0, st_p50 = ?p q50, st_p75 = ?p q75,
    st_p90 = ?p q90, st_p95 = ?p ?a, st_p99 = ?p ?z, st_max = ?p (?n - 1),
    st_mean = sgn (sum_list lats) * (\<bar>sum_list lats\<bar> div ?n)\<rparr>"
  have "stats_of lats = Some st"
    unfolding stats_of_def Let_def st_def q using n b c by (simp only: at_Some option.case)
  moreover have "sorted [?p 0, ?p q50, ?p q75, ?p q90, ?p ?a, ?p ?z, ?p (?n - 1)]"
    unfolding sorted_wrt2 [OF transp_on_le] sorted_wrt1 using b c by (intro conjI mono TrueI) simp_all
  moreover have "{?p 0, ?p q50, ?p q75, ?p q90, ?p ?a, ?p ?z, ?p (?n - 1)} \<subseteq> set lats"
    using n b c elem by (simp only: insert_subset empty_subsetI elem simp_thms order.refl)
  moreover have "list_all (\<lambda>d. ?p 0 \<le> d \<and> d \<le> ?p (?n - 1)) lats"
    unfolding list_all_length
  proof (intro allI impI)
    fix i assume "i < length lats"
    then show "?p 0 \<le> lats ! i \<and> lats ! i \<le> ?p (?n - 1)" using mono [of 0 "int i"] mono [of "int i" "?n - 1"] by simp
  qed
  ultimately show ?thesis unfolding stats_ordered_def by (intro exI [of _ st]) (simp add: st_def)
qed

text \<open>
  The report never panics, its three counts add up to the rounds, and there are statistics exactly when some
  round succeeded: the percentiles of the successful latencies, in order.
\<close>

lemma report_accounts_for_every_round:
  "\<exists>rl. report rs = Some rl \<and> rl_total rl = length rs \<and>
     rl_successful rl + rl_timeouts rl + rl_errors rl = rl_total rl \<and>
     rl_successful rl = length (filter succeeded rs) \<and>
     (case rl_stats rl of
        None \<Rightarrow> rl_successful rl = 0
      | Some st \<Rightarrow> 0 < rl_successful rl \<and> stats_ordered (sort (map rr_latency (filter succeeded rs))) st)"
proof -
  let ?lats = "sort (map rr_latency (filter succeeded rs))"
  show ?thesis
  proof (cases "?lats = []")
    case True
    then have "filter succeeded rs = []" by (metis length_0_conv length_map length_sort)
    then show ?thesis using rounds_split [of rs] by (simp add: report_def report_loop_counts)
  next
    case False
    then obtain st where st: "stats_of ?lats = Some st" "stats_ordered ?lats st"
      using stats_of_sorted [of ?lats] by auto
    have "filter succeeded rs \<noteq> []" using False by auto
    then show ?thesis using st False rounds_split [of rs] by (simp add: report_def report_loop_counts Let_def)
  qed
qed

section \<open>A round ends\<close>

text \<open>
  Time does not run backwards during a request, and a tick that is taken lets it advance; after \<open>limit\<close> the
  \<open>select\<close> takes the end of the context. (When both are ready Go chooses at random, so \<open>limit\<close> may be later
  than the deadline.)
\<close>

definition time_passes :: "'s web \<Rightarrow> 's clock \<Rightarrow> fresh_args \<Rightarrow> instant \<Rightarrow> instant \<Rightarrow> bool" where
  "time_passes wb ck a deadline limit \<longleftrightarrow>
     (\<forall>rq s. ck_now ck s \<le> ck_now ck (snd (wb_do wb rq s))) \<and>
     (\<forall>s. \<not> fst (ck_select ck deadline (fa_pollMs a * millisecond) s) \<longrightarrow>
        ck_now ck s < limit \<and>
        ck_now ck s < ck_now ck (snd (ck_select ck deadline (fa_pollMs a * millisecond) s)))"

lemma detectHit_state:
  assumes "\<forall>rq s. ck_now ck s \<le> ck_now ck (snd (wb_do wb rq s))"
  shows "ck_now ck s \<le> ck_now ck (snd (detectHit wb a w s))"
proof -
  let ?rq = "\<lparr>tq_Method = ''POST'', tq_URL = fa_base a @ ''/api/v1/filter/detect'',
    tq_ContentType = Some ''application/json'', tq_APIKey = fa_apiKey a, tq_Body = wb_detect_json wb w\<rparr>"
  have "ck_now ck s \<le> ck_now ck (snd (wb_do wb ?rq s))" using assms by blast
  then show ?thesis by (auto simp: detectHit_def send_def split: prod.splits sum.splits)
qed

lemma detectHit_panics:
  "fst (detectHit wb a w s) = None \<longleftrightarrow> \<not> wb_url_ok wb (fa_base a @ ''/api/v1/filter/detect'')"
  by (auto simp: detectHit_def send_def split: prod.splits sum.splits)

text \<open>How a round that was polled ends: detected after some time, or given up with the timeout as its latency.\<close>

definition round_over :: "fresh_args \<Rightarrow> instant \<Rightarrow> roundResult \<Rightarrow> roundResult \<Rightarrow> instant \<Rightarrow> bool" where
  "round_over a t0 r r' now \<longleftrightarrow> rr_id r' = rr_id r \<and> rr_word r' = rr_word r \<and> rr_wordID r' = rr_wordID r \<and>
     rr_err r' = rr_err r \<and> rr_latency r' = (if rr_detected r' then now - t0 else fa_timeout a)"

lemma poll_loop_ends:
  assumes "time_passes wb ck a deadline limit" "wb_url_ok wb (fa_base a @ ''/api/v1/filter/detect'')"
  shows "\<exists>r' s'. poll_loop wb ck a t0 deadline r s = Some (Returned r', s') \<and>
    round_over a t0 r r' (ck_now ck s')"
proof (induction "nat (limit - ck_now ck s)" arbitrary: s rule: less_induct)
  case less
  obtain hit s1 where d: "detectHit wb a (rr_word r) s = (Some hit, s1)"
    using detectHit_panics [of wb a "rr_word r" s] assms(2) by (cases "detectHit wb a (rr_word r) s") auto
  have t1: "ck_now ck s \<le> ck_now ck s1"
    using detectHit_state [of ck wb s a "rr_word r"] assms(1) d by (simp add: time_passes_def)
  obtain over s2 where sel: "ck_select ck deadline (fa_pollMs a * millisecond) s1 = (over, s2)" by fastforce
  consider "hit = Inr True" | "hit \<noteq> Inr True" over | "hit \<noteq> Inr True" "\<not> over" by blast
  then show ?case
  proof cases
    case 1
    then show ?thesis by (subst poll_loop.simps) (simp add: d round_over_def)
  next
    case 2
    then show ?thesis using sel by (subst poll_loop.simps) (simp add: d round_over_def)
  next
    case 3
    have "ck_now ck s1 < limit" "ck_now ck s1 < ck_now ck s2"
      using assms(1) sel 3(2) unfolding time_passes_def by (metis fst_conv snd_conv)+
    then have "nat (limit - ck_now ck s2) < nat (limit - ck_now ck s)" using t1 by linarith
    from less.hyps [OF this] show ?thesis using 3 sel by (subst poll_loop.simps) (simp add: d)
  qed
qed

text \<open>
  A round whose word is accepted is polled until it is detected or given up, and one whose word is refused is an
  error at once; either way it returns.
\<close>

lemma runOne_ends:
  assumes "\<And>deadline. \<exists>limit. time_passes wb ck a deadline limit" "0 < fa_pollMs a"
    and "wb_url_ok wb (fa_base a @ ''/api/v1/words'')" "wb_url_ok wb (fa_base a @ ''/api/v1/filter/detect'')"
  shows "\<exists>r s'. runOne wb ck a idx tag s = Some (Returned r, s') \<and> rr_word r = rr_word (new_round idx tag) \<and>
    (rr_err r \<noteq> None \<longrightarrow> \<not> rr_detected r \<and> rr_wordID r = 0) \<and>
    (rr_err r = None \<and> \<not> rr_detected r \<longrightarrow> rr_latency r = fa_timeout a) \<and>
    (rr_detected r \<longrightarrow> rr_latency r = ck_now ck s' - ck_now ck s)"
proof -
  let ?r = "new_round idx tag"
  obtain c s1 where c: "fresh_createWord wb a (rr_word ?r) s = (Some c, s1)"
    using assms(3) by (cases "fresh_createWord wb a (rr_word ?r) s")
      (auto simp: fresh_createWord_def send_def split: prod.splits sum.splits)
  show ?thesis
  proof (cases c)
    case (Inl err)
    then show ?thesis using c by (simp add: runOne_def Let_def new_round_def)
  next
    case (Inr i)
    let ?dl = "ck_now ck s1 + fa_timeout a"
    obtain limit where t: "time_passes wb ck a ?dl limit" using assms(1) by blast
    obtain r' s' where p: "poll_loop wb ck a (ck_now ck s) ?dl (?r\<lparr>rr_wordID := i\<rparr>) s1 = Some (Returned r', s')"
      and o: "round_over a (ck_now ck s) (?r\<lparr>rr_wordID := i\<rparr>) r' (ck_now ck s')"
      using poll_loop_ends [OF t assms(4)] by blast
    have "runOne wb ck a idx tag s = Some (Returned r', s')"
      using c Inr p assms(2) by (simp add: runOne_def Let_def)
    moreover have "rr_err ?r = None" by (simp add: new_round_def)
    ultimately show ?thesis using o by (auto simp: round_over_def)
  qed
qed

section \<open>Deleting the probe words\<close>

text \<open>
  As long as the transport works, every deletion counts as done, whatever the server answers: with a server that
  refuses them all the program still reports all its words deleted.
\<close>

lemma deleteWord_ignores_status:
  assumes "wb_url_ok wb (fa_base a @ ''/api/v1/words/'' @ Itoa (uint i))"
    and "\<forall>rq s. \<exists>status body s'. wb_do wb rq s = (Inr (status, body), s')"
  shows "fst (deleteWord wb a i s) = Some None"
proof -
  let ?rq = "\<lparr>tq_Method = ''DELETE'', tq_URL = fa_base a @ ''/api/v1/words/'' @ Itoa (uint i),
    tq_ContentType = None, tq_APIKey = fa_apiKey a, tq_Body = []\<rparr>"
  obtain status body s' where "wb_do wb ?rq s = (Inr (status, body), s')" using assms(2) by blast
  then show ?thesis using assms(1) by (simp add: deleteWord_def send_def)
qed

lemma failed_deletions_are_counted:
  assumes "\<forall>url. wb_url_ok wb url" "\<forall>rq s. \<exists>status body s'. wb_do wb rq s = (Inr (status, body), s')"
  shows "fst (clean_up wb a rs s) = Some (length (filter (\<lambda>r. rr_wordID r \<noteq> 0) rs))"
proof (induction rs arbitrary: s)
  case Nil
  show ?case by simp
next
  case (Cons r rs)
  have u: "wb_url_ok wb (fa_base a @ ''/api/v1/words/'' @ Itoa (uint (rr_wordID r)))" using assms(1) by blast
  obtain s1 where d: "deleteWord wb a (rr_wordID r) s = (Some None, s1)"
    using deleteWord_ignores_status [OF u assms(2), of s] by (cases "deleteWord wb a (rr_wordID r) s") auto
  show ?case using Cons.IH [of s1] Cons.IH [of s] by (auto simp: d split: prod.splits option.splits)
qed

text \<open>A server that answers 500 to everything: the probe that had a word still counts it as deleted.\<close>

definition refusing_web :: "unit web" where
  "refusing_web = \<lparr>wb_url_ok = (\<lambda>_. True), wb_do = (\<lambda>_ s. (Inr (500, []), s)), wb_import_json = (\<lambda>_. []),
     wb_create_json = (\<lambda>_. []), wb_detect_json = id, wb_tally = (\<lambda>_. Inl RecordNotFound), wb_id = (\<lambda>_. 0),
     wb_hits = (\<lambda>_. Inl RecordNotFound)\<rparr>"

lemma refused_deletion_is_counted:
  "fst (clean_up refusing_web a [(new_round 0 7)\<lparr>rr_wordID := 3\<rparr>] s) = Some 1"
proof -
  have "\<forall>rq s. \<exists>status body s'. wb_do refusing_web rq s = (Inr (status, body), s')"
    by (simp add: refusing_web_def)
  moreover have "\<forall>url. wb_url_ok refusing_web url" by (simp add: refusing_web_def)
  ultimately show ?thesis by (simp add: failed_deletions_are_counted del: clean_up.simps)
qed

end
